(* ===== verification/Prelude.thy ===== *)
theory Prelude
  imports Main "HOL-Library.Word" "HOL-Library.Multiset"
begin

text \<open>
  Shared material of the development: names for the C integer types, the value of an
  \<open>elog(ERROR, ...)\<close>, the collections of facts that the component proofs use, and generic
  lemmas on words and lists.  Unsigned C integers of fixed width are words, so that \<open>+\<close> and
  \<open>-\<close> wrap as they do in C; a cast to the signed type of the same width is \<^const>\<open>sint\<close>.
\<close>

unbundle bit_operations_syntax

type_synonym uint8 = "8 word"
type_synonym uint16 = "16 word"
type_synonym uint32 = "32 word"
type_synonym uint64 = "64 word"

type_synonym TransactionId = "32 word"
type_synonym CommandId = "32 word"
type_synonym MultiXactId = "32 word"
type_synonym Oid = "32 word"
type_synonym BlockNumber = "32 word"
type_synonym XLogRecPtr = "64 word"

text \<open>\<open>elog(ERROR, msg)\<close> and \<open>ereport(ERROR, ...)\<close> leave the function by a non-local exit;
  a function that can do so returns a sum whose left side is the error.\<close>

datatype pg_error = ERROR string

type_synonym 'a result = "pg_error + 'a"

text \<open>The block size is a configuration constant; 8 kB is the default.\<close>

definition BLCKSZ :: nat where
  "BLCKSZ = 8192"

named_theorems xid_defs "definitions of the transaction-id macros and comparisons"
named_theorems bms_defs "definitions of the bitmap-set operations"
named_theorems hint_simps "how setting a hint bit changes the tests on t_infomask"

section \<open>Words\<close>

lemma sint_word_of_int_small:
  "- (2 ^ 31) \<le> x \<Longrightarrow> x < 2 ^ 31 \<Longrightarrow> sint (word_of_int x :: 32 word) = x"
  by (simp add: int_word_sint)

lemma sint_diff_window:
  assumes "- (2 ^ 31) \<le> a - b" and "a - b < 2 ^ 31"
  shows "sint (word_of_int a - word_of_int b :: 32 word) = a - b"
proof -
  have "word_of_int a - word_of_int b = (word_of_int (a - b) :: 32 word)" by simp
  with assms show ?thesis by (simp only: sint_word_of_int_small)
qed

lemma sint_nonneg_uint:
  assumes "0 \<le> sint (w :: 32 word)"
  shows "sint w = uint w"
proof -
  have w: "sint w = (uint w + 2 ^ 31) mod 2 ^ 32 - 2 ^ 31" using int_word_sint [of "uint w", where ?'a = 32] by simp
  show ?thesis
  proof (cases "uint w < 2 ^ 31")
    case True
    then show ?thesis using w by simp
  next
    case False
    moreover have "uint w < 2 ^ 32" using uint_lt2p [of w] by simp
    ultimately have "(uint w + 2 ^ 31) mod 2 ^ 32 = uint w + 2 ^ 31 - 2 ^ 32" by (simp add: mod_pos_geq)
    with w assms \<open>uint w < 2 ^ 32\<close> show ?thesis by simp
  qed
qed

lemma word32_of_int_take_bit64: "(word_of_int (take_bit 64 x) :: 32 word) = word_of_int x"
  by (simp add: word_of_int_eq_iff)

lemma uint64_add: "uint (a + b :: 64 word) = take_bit 64 (uint a + uint b)"
  by transfer (simp add: take_bit_add)

lemma ucast32_add: "(ucast (a + b :: 64 word) :: 32 word) = ucast a + ucast b"
  unfolding ucast_eq uint64_add word32_of_int_take_bit64 by simp

lemma uint64_diff: "uint (a - b :: 64 word) = take_bit 64 (uint a - uint b)"
  by transfer (simp add: take_bit_diff)

lemma ucast32_diff: "(ucast (a - b :: 64 word) :: 32 word) = ucast a - ucast b"
  unfolding ucast_eq uint64_diff word32_of_int_take_bit64 by simp

section \<open>Maps\<close>

lemma map_leD:
  assumes "m \<subseteq>\<^sub>m m'" and "m k = Some v"
  shows "m' k = Some v"
proof -
  from assms(2) have "k \<in> dom m" by (rule domI)
  with assms(1) have "m k = m' k" unfolding map_le_def by blast
  with assms(2) show ?thesis by simp
qed

section \<open>First and last hit of a scan\<close>

lemma hd_filter_upt:
  assumes "\<exists>i<n. P i"
  shows "hd (filter P [0..<n]) < n \<and> P (hd (filter P [0..<n])) \<and> (\<forall>i < hd (filter P [0..<n]). \<not> P i)"
  using assms
proof (induction n)
  case (Suc n)
  show ?case
  proof (cases "\<exists>i<n. P i")
    case True
    then have "filter P [0..<n] \<noteq> []" by (auto simp: filter_empty_conv)
    then have "hd (filter P [0..<Suc n]) = hd (filter P [0..<n])" by simp
    with Suc.IH [OF True] show ?thesis by (metis less_SucI)
  next
    case False
    then have "filter P [0..<n] = []" by (auto simp: filter_empty_conv)
    moreover have "P n" using Suc.prems False by (auto simp: less_Suc_eq)
    ultimately have "hd (filter P [0..<Suc n]) = n" by simp
    with False \<open>P n\<close> show ?thesis by (metis lessI)
  qed
qed simp

lemma last_filter_upt:
  assumes "\<exists>i<n. P i"
  shows "last (filter P [0..<n]) < n \<and> P (last (filter P [0..<n]))
    \<and> (\<forall>i. last (filter P [0..<n]) < i \<longrightarrow> i < n \<longrightarrow> \<not> P i)"
  using assms
proof (induction n)
  case (Suc n)
  show ?case
  proof (cases "P n")
    case True
    then have "last (filter P [0..<Suc n]) = n" by simp
    with True show ?thesis by (metis lessI less_SucE not_less_iff_gr_or_eq)
  next
    case False
    then have "last (filter P [0..<Suc n]) = last (filter P [0..<n])" by simp
    moreover have "\<exists>i<n. P i" using Suc.prems False by (auto simp: less_Suc_eq)
    ultimately show ?thesis using Suc.IH False by (metis less_SucE less_SucI)
  qed
qed simp

section \<open>Orders that hold on a window only\<close>

text \<open>
  The comparison of wrapping counters is a strict linear order on a window of fewer than half
  the values, and not on the whole type.  The locale states that contract; its client lemma
  is about scans that keep the latest element seen.
\<close>

locale window_order =
  fixes lt :: "'a \<Rightarrow> 'a \<Rightarrow> bool"
    and W :: "'a set"
  assumes irrefl: "x \<in> W \<Longrightarrow> \<not> lt x x"
    and trans: "x \<in> W \<Longrightarrow> y \<in> W \<Longrightarrow> z \<in> W \<Longrightarrow> lt x y \<Longrightarrow> lt y z \<Longrightarrow> lt x z"
    and total: "x \<in> W \<Longrightarrow> y \<in> W \<Longrightarrow> x \<noteq> y \<Longrightarrow> lt x y \<or> lt y x"
begin

lemma asym: "x \<in> W \<Longrightarrow> y \<in> W \<Longrightarrow> lt x y \<Longrightarrow> \<not> lt y x"
  using irrefl trans by blast

lemma latest_scan:
  assumes "m \<in> W" and "set xs \<subseteq> W"
  defines "r \<equiv> foldr (\<lambda>x result. if lt result x then x else result) xs m"
  shows "r \<in> insert m (set xs) \<and> (\<forall>x \<in> insert m (set xs). \<not> lt r x)"
  unfolding r_def using assms(1,2)
proof (induction xs)
  case Nil
  then show ?case using irrefl by simp
next
  case (Cons y ys)
  let ?r = "foldr (\<lambda>x result. if lt result x then x else result) ys m"
  from Cons have IH: "?r \<in> insert m (set ys)" "\<forall>x \<in> insert m (set ys). \<not> lt ?r x" by auto
  from IH Cons.prems have W: "?r \<in> W" "y \<in> W" "insert m (set ys) \<subseteq> W" by auto
  show ?case
  proof (cases "lt ?r y")
    case True
    have "\<not> lt y x" if "x \<in> insert m (set ys)" for x
      using that IH(2) True trans [of ?r y x] W by blast
    with True IH W irrefl show ?thesis by auto
  next
    case False
    with IH show ?thesis by auto
  qed
qed

end

end
