(* ===== verification/Bitutils.thy ===== *)
theory Bitutils
  imports Prelude
begin

text \<open>
  The portable bit-twiddling routines of \<open>src/include/port/pg_bitutils.h\<close> and
  \<open>src/port/pg_bitutils.c\<close>: the branches compiled without compiler builtins, which work a
  byte at a time on three lookup tables.  The lemmas give them their meaning: the position of
  the lowest and of the highest set bit, and the number of set bits.
\<close>

section \<open>Tables\<close>

definition pg_leftmost_one_pos :: "nat list" where
  "pg_leftmost_one_pos =
     [0, 0, 1, 1, 2, 2, 2, 2, 3, 3, 3, 3, 3, 3, 3, 3,
      4, 4, 4, 4, 4, 4, 4, 4, 4, 4, 4, 4, 4, 4, 4, 4,
      5, 5, 5, 5, 5, 5, 5, 5, 5, 5, 5, 5, 5, 5, 5, 5,
      5, 5, 5, 5, 5, 5, 5, 5, 5, 5, 5, 5, 5, 5, 5, 5,
      6, 6, 6, 6, 6, 6, 6, 6, 6, 6, 6, 6, 6, 6, 6, 6,
      6, 6, 6, 6, 6, 6, 6, 6, 6, 6, 6, 6, 6, 6, 6, 6,
      6, 6, 6, 6, 6, 6, 6, 6, 6, 6, 6, 6, 6, 6, 6, 6,
      6, 6, 6, 6, 6, 6, 6, 6, 6, 6, 6, 6, 6, 6, 6, 6,
      7, 7, 7, 7, 7, 7, 7, 7, 7, 7, 7, 7, 7, 7, 7, 7,
      7, 7, 7, 7, 7, 7, 7, 7, 7, 7, 7, 7, 7, 7, 7, 7,
      7, 7, 7, 7, 7, 7, 7, 7, 7, 7, 7, 7, 7, 7, 7, 7,
      7, 7, 7, 7, 7, 7, 7, 7, 7, 7, 7, 7, 7, 7, 7, 7,
      7, 7, 7, 7, 7, 7, 7, 7, 7, 7, 7, 7, 7, 7, 7, 7,
      7, 7, 7, 7, 7, 7, 7, 7, 7, 7, 7, 7, 7, 7, 7, 7,
      7, 7, 7, 7, 7, 7, 7, 7, 7, 7, 7, 7, 7, 7, 7, 7,
      7, 7, 7, 7, 7, 7, 7, 7, 7, 7, 7, 7, 7, 7, 7, 7]"

definition pg_rightmost_one_pos :: "nat list" where
  "pg_rightmost_one_pos =
     [0, 0, 1, 0, 2, 0, 1, 0, 3, 0, 1, 0, 2, 0, 1, 0,
      4, 0, 1, 0, 2, 0, 1, 0, 3, 0, 1, 0, 2, 0, 1, 0,
      5, 0, 1, 0, 2, 0, 1, 0, 3, 0, 1, 0, 2, 0, 1, 0,
      4, 0, 1, 0, 2, 0, 1, 0, 3, 0, 1, 0, 2, 0, 1, 0,
      6, 0, 1, 0, 2, 0, 1, 0, 3, 0, 1, 0, 2, 0, 1, 0,
      4, 0, 1, 0, 2, 0, 1, 0, 3, 0, 1, 0, 2, 0, 1, 0,
      5, 0, 1, 0, 2, 0, 1, 0, 3, 0, 1, 0, 2, 0, 1, 0,
      4, 0, 1, 0, 2, 0, 1, 0, 3, 0, 1, 0, 2, 0, 1, 0,
      7, 0, 1, 0, 2, 0, 1, 0, 3, 0, 1, 0, 2, 0, 1, 0,
      4, 0, 1, 0, 2, 0, 1, 0, 3, 0, 1, 0, 2, 0, 1, 0,
      5, 0, 1, 0, 2, 0, 1, 0, 3, 0, 1, 0, 2, 0, 1, 0,
      4, 0, 1, 0, 2, 0, 1, 0, 3, 0, 1, 0, 2, 0, 1, 0,
      6, 0, 1, 0, 2, 0, 1, 0, 3, 0, 1, 0, 2, 0, 1, 0,
      4, 0, 1, 0, 2, 0, 1, 0, 3, 0, 1, 0, 2, 0, 1, 0,
      5, 0, 1, 0, 2, 0, 1, 0, 3, 0, 1, 0, 2, 0, 1, 0,
      4, 0, 1, 0, 2, 0, 1, 0, 3, 0, 1, 0, 2, 0, 1, 0]"

definition pg_number_of_ones :: "nat list" where
  "pg_number_of_ones =
     [0, 1, 1, 2, 1, 2, 2, 3, 1, 2, 2, 3, 2, 3, 3, 4,
      1, 2, 2, 3, 2, 3, 3, 4, 2, 3, 3, 4, 3, 4, 4, 5,
      1, 2, 2, 3, 2, 3, 3, 4, 2, 3, 3, 4, 3, 4, 4, 5,
      2, 3, 3, 4, 3, 4, 4, 5, 3, 4, 4, 5, 4, 5, 5, 6,
      1, 2, 2, 3, 2, 3, 3, 4, 2, 3, 3, 4, 3, 4, 4, 5,
      2, 3, 3, 4, 3, 4, 4, 5, 3, 4, 4, 5, 4, 5, 5, 6,
      2, 3, 3, 4, 3, 4, 4, 5, 3, 4, 4, 5, 4, 5, 5, 6,
      3, 4, 4, 5, 4, 5, 5, 6, 4, 5, 5, 6, 5, 6, 6, 7,
      1, 2, 2, 3, 2, 3, 3, 4, 2, 3, 3, 4, 3, 4, 4, 5,
      2, 3, 3, 4, 3, 4, 4, 5, 3, 4, 4, 5, 4, 5, 5, 6,
      2, 3, 3, 4, 3, 4, 4, 5, 3, 4, 4, 5, 4, 5, 5, 6,
      3, 4, 4, 5, 4, 5, 5, 6, 4, 5, 5, 6, 5, 6, 6, 7,
      2, 3, 3, 4, 3, 4, 4, 5, 3, 4, 4, 5, 4, 5, 5, 6,
      3, 4, 4, 5, 4, 5, 5, 6, 4, 5, 5, 6, 5, 6, 6, 7,
      3, 4, 4, 5, 4, 5, 5, 6, 4, 5, 5, 6, 5, 6, 6, 7,
      4, 5, 5, 6, 5, 6, 6, 7, 5, 6, 6, 7, 6, 7, 7, 8]"

section \<open>Routines\<close>

lemma unat_drop_bit_8_less: "w \<noteq> 0 \<Longrightarrow> unat (drop_bit 8 w) < unat w" for w :: uint64
proof -
  assume "w \<noteq> 0"
  then have "unat w \<noteq> 0" by (simp add: unat_eq_zero)
  moreover have "unat (drop_bit 8 w) = unat w div 2 ^ 8"
    by (simp only: unat_drop_bit_eq) (simp only: drop_bit_eq_div)
  ultimately show ?thesis by simp
qed

text \<open>\<open>while ((word >> shift) == 0) shift -= 8;\<close> The callers assert \<open>word != 0\<close>; the test
  on \<open>shift\<close> stops the recursion of the model for a zero word, on which the C loop would go on
  to shift by a negative amount.\<close>

function leftmost_shift :: "uint64 \<Rightarrow> nat \<Rightarrow> nat" where
  "leftmost_shift word shift =
     (if drop_bit shift word = 0 \<and> shift \<noteq> 0 then leftmost_shift word (shift - 8) else shift)"
  by pat_completeness auto
termination by (relation "measure snd") auto

declare leftmost_shift.simps [simp del]

definition pg_leftmost_one_pos64 :: "uint64 \<Rightarrow> nat" where
  "pg_leftmost_one_pos64 word =
     (let shift = leftmost_shift word (64 - 8)
      in shift + pg_leftmost_one_pos ! unat (drop_bit shift word AND 255))"

text \<open>\<open>while ((word & 255) == 0) { word >>= 8; result += 8; }\<close>, again with \<open>word != 0\<close> asserted
  by the callers and a test on the word that makes the model total.\<close>

function rightmost_scan :: "uint64 \<Rightarrow> nat \<Rightarrow> uint64 \<times> nat" where
  "rightmost_scan word result =
     (if word AND 255 = 0 \<and> word \<noteq> 0 then rightmost_scan (drop_bit 8 word) (result + 8)
      else (word, result))"
  by pat_completeness auto
termination
proof (relation "measure (\<lambda>(w, _). unat w)")
  fix word :: uint64 and result :: nat
  assume "word AND 255 = 0 \<and> word \<noteq> 0"
  then show "((drop_bit 8 word, result + 8), word, result) \<in> measure (\<lambda>(w, _). unat w)"
    by (simp add: unat_drop_bit_8_less)
qed simp

declare rightmost_scan.simps [simp del]

definition pg_rightmost_one_pos64 :: "uint64 \<Rightarrow> nat" where
  "pg_rightmost_one_pos64 word =
     (let (word, result) = rightmost_scan word 0
      in result + pg_rightmost_one_pos ! unat (word AND 255))"

function popcount_loop :: "uint64 \<Rightarrow> nat \<Rightarrow> nat" where
  "popcount_loop word result =
     (if word \<noteq> 0 then popcount_loop (drop_bit 8 word) (result + pg_number_of_ones ! unat (word AND 255))
      else result)"
  by pat_completeness auto
termination
proof (relation "measure (\<lambda>(w, _). unat w)")
  fix word :: uint64 and result :: nat
  assume "word \<noteq> 0"
  then show "((drop_bit 8 word, result + pg_number_of_ones ! unat (word AND 255)), word, result)
      \<in> measure (\<lambda>(w, _). unat w)"
    by (simp add: unat_drop_bit_8_less)
qed simp

declare popcount_loop.simps [simp del]

definition pg_popcount64 :: "uint64 \<Rightarrow> nat" where
  "pg_popcount64 word = popcount_loop word 0"

section \<open>Meaning\<close>

text \<open>Each table is the tabulation of a filter over the bit positions of a byte.\<close>

lemma leftmost_table:
  "pg_leftmost_one_pos = map (\<lambda>b::int. if b = 0 then 0 else last (filter (bit b) [0..<8])) [0..255]"
  by code_simp

lemma rightmost_table:
  "pg_rightmost_one_pos = map (\<lambda>b::int. if b = 0 then 0 else hd (filter (bit b) [0..<8])) [0..255]"
  by code_simp

lemma ones_table:
  "pg_number_of_ones = map (\<lambda>b::int. length (filter (bit b) [0..<8])) [0..255]"
  by code_simp

section \<open>What the routines compute\<close>

lemma low_byte: "unat (w AND 255) < 256" "bit (uint (w AND 255)) i \<longleftrightarrow> bit w i \<and> i < 8"
  for w :: uint64
proof -
  have m: "w AND 255 = take_bit 8 w" by (simp add: take_bit_eq_mask mask_eq_exp_minus_1)
  have "unat (take_bit 8 w) < 2 ^ 8" by (simp only: unsigned_take_bit_eq take_bit_nat_less_exp)
  then show "unat (w AND 255) < 256" by (simp add: m)
  show "bit (uint (w AND 255)) i \<longleftrightarrow> bit w i \<and> i < 8"
    by (auto simp: m bit_uint_iff bit_take_bit_iff dest: bit_imp_le_length)
qed

lemma low_byte_zero_iff: "w AND 255 = 0 \<longleftrightarrow> (\<forall>i<8. \<not> bit w i)" for w :: uint64
proof -
  have m: "w AND 255 = take_bit 8 w" by (simp add: take_bit_eq_mask mask_eq_exp_minus_1)
  show ?thesis by (auto simp: m bit_eq_iff bit_take_bit_iff dest: bit_imp_le_length)
qed

lemma table_nth: "k < 256 \<Longrightarrow> map f [0..255::int] ! k = f (int k)"
  by (simp add: nth_upto)

lemma table_nth_byte: "map f [0..255::int] ! unat (w AND 255) = f (uint (w AND 255))" for w :: uint64
  using table_nth [OF low_byte(1), of f w] by simp

lemma low_byte_bit: "bit (uint (w AND 255)) = (\<lambda>i. bit w i \<and> i < 8)" for w :: uint64
  by (rule ext, rule low_byte(2))

lemma low_byte_nonzero:
  fixes w :: uint64
  assumes "w AND 255 \<noteq> 0"
  shows "\<exists>i<8. bit w i \<and> i < 8" and "uint (w AND 255) \<noteq> 0"
  using assms low_byte_zero_iff [of w] unsigned_eq_0_iff [of "w AND 255"] by blast+

lemma rightmost_byte:
  fixes w :: uint64
  assumes "w AND 255 \<noteq> 0"
  defines "p \<equiv> pg_rightmost_one_pos ! unat (w AND 255)"
  shows "bit w p" and "\<forall>i<p. \<not> bit w i"
proof -
  have p: "p = hd (filter (\<lambda>i. bit w i \<and> i < 8) [0..<8])"
    unfolding p_def rightmost_table table_nth_byte
    by (simp only: low_byte_bit low_byte_nonzero(2) [OF assms(1)] if_False)
  have "p < 8 \<and> (bit w p \<and> p < 8) \<and> (\<forall>i<p. \<not> (bit w i \<and> i < 8))"
    unfolding p by (rule hd_filter_upt [OF low_byte_nonzero(1) [OF assms(1)]])
  then show "bit w p" "\<forall>i<p. \<not> bit w i" by (blast intro: less_trans)+
qed

lemma leftmost_byte:
  fixes w :: uint64
  assumes "w AND 255 \<noteq> 0"
  defines "p \<equiv> pg_leftmost_one_pos ! unat (w AND 255)"
  shows "bit w p" and "p < 8" and "\<forall>i. p < i \<longrightarrow> i < 8 \<longrightarrow> \<not> bit w i"
proof -
  have p: "p = last (filter (\<lambda>i. bit w i \<and> i < 8) [0..<8])"
    unfolding p_def leftmost_table table_nth_byte
    by (simp only: low_byte_bit low_byte_nonzero(2) [OF assms(1)] if_False)
  have "p < 8 \<and> (bit w p \<and> p < 8) \<and> (\<forall>i. p < i \<longrightarrow> i < 8 \<longrightarrow> \<not> (bit w i \<and> i < 8))"
    unfolding p by (rule last_filter_upt [OF low_byte_nonzero(1) [OF assms(1)]])
  then show "bit w p" "p < 8" "\<forall>i. p < i \<longrightarrow> i < 8 \<longrightarrow> \<not> bit w i" by blast+
qed

lemma ones_byte: "pg_number_of_ones ! unat (w AND 255) = card {i. i < 8 \<and> bit w i}" for w :: uint64
proof -
  have "pg_number_of_ones ! unat (w AND 255) = length (filter (bit (uint (w AND 255))) [0..<8])"
    unfolding ones_table by (simp only: table_nth_byte)
  also have "\<dots> = card (set (filter (bit (uint (w AND 255))) [0..<8]))"
    by (simp only: distinct_card distinct_filter distinct_upt)
  also have "set (filter (bit (uint (w AND 255))) [0..<8]) = {i. i < 8 \<and> bit w i}"
    by (auto simp: low_byte)
  finally show ?thesis .
qed

lemma rightmost_scan_spec:
  "w \<noteq> 0 \<Longrightarrow> rightmost_scan w r = (w', r') \<Longrightarrow>
     r \<le> r' \<and> w' = drop_bit (r' - r) w \<and> w' AND 255 \<noteq> 0 \<and> (\<forall>i < r' - r. \<not> bit w i)"
proof (induction w r arbitrary: w' r' rule: rightmost_scan.induct)
  case (1 w r)
  show ?case
  proof (cases "w AND 255 = 0")
    case False
    with 1 show ?thesis by (simp add: rightmost_scan.simps [of w r])
  next
    case True
    with 1 have rec: "rightmost_scan (drop_bit 8 w) (r + 8) = (w', r')"
      by (simp add: rightmost_scan.simps [of w r])
    from True have low: "\<forall>i<8. \<not> bit w i" by (simp add: low_byte_zero_iff)
    from \<open>w \<noteq> 0\<close> obtain j where j: "bit w j" by (auto simp: bit_eq_iff)
    with low have "8 \<le> j" by (meson not_le)
    with j have "bit (drop_bit 8 w) (j - 8)" by (simp add: bit_drop_bit_eq)
    then have "drop_bit 8 w \<noteq> 0" by auto
    from 1(1) [OF conjI [OF True \<open>w \<noteq> 0\<close>] this rec]
    have IH: "r + 8 \<le> r'" "w' = drop_bit (r' - (r + 8)) (drop_bit 8 w)" "w' AND 255 \<noteq> 0"
      "\<forall>i < r' - (r + 8). \<not> bit (drop_bit 8 w) i" by auto
    have "\<not> bit w i" if "i < r' - r" for i
    proof (cases "i < 8")
      case False
      with that IH(1) have "i - 8 < r' - (r + 8)" by linarith
      with IH(4) False show ?thesis by (auto simp: bit_drop_bit_eq)
    qed (use low in blast)
    moreover have "w' = drop_bit (r' - r) w"
      using IH(1,2) by (simp add: drop_bit_drop_bit)
    ultimately show ?thesis using IH by auto
  qed
qed

lemma pg_rightmost_one_pos64:
  assumes "w \<noteq> 0"
  shows "bit w (pg_rightmost_one_pos64 w)" and "\<forall>i < pg_rightmost_one_pos64 w. \<not> bit w i"
proof -
  obtain w' r where s: "rightmost_scan w 0 = (w', r)" by fastforce
  from rightmost_scan_spec [OF assms s]
  have w': "w' = drop_bit r w" "w' AND 255 \<noteq> 0" "\<forall>i<r. \<not> bit w i" by auto
  let ?p = "pg_rightmost_one_pos ! unat (w' AND 255)"
  have pos: "pg_rightmost_one_pos64 w = r + ?p" by (simp add: pg_rightmost_one_pos64_def s)
  note b = rightmost_byte [OF w'(2)]
  show "bit w (pg_rightmost_one_pos64 w)" using b(1) by (simp add: pos w' bit_drop_bit_eq)
  have "\<not> bit w i" if "i < r + ?p" for i
  proof (cases "i < r")
    case False
    then have "i - r < ?p" using that by simp
    with b(2) have "\<not> bit w' (i - r)" by blast
    with False show ?thesis by (simp add: w'(1) bit_drop_bit_eq)
  qed (use w' in blast)
  then show "\<forall>i < pg_rightmost_one_pos64 w. \<not> bit w i" by (simp add: pos)
qed

lemma leftmost_shift_spec:
  assumes "w \<noteq> 0" "\<forall>i\<ge>shift + 8. \<not> bit w i" "8 dvd shift"
  shows "drop_bit (leftmost_shift w shift) w \<noteq> 0 \<and> (\<forall>i\<ge>leftmost_shift w shift + 8. \<not> bit w i)"
  using assms
proof (induction w shift rule: leftmost_shift.induct)
  case (1 w shift)
  show ?case
  proof (cases "drop_bit shift w = 0 \<and> shift \<noteq> 0")
    case True
    then have step: "leftmost_shift w shift = leftmost_shift w (shift - 8)"
      by (simp add: leftmost_shift.simps [of w shift])
    from True 1(4) have "8 \<le> shift" by (simp add: dvd_imp_le)
    have "\<not> bit w i" if "shift \<le> i" for i
    proof -
      have "\<not> bit (drop_bit shift w) (i - shift)" using True by simp
      with that show ?thesis by (simp add: bit_drop_bit_eq)
    qed
    with \<open>8 \<le> shift\<close> have "\<forall>i\<ge>shift - 8 + 8. \<not> bit w i" by simp
    moreover have "8 dvd shift - 8" using 1(4) \<open>8 \<le> shift\<close> by (simp add: dvd_minus_self)
    ultimately show ?thesis using 1(1) [OF True 1(2)] step by simp
  next
    case False
    with 1 show ?thesis by (auto simp: leftmost_shift.simps [of w shift])
  qed
qed

lemma pg_leftmost_one_pos64:
  assumes "w \<noteq> 0"
  shows "bit w (pg_leftmost_one_pos64 w)" and "\<forall>i > pg_leftmost_one_pos64 w. \<not> bit w i"
proof -
  define s where "s = leftmost_shift w 56"
  define p where "p = pg_leftmost_one_pos ! unat (drop_bit s w AND 255)"
  have pos: "pg_leftmost_one_pos64 w = s + p"
    by (simp add: pg_leftmost_one_pos64_def Let_def s_def p_def)
  have "\<forall>i\<ge>56 + 8. \<not> bit w i" by (auto dest: bit_imp_le_length)
  from leftmost_shift_spec [OF assms this]
  have s: "drop_bit s w \<noteq> 0" "\<forall>i\<ge>s + 8. \<not> bit w i" by (auto simp: s_def)
  from s(1) obtain j where j: "bit w (s + j)" by (auto simp: bit_eq_iff bit_drop_bit_eq)
  with s(2) have "j < 8" by (meson add_le_cancel_left not_le)
  with j have "drop_bit s w AND 255 \<noteq> 0" by (auto simp: low_byte_zero_iff bit_drop_bit_eq)
  note b = leftmost_byte [OF this, folded p_def]
  show "bit w (pg_leftmost_one_pos64 w)" using b(1) by (simp add: pos bit_drop_bit_eq)
  have "\<not> bit w i" if "s + p < i" for i
  proof (cases "i < s + 8")
    case True
    with that have "p < i - s" "i - s < 8" by linarith+
    with b(3) have "\<not> bit (drop_bit s w) (i - s)" by blast
    with that show ?thesis by (simp add: bit_drop_bit_eq)
  qed (use s(2) in simp)
  then show "\<forall>i > pg_leftmost_one_pos64 w. \<not> bit w i" by (simp add: pos)
qed

lemma bits_split_byte:
  "{i. bit w i} = {i. i < 8 \<and> bit w i} \<union> (\<lambda>i. i + 8) ` {i. bit (drop_bit 8 w) i}" for w :: uint64
proof -
  have "i \<in> (\<lambda>i. i + 8) ` {i. bit (drop_bit 8 w) i}" if "bit w i" "\<not> i < 8" for i
    using that by (intro image_eqI [of _ _ "i - 8"]) (auto simp: bit_drop_bit_eq)
  then show ?thesis by (auto simp: bit_drop_bit_eq add.commute)
qed

lemma finite_bits [simp]: "finite {i. bit w i}" for w :: "'a :: len word"
  by (rule finite_subset [of _ "{..<LENGTH('a)}"]) (auto dest: bit_imp_le_length)

lemma popcount_loop_eq: "popcount_loop w r = r + card {i. bit w i}"
proof (induction w r rule: popcount_loop.induct)
  case (1 w r)
  show ?case
  proof (cases "w = 0")
    case False
    have "card {i. bit w i} = card {i. i < 8 \<and> bit w i} + card {i. bit (drop_bit 8 w) i}"
      unfolding bits_split_byte [of w]
      by (subst card_Un_disjoint) (auto simp: card_image)
    with 1 False show ?thesis by (simp add: popcount_loop.simps [of w r] ones_byte)
  qed (simp add: popcount_loop.simps)
qed

lemma pg_popcount64: "pg_popcount64 w = card {i. bit w i}"
  by (simp add: pg_popcount64_def popcount_loop_eq)

end
