(* ===== verification/Bitmapset.thy ===== *)
theory Bitmapset
  imports Bitutils
begin

text \<open>
  The bitmap sets of \<open>src/backend/nodes/bitmapset.c\<close> and \<open>src/include/nodes/bitmapset.h\<close>, built
  with 64-bit words.  A \<open>Bitmapset *\<close> is an optional record, \<open>None\<close> for NULL; the field
  \<open>nwords\<close> of the struct is the length of the array.  A function that modifies or frees its
  argument returns the new value.  Members are C ints and appear as \<open>int\<close>; the sums the code
  computes with them stay below \<open>64 * nwords\<close>.  This theory holds every operation of the file but
  bms_hash_value, the set each bitmap stands for, and the laws of the set algebra; theory
  BitmapsetScan has the laws of counting, comparing and iterating.
\<close>

section \<open>Data and macros\<close>

type_synonym bitmapword = "64 word"

record Bitmapset =
  words :: "bitmapword list"

definition nwords :: "Bitmapset \<Rightarrow> nat" where
  [bms_defs]: "nwords a = length (words a)"

datatype BMS_Comparison = BMS_EQUAL | BMS_SUBSET1 | BMS_SUBSET2 | BMS_DIFFERENT

datatype BMS_Membership = BMS_EMPTY_SET | BMS_SINGLETON | BMS_MULTIPLE

definition BITS_PER_BITMAPWORD :: nat where
  "BITS_PER_BITMAPWORD = 64"

definition WORDNUM :: "int \<Rightarrow> nat" where
  "WORDNUM x = nat x div BITS_PER_BITMAPWORD"

definition BITNUM :: "int \<Rightarrow> nat" where
  "BITNUM x = nat x mod BITS_PER_BITMAPWORD"

definition RIGHTMOST_ONE :: "bitmapword \<Rightarrow> bitmapword" where
  "RIGHTMOST_ONE x = x AND (- x)"

definition HAS_MULTIPLE_ONES :: "bitmapword \<Rightarrow> bool" where
  "HAS_MULTIPLE_ONES x \<longleftrightarrow> RIGHTMOST_ONE x \<noteq> x"

text \<open>\<open>for (i = 0; i < n; i++) ws[i] = f(ws[i], other[i]);\<close>\<close>

definition update_words :: "(bitmapword \<Rightarrow> bitmapword \<Rightarrow> bitmapword) \<Rightarrow> nat \<Rightarrow> bitmapword list \<Rightarrow> bitmapword list
    \<Rightarrow> bitmapword list" where
  "update_words f n ws other = fold (\<lambda>i ws. ws[i := f (ws ! i) (other ! i)]) [0..<n] ws"

text \<open>\<open>for (i = l; i < u; i++) ws[i] = v;\<close>\<close>

definition fill_words :: "nat \<Rightarrow> nat \<Rightarrow> bitmapword \<Rightarrow> bitmapword list \<Rightarrow> bitmapword list" where
  "fill_words l u v ws = fold (\<lambda>i ws. ws[i := v]) [l..<u] ws"

text \<open>The error of the members' range checks.\<close>

definition negative_member :: pg_error where
  "negative_member = ERROR ''negative bitmapset member not allowed''"

section \<open>Construction, comparison\<close>

definition bms_copy :: "Bitmapset option \<Rightarrow> Bitmapset option" where
  "bms_copy a = (case a of None \<Rightarrow> None | Some a \<Rightarrow> Some \<lparr>words = words a\<rparr>)"

definition bms_is_empty :: "Bitmapset option \<Rightarrow> bool" where
  "bms_is_empty a =
     (case a of None \<Rightarrow> True
      | Some a \<Rightarrow> \<not> list_ex (\<lambda>wordnum. words a ! wordnum \<noteq> 0) [0..<nwords a])"

definition bms_equal :: "Bitmapset option \<Rightarrow> Bitmapset option \<Rightarrow> bool" where
  "bms_equal a b =
     (case a of
        None \<Rightarrow> (case b of None \<Rightarrow> True | Some _ \<Rightarrow> bms_is_empty b)
      | Some a' \<Rightarrow> (case b of
          None \<Rightarrow> bms_is_empty a
        | Some b' \<Rightarrow>
            let (shorter, longer) = (if nwords a' \<le> nwords b' then (a', b') else (b', a'));
                shortlen = nwords shorter;
                longlen = nwords longer
            in \<not> list_ex (\<lambda>i. words shorter ! i \<noteq> words longer ! i) [0..<shortlen]
               \<and> \<not> list_ex (\<lambda>i. words longer ! i \<noteq> 0) [shortlen..<longlen]))"

text \<open>\<open>while (--i >= 0) ...\<close> over the words in common.\<close>

primrec compare_common :: "bitmapword list \<Rightarrow> bitmapword list \<Rightarrow> nat \<Rightarrow> int" where
  "compare_common aws bws 0 = 0"
| "compare_common aws bws (Suc i) =
     (let aw = aws ! i; bw = bws ! i
      in if aw \<noteq> bw then (if aw > bw then 1 else -1) else compare_common aws bws i)"

definition bms_compare :: "Bitmapset option \<Rightarrow> Bitmapset option \<Rightarrow> int" where
  "bms_compare a b =
     (case a of
        None \<Rightarrow> (if bms_is_empty b then 0 else -1)
      | Some a' \<Rightarrow> (case b of
          None \<Rightarrow> (if bms_is_empty a then 0 else 1)
        | Some b' \<Rightarrow>
            let shortlen = min (nwords a') (nwords b')
            in if list_ex (\<lambda>i. words a' ! i \<noteq> 0) [shortlen..<nwords a'] then 1
               else if list_ex (\<lambda>i. words b' ! i \<noteq> 0) [shortlen..<nwords b'] then -1
               else compare_common (words a') (words b') shortlen))"

definition bms_make_singleton :: "int \<Rightarrow> Bitmapset option result" where
  "bms_make_singleton x =
     (if x < 0 then Inl negative_member
      else let wordnum = WORDNUM x; bitnum = BITNUM x
           in Inr (Some \<lparr>words = (replicate (wordnum + 1) 0)[wordnum := push_bit bitnum 1]\<rparr>))"

section \<open>Operations with a fresh result\<close>

definition bms_union :: "Bitmapset option \<Rightarrow> Bitmapset option \<Rightarrow> Bitmapset option" where
  "bms_union a b =
     (case a of None \<Rightarrow> bms_copy b
      | Some a' \<Rightarrow> (case b of None \<Rightarrow> bms_copy a
        | Some b' \<Rightarrow>
            let (result, other) = (if nwords a' \<le> nwords b' then (b', a') else (a', b'));
                otherlen = nwords other
            in Some \<lparr>words = update_words (OR) otherlen (words result) (words other)\<rparr>))"

definition bms_intersect :: "Bitmapset option \<Rightarrow> Bitmapset option \<Rightarrow> Bitmapset option" where
  "bms_intersect a b =
     (case a of None \<Rightarrow> None
      | Some a' \<Rightarrow> (case b of None \<Rightarrow> None
        | Some b' \<Rightarrow>
            let (result, other) = (if nwords a' \<le> nwords b' then (a', b') else (b', a'));
                resultlen = nwords result
            in Some \<lparr>words = update_words (AND) resultlen (words result) (words other)\<rparr>))"

definition bms_difference :: "Bitmapset option \<Rightarrow> Bitmapset option \<Rightarrow> Bitmapset option" where
  "bms_difference a b =
     (case a of None \<Rightarrow> None
      | Some a' \<Rightarrow> (case b of None \<Rightarrow> bms_copy a
        | Some b' \<Rightarrow>
            let shortlen = min (nwords a') (nwords b')
            in Some \<lparr>words = update_words (\<lambda>x y. x AND NOT y) shortlen (words a') (words b')\<rparr>))"

section \<open>Tests\<close>

definition bms_is_subset :: "Bitmapset option \<Rightarrow> Bitmapset option \<Rightarrow> bool" where
  "bms_is_subset a b =
     (case a of None \<Rightarrow> True
      | Some a' \<Rightarrow> (case b of None \<Rightarrow> bms_is_empty a
        | Some b' \<Rightarrow>
            let shortlen = min (nwords a') (nwords b')
            in \<not> list_ex (\<lambda>i. words a' ! i AND NOT (words b' ! i) \<noteq> 0) [0..<shortlen]
               \<and> (nwords a' > nwords b' \<longrightarrow>
                    \<not> list_ex (\<lambda>i. words a' ! i \<noteq> 0) [shortlen..<nwords a'])))"

text \<open>The loops of bms_subset_compare: \<open>Inl\<close> is the early return, \<open>Inr\<close> the status so far.\<close>

fun subset_common :: "bitmapword list \<Rightarrow> bitmapword list \<Rightarrow> nat list \<Rightarrow> BMS_Comparison
    \<Rightarrow> BMS_Comparison + BMS_Comparison" where
  "subset_common aws bws [] result = Inr result"
| "subset_common aws bws (i # is) result =
     (let aword = aws ! i; bword = bws ! i
      in if aword AND NOT bword \<noteq> 0 \<and> result = BMS_SUBSET1 then Inl BMS_DIFFERENT
         else let result = (if aword AND NOT bword \<noteq> 0 then BMS_SUBSET2 else result)
         in if bword AND NOT aword \<noteq> 0 \<and> result = BMS_SUBSET2 then Inl BMS_DIFFERENT
         else let result = (if bword AND NOT aword \<noteq> 0 then BMS_SUBSET1 else result)
         in subset_common aws bws is result)"

fun subset_extra :: "bitmapword list \<Rightarrow> BMS_Comparison \<Rightarrow> BMS_Comparison \<Rightarrow> nat list \<Rightarrow> BMS_Comparison
    \<Rightarrow> BMS_Comparison" where
  "subset_extra ws clash new [] result = result"
| "subset_extra ws clash new (i # is) result =
     (if ws ! i \<noteq> 0 then
        if result = clash then BMS_DIFFERENT else subset_extra ws clash new is new
      else subset_extra ws clash new is result)"

definition bms_subset_compare :: "Bitmapset option \<Rightarrow> Bitmapset option \<Rightarrow> BMS_Comparison" where
  "bms_subset_compare a b =
     (case a of
        None \<Rightarrow> (case b of None \<Rightarrow> BMS_EQUAL
                 | Some _ \<Rightarrow> if bms_is_empty b then BMS_EQUAL else BMS_SUBSET1)
      | Some a' \<Rightarrow> (case b of
          None \<Rightarrow> if bms_is_empty a then BMS_EQUAL else BMS_SUBSET2
        | Some b' \<Rightarrow>
            let shortlen = min (nwords a') (nwords b')
            in case subset_common (words a') (words b') [0..<shortlen] BMS_EQUAL of
                 Inl r \<Rightarrow> r
               | Inr result \<Rightarrow>
                   if nwords a' > nwords b' then
                     subset_extra (words a') BMS_SUBSET1 BMS_SUBSET2 [shortlen..<nwords a'] result
                   else if nwords a' < nwords b' then
                     subset_extra (words b') BMS_SUBSET2 BMS_SUBSET1 [shortlen..<nwords b'] result
                   else result))"

definition bms_is_member :: "int \<Rightarrow> Bitmapset option \<Rightarrow> bool result" where
  "bms_is_member x a =
     (if x < 0 then Inl negative_member
      else case a of None \<Rightarrow> Inr False
      | Some a' \<Rightarrow>
          let wordnum = WORDNUM x; bitnum = BITNUM x
          in if wordnum \<ge> nwords a' then Inr False
             else Inr (words a' ! wordnum AND push_bit bitnum 1 \<noteq> 0))"

definition bms_overlap :: "Bitmapset option \<Rightarrow> Bitmapset option \<Rightarrow> bool" where
  "bms_overlap a b =
     (case a of None \<Rightarrow> False
      | Some a' \<Rightarrow> (case b of None \<Rightarrow> False
        | Some b' \<Rightarrow>
            let shortlen = min (nwords a') (nwords b')
            in list_ex (\<lambda>i. words a' ! i AND words b' ! i \<noteq> 0) [0..<shortlen]))"

fun overlap_list_loop :: "Bitmapset \<Rightarrow> int list \<Rightarrow> bool result" where
  "overlap_list_loop a [] = Inr False"
| "overlap_list_loop a (x # xs) =
     (if x < 0 then Inl negative_member
      else let wordnum = WORDNUM x; bitnum = BITNUM x
           in if wordnum < nwords a \<and> words a ! wordnum AND push_bit bitnum 1 \<noteq> 0 then Inr True
              else overlap_list_loop a xs)"

definition bms_overlap_list :: "Bitmapset option \<Rightarrow> int list \<Rightarrow> bool result" where
  "bms_overlap_list a b =
     (case a of None \<Rightarrow> Inr False
      | Some a' \<Rightarrow> if b = [] then Inr False else overlap_list_loop a' b)"

definition bms_nonempty_difference :: "Bitmapset option \<Rightarrow> Bitmapset option \<Rightarrow> bool" where
  "bms_nonempty_difference a b =
     (case a of None \<Rightarrow> False
      | Some a' \<Rightarrow> (case b of None \<Rightarrow> \<not> bms_is_empty a
        | Some b' \<Rightarrow>
            let shortlen = min (nwords a') (nwords b')
            in list_ex (\<lambda>i. words a' ! i AND NOT (words b' ! i) \<noteq> 0) [0..<shortlen]
               \<or> list_ex (\<lambda>i. words a' ! i \<noteq> 0) [shortlen..<nwords a']))"

section \<open>Counting\<close>

text \<open>\<open>for (i ...) if (w != 0) result += bmw_popcount(w);\<close> over the first \<open>n\<close> words.\<close>

definition popcount_words :: "bitmapword list \<Rightarrow> nat \<Rightarrow> nat" where
  "popcount_words ws n =
     fold (\<lambda>i result. if ws ! i \<noteq> 0 then result + pg_popcount64 (ws ! i) else result) [0..<n] 0"

definition bms_member_index :: "Bitmapset option \<Rightarrow> int \<Rightarrow> int result" where
  "bms_member_index a x =
     (case bms_is_member x a of
        Inl e \<Rightarrow> Inl e
      | Inr False \<Rightarrow> Inr (-1)
      | Inr True \<Rightarrow>
          (case a of
             None \<Rightarrow> Inr (-1)
           | Some a' \<Rightarrow>
               let wordnum = WORDNUM x; bitnum = BITNUM x;
                   result = popcount_words (words a') wordnum;
                   mask = push_bit bitnum 1 - 1
               in Inr (int (result + pg_popcount64 (words a' ! wordnum AND mask)))))"

text \<open>The loop of bms_singleton_member and bms_get_singleton_member: \<open>None\<close> when it finds a second
  member, otherwise \<open>result\<close>, which is \<open>-1\<close> as long as no member was seen.\<close>

fun singleton_loop :: "bitmapword list \<Rightarrow> nat list \<Rightarrow> int \<Rightarrow> int option" where
  "singleton_loop ws [] result = Some result"
| "singleton_loop ws (wordnum # rest) result =
     (let w = ws ! wordnum
      in if w \<noteq> 0 then
           if result \<ge> 0 \<or> HAS_MULTIPLE_ONES w then None
           else singleton_loop ws rest (int (wordnum * BITS_PER_BITMAPWORD + pg_rightmost_one_pos64 w))
         else singleton_loop ws rest result)"

definition bms_singleton_member :: "Bitmapset option \<Rightarrow> int result" where
  "bms_singleton_member a =
     (case a of None \<Rightarrow> Inl (ERROR ''bitmapset is empty'')
      | Some a' \<Rightarrow>
          (case singleton_loop (words a') [0..<nwords a'] (-1) of
             None \<Rightarrow> Inl (ERROR ''bitmapset has multiple members'')
           | Some result \<Rightarrow> if result < 0 then Inl (ERROR ''bitmapset is empty'') else Inr result))"

text \<open>The second component is what the call leaves in \<open>*member\<close>.\<close>

definition bms_get_singleton_member :: "Bitmapset option \<Rightarrow> int \<Rightarrow> bool \<times> int" where
  "bms_get_singleton_member a member =
     (case a of None \<Rightarrow> (False, member)
      | Some a' \<Rightarrow>
          (case singleton_loop (words a') [0..<nwords a'] (-1) of
             None \<Rightarrow> (False, member)
           | Some result \<Rightarrow> if result < 0 then (False, member) else (True, result)))"

definition bms_num_members :: "Bitmapset option \<Rightarrow> nat" where
  "bms_num_members a = (case a of None \<Rightarrow> 0 | Some a' \<Rightarrow> popcount_words (words a') (nwords a'))"

fun membership_loop :: "bitmapword list \<Rightarrow> nat list \<Rightarrow> BMS_Membership \<Rightarrow> BMS_Membership" where
  "membership_loop ws [] result = result"
| "membership_loop ws (wordnum # rest) result =
     (let w = ws ! wordnum
      in if w \<noteq> 0 then
           if result \<noteq> BMS_EMPTY_SET \<or> HAS_MULTIPLE_ONES w then BMS_MULTIPLE
           else membership_loop ws rest BMS_SINGLETON
         else membership_loop ws rest result)"

definition bms_membership :: "Bitmapset option \<Rightarrow> BMS_Membership" where
  "bms_membership a =
     (case a of None \<Rightarrow> BMS_EMPTY_SET
      | Some a' \<Rightarrow> membership_loop (words a') [0..<nwords a'] BMS_EMPTY_SET)"

section \<open>Operations that recycle their argument\<close>

text \<open>repalloc to \<open>n\<close> words and zeroing of the new ones.\<close>

definition enlarge_words :: "nat \<Rightarrow> bitmapword list \<Rightarrow> bitmapword list" where
  "enlarge_words n ws = (if n > length ws then ws @ replicate (n - length ws) 0 else ws)"

definition bms_add_member :: "Bitmapset option \<Rightarrow> int \<Rightarrow> Bitmapset option result" where
  "bms_add_member a x =
     (if x < 0 then Inl negative_member
      else case a of None \<Rightarrow> bms_make_singleton x
      | Some a' \<Rightarrow>
          let wordnum = WORDNUM x; bitnum = BITNUM x;
              ws = enlarge_words (wordnum + 1) (words a')
          in Inr (Some (a'\<lparr>words := ws[wordnum := ws ! wordnum OR push_bit bitnum 1]\<rparr>)))"

definition bms_del_member :: "Bitmapset option \<Rightarrow> int \<Rightarrow> Bitmapset option result" where
  "bms_del_member a x =
     (if x < 0 then Inl negative_member
      else case a of None \<Rightarrow> Inr None
      | Some a' \<Rightarrow>
          let wordnum = WORDNUM x; bitnum = BITNUM x
          in Inr (Some (if wordnum < nwords a' then
                a'\<lparr>words := (words a')[wordnum := words a' ! wordnum AND NOT (push_bit bitnum 1)]\<rparr>
              else a')))"

definition bms_add_members :: "Bitmapset option \<Rightarrow> Bitmapset option \<Rightarrow> Bitmapset option" where
  "bms_add_members a b =
     (case a of None \<Rightarrow> bms_copy b
      | Some a' \<Rightarrow> (case b of None \<Rightarrow> a
        | Some b' \<Rightarrow>
            let (result, other) = (if nwords a' < nwords b' then (b', a') else (a', b'));
                otherlen = nwords other
            in Some \<lparr>words = update_words (OR) otherlen (words result) (words other)\<rparr>))"

definition bms_add_range :: "Bitmapset option \<Rightarrow> int \<Rightarrow> int \<Rightarrow> Bitmapset option result" where
  "bms_add_range a lower upper =
     (if upper < lower then Inr a
      else if lower < 0 then Inl negative_member
      else
        let uwordnum = WORDNUM upper;
            ws = (case a of None \<Rightarrow> replicate (uwordnum + 1) 0
                  | Some a' \<Rightarrow> enlarge_words (uwordnum + 1) (words a'));
            lwordnum = WORDNUM lower;
            lbitnum = BITNUM lower;
            ushiftbits = BITS_PER_BITMAPWORD - (BITNUM upper + 1);
            lmask = NOT (push_bit lbitnum 1 - 1);
            umask = drop_bit ushiftbits (NOT 0);
            ws = (if lwordnum = uwordnum then
                    ws[lwordnum := ws ! lwordnum OR (lmask AND umask)]
                  else
                    let ws = ws[lwordnum := ws ! lwordnum OR lmask];
                        ws = fill_words (lwordnum + 1) uwordnum (NOT 0) ws
                    in ws[uwordnum := ws ! uwordnum OR umask])
        in Inr (Some \<lparr>words = ws\<rparr>))"

definition bms_int_members :: "Bitmapset option \<Rightarrow> Bitmapset option \<Rightarrow> Bitmapset option" where
  "bms_int_members a b =
     (case a of None \<Rightarrow> None
      | Some a' \<Rightarrow> (case b of None \<Rightarrow> None
        | Some b' \<Rightarrow>
            let shortlen = min (nwords a') (nwords b');
                ws = update_words (AND) shortlen (words a') (words b')
            in Some (a'\<lparr>words := fill_words shortlen (nwords a') 0 ws\<rparr>)))"

definition bms_del_members :: "Bitmapset option \<Rightarrow> Bitmapset option \<Rightarrow> Bitmapset option" where
  "bms_del_members a b =
     (case a of None \<Rightarrow> None
      | Some a' \<Rightarrow> (case b of None \<Rightarrow> a
        | Some b' \<Rightarrow>
            let shortlen = min (nwords a') (nwords b')
            in Some (a'\<lparr>words := update_words (\<lambda>x y. x AND NOT y) shortlen (words a') (words b')\<rparr>)))"

definition bms_join :: "Bitmapset option \<Rightarrow> Bitmapset option \<Rightarrow> Bitmapset option" where
  "bms_join a b =
     (case a of None \<Rightarrow> b
      | Some a' \<Rightarrow> (case b of None \<Rightarrow> a
        | Some b' \<Rightarrow>
            let (result, other) = (if nwords a' < nwords b' then (b', a') else (a', b'));
                otherlen = nwords other
            in Some (result\<lparr>words := update_words (OR) otherlen (words result) (words other)\<rparr>)))"

section \<open>Iteration\<close>

text \<open>The set after the call and the member returned.\<close>

fun first_member_loop :: "bitmapword list \<Rightarrow> nat list \<Rightarrow> bitmapword list \<times> int" where
  "first_member_loop ws [] = (ws, -1)"
| "first_member_loop ws (wordnum # rest) =
     (let w = ws ! wordnum
      in if w \<noteq> 0 then
           let w = RIGHTMOST_ONE w
           in (ws[wordnum := ws ! wordnum AND NOT w],
               int (wordnum * BITS_PER_BITMAPWORD + pg_rightmost_one_pos64 w))
         else first_member_loop ws rest)"

definition bms_first_member :: "Bitmapset option \<Rightarrow> Bitmapset option \<times> int" where
  "bms_first_member a =
     (case a of None \<Rightarrow> (None, -1)
      | Some a' \<Rightarrow>
          let (ws, result) = first_member_loop (words a') [0..<nwords a']
          in (Some (a'\<lparr>words := ws\<rparr>), result))"

function next_member_loop :: "bitmapword list \<Rightarrow> nat \<Rightarrow> bitmapword \<Rightarrow> int" where
  "next_member_loop ws wordnum msk =
     (if wordnum < length ws then
        let w = ws ! wordnum AND msk
        in if w \<noteq> 0 then int (wordnum * BITS_PER_BITMAPWORD + pg_rightmost_one_pos64 w)
           else next_member_loop ws (wordnum + 1) (NOT 0)
      else -2)"
  by pat_completeness auto
termination by (relation "measure (\<lambda>(ws, wordnum, _). length ws - wordnum)") auto

declare next_member_loop.simps [simp del]

definition bms_next_member :: "Bitmapset option \<Rightarrow> int \<Rightarrow> int" where
  "bms_next_member a prevbit =
     (case a of None \<Rightarrow> -2
      | Some a' \<Rightarrow>
          let prevbit = prevbit + 1;
              mask = push_bit (BITNUM prevbit) (NOT 0)
          in next_member_loop (words a') (WORDNUM prevbit) mask)"

text \<open>\<open>for (wordnum = ...; wordnum >= 0; wordnum--)\<close>, the argument being \<open>wordnum + 1\<close>.\<close>

primrec prev_member_loop :: "bitmapword list \<Rightarrow> nat \<Rightarrow> bitmapword \<Rightarrow> int" where
  "prev_member_loop ws 0 msk = -2"
| "prev_member_loop ws (Suc wordnum) msk =
     (let w = ws ! wordnum AND msk
      in if w \<noteq> 0 then int (wordnum * BITS_PER_BITMAPWORD + pg_leftmost_one_pos64 w)
         else prev_member_loop ws wordnum (NOT 0))"

definition bms_prev_member :: "Bitmapset option \<Rightarrow> int \<Rightarrow> int" where
  "bms_prev_member a prevbit =
     (case a of None \<Rightarrow> -2
      | Some a' \<Rightarrow>
          if prevbit = 0 then -2
          else
            let prevbit = (if prevbit = -1 then int (nwords a' * BITS_PER_BITMAPWORD) - 1
                           else prevbit - 1);
                ushiftbits = BITS_PER_BITMAPWORD - (BITNUM prevbit + 1);
                mask = drop_bit ushiftbits (NOT 0)
            in prev_member_loop (words a') (Suc (WORDNUM prevbit)) mask)"

section \<open>The set a bitmap stands for\<close>

definition word_at :: "bitmapword list \<Rightarrow> nat \<Rightarrow> bitmapword" where
  "word_at ws i = (if i < length ws then ws ! i else 0)"

definition bms_words :: "Bitmapset option \<Rightarrow> bitmapword list" where
  "bms_words a = (case a of None \<Rightarrow> [] | Some a' \<Rightarrow> words a')"

definition bms_set :: "Bitmapset option \<Rightarrow> nat set" where
  "bms_set a = {x. bit (word_at (bms_words a) (x div 64)) (x mod 64)}"

lemma bms_words_simps [simp]: "bms_words None = []" "bms_words (Some a) = words a"
  by (simp_all add: bms_words_def)

lemma word_at_Nil [simp]: "word_at [] i = 0"
  by (simp add: word_at_def)

lemma word_at_nth: "i < length ws \<Longrightarrow> word_at ws i = ws ! i"
  by (simp add: word_at_def)

lemma bms_set_None [simp]: "bms_set None = {}"
  by (simp add: bms_set_def)

lemma in_bms_set: "x \<in> bms_set a \<longleftrightarrow> bit (word_at (bms_words a) (x div 64)) (x mod 64)"
  by (simp add: bms_set_def)

lemma in_bms_set_pair: "j < 64 \<Longrightarrow> 64 * i + j \<in> bms_set a \<longleftrightarrow> bit (word_at (bms_words a) i) j"
  by (simp add: in_bms_set)

lemma bit64_imp_less: "bit w j \<Longrightarrow> j < 64" for w :: bitmapword
  by (auto dest: bit_imp_le_length)

text \<open>Set-level questions as questions on every pair of words.\<close>

lemma bms_ball: "(\<forall>x. P (bit (word_at A (x div 64)) (x mod 64)) (bit (word_at B (x div 64)) (x mod 64)))
    \<longleftrightarrow> (\<forall>i. \<forall>j<64. P (bit (word_at A i) j) (bit (word_at B i) j))"
proof
  assume all: "\<forall>x. P (bit (word_at A (x div 64)) (x mod 64)) (bit (word_at B (x div 64)) (x mod 64))"
  show "\<forall>i. \<forall>j<64. P (bit (word_at A i) j) (bit (word_at B i) j)"
  proof (intro allI impI)
    fix i j :: nat assume "j < 64"
    then show "P (bit (word_at A i) j) (bit (word_at B i) j)" using all [rule_format, of "64 * i + j"] by simp
  qed
qed simp

lemma word64_eq_iff: "v = w \<longleftrightarrow> (\<forall>j<64. bit v j = bit w j)" for v w :: bitmapword
  by (auto simp: bit_eq_iff dest: bit64_imp_less)

lemma bms_set_eq_iff: "bms_set a = bms_set b \<longleftrightarrow> (\<forall>i. word_at (bms_words a) i = word_at (bms_words b) i)"
  unfolding set_eq_iff in_bms_set word64_eq_iff by (rule bms_ball)

lemma bms_set_subset_iff:
  "bms_set a \<subseteq> bms_set b \<longleftrightarrow> (\<forall>i. word_at (bms_words a) i AND NOT (word_at (bms_words b) i) = 0)"
  unfolding subset_iff in_bms_set
  using bms_ball [of "\<lambda>p q. p \<longrightarrow> q"] by (simp add: word64_eq_iff bit_and_iff bit_not_iff)

lemma bms_set_disjoint_iff:
  "bms_set a \<inter> bms_set b = {} \<longleftrightarrow> (\<forall>i. word_at (bms_words a) i AND word_at (bms_words b) i = 0)"
  unfolding disjoint_iff in_bms_set
  using bms_ball [of "\<lambda>p q. p \<longrightarrow> \<not> q"] by (simp add: word64_eq_iff bit_and_iff)

lemma bms_set_empty_iff: "bms_set a = {} \<longleftrightarrow> (\<forall>i. word_at (bms_words a) i = 0)"
  using bms_set_eq_iff [of a None] by simp

section \<open>The loops over words\<close>

lemma length_update_words [simp]: "length (update_words f n ws other) = length ws"
  unfolding update_words_def by (induction n) simp_all

lemma nth_update_words:
  "n \<le> length ws \<Longrightarrow> i < length ws \<Longrightarrow>
     update_words f n ws other ! i = (if i < n then f (ws ! i) (other ! i) else ws ! i)"
proof (induction n)
  case (Suc n)
  have "update_words f (Suc n) ws other =
      (update_words f n ws other)[n := f (update_words f n ws other ! n) (other ! n)]"
    by (simp add: update_words_def)
  with Suc show ?case by (cases "i = n") (auto simp: nth_list_update less_Suc_eq)
qed (simp add: update_words_def)

lemma length_fill_words [simp]: "length (fill_words l u v ws) = length ws"
  unfolding fill_words_def by (induction u) simp_all

lemma nth_fill_words:
  "u \<le> length ws \<Longrightarrow> i < length ws \<Longrightarrow>
     fill_words l u v ws ! i = (if l \<le> i \<and> i < u then v else ws ! i)"
proof (induction u)
  case (Suc u)
  show ?case
  proof (cases "l \<le> u")
    case True
    then have "fill_words l (Suc u) v ws = (fill_words l u v ws)[u := v]"
      by (simp add: fill_words_def)
    with Suc True show ?thesis by (auto simp: nth_list_update less_Suc_eq)
  next
    case False
    then show ?thesis by (auto simp: fill_words_def)
  qed
qed (simp add: fill_words_def)

lemma word_at_update_words:
  "n \<le> length ws \<Longrightarrow>
     word_at (update_words f n ws other) i = (if i < n then f (word_at ws i) (other ! i) else word_at ws i)"
  by (simp add: word_at_def nth_update_words)

lemma word_at_fill_words:
  "u \<le> length ws \<Longrightarrow>
     word_at (fill_words l u v ws) i = (if l \<le> i \<and> i < u then v else word_at ws i)"
  by (simp add: word_at_def nth_fill_words)

lemma word_at_list_update:
  "word_at (ws[i := v]) k = (if k = i \<and> i < length ws then v else word_at ws k)"
  by (simp add: word_at_def)

lemma word_at_enlarge [simp]: "word_at (enlarge_words n ws) i = word_at ws i"
  by (auto simp: word_at_def enlarge_words_def nth_append)

lemma length_enlarge [simp]: "length (enlarge_words n ws) = max n (length ws)"
  by (simp add: enlarge_words_def)

lemma word_at_replicate [simp]: "word_at (replicate n 0) i = 0"
  by (simp add: word_at_def)

lemma list_ex_upt: "list_ex P [m..<n] \<longleftrightarrow> (\<exists>i. m \<le> i \<and> i < n \<and> P i)"
  by (auto simp: list_ex_iff)

lemma bit_exp64: "bit (2 ^ n :: bitmapword) j \<longleftrightarrow> j = n \<and> n < 64"
  by (auto simp: bit_exp_iff possible_bit_def dest: bit64_imp_less)

lemma and_exp_iff: "w AND 2 ^ n \<noteq> 0 \<longleftrightarrow> bit w n" for w :: bitmapword
  by (auto simp: word64_eq_iff bit_and_iff bit_exp64 dest: bit64_imp_less)

lemma WORDNUM_int [simp]: "WORDNUM (int x) = x div 64" and BITNUM_int [simp]: "BITNUM (int x) = x mod 64"
  by (simp_all add: WORDNUM_def BITNUM_def BITS_PER_BITMAPWORD_def)

section \<open>Laws of the operations\<close>

lemma word_at_beyond: "length ws \<le> i \<Longrightarrow> word_at ws i = 0"
  by (simp add: word_at_def)

lemma word_at_bms_union:
  "word_at (bms_words (bms_union a b)) i = word_at (bms_words a) i OR word_at (bms_words b) i"
  by (auto simp: bms_union_def bms_copy_def nwords_def Let_def word_at_update_words word_at_nth [symmetric]
      word_at_beyond or.commute split: option.split)

lemma word_at_bms_add_members:
  "word_at (bms_words (bms_add_members a b)) i = word_at (bms_words a) i OR word_at (bms_words b) i"
  by (auto simp: bms_add_members_def bms_copy_def nwords_def Let_def word_at_update_words word_at_nth [symmetric]
      word_at_beyond or.commute split: option.split)

lemma word_at_bms_join:
  "word_at (bms_words (bms_join a b)) i = word_at (bms_words a) i OR word_at (bms_words b) i"
  by (auto simp: bms_join_def nwords_def Let_def word_at_update_words word_at_nth [symmetric]
      word_at_beyond or.commute split: option.split)

lemma word_at_bms_intersect:
  "word_at (bms_words (bms_intersect a b)) i = word_at (bms_words a) i AND word_at (bms_words b) i"
  by (auto simp: bms_intersect_def nwords_def Let_def word_at_update_words word_at_nth [symmetric]
      word_at_beyond and.commute split: option.split)

lemma word_at_bms_int_members:
  "word_at (bms_words (bms_int_members a b)) i = word_at (bms_words a) i AND word_at (bms_words b) i"
  by (auto simp: bms_int_members_def nwords_def Let_def word_at_update_words word_at_fill_words
      word_at_nth [symmetric] word_at_beyond split: option.split)

lemma word_at_bms_difference:
  "word_at (bms_words (bms_difference a b)) i = word_at (bms_words a) i AND NOT (word_at (bms_words b) i)"
  by (auto simp: bms_difference_def bms_copy_def nwords_def Let_def word_at_update_words word_at_nth [symmetric]
      word_at_beyond split: option.split)

lemma word_at_bms_del_members:
  "word_at (bms_words (bms_del_members a b)) i = word_at (bms_words a) i AND NOT (word_at (bms_words b) i)"
  by (auto simp: bms_del_members_def nwords_def Let_def word_at_update_words word_at_nth [symmetric]
      word_at_beyond split: option.split)

lemmas word_at_ops = word_at_bms_union word_at_bms_add_members word_at_bms_join word_at_bms_intersect
  word_at_bms_int_members word_at_bms_difference word_at_bms_del_members

lemma bms_is_empty_iff: "bms_is_empty a \<longleftrightarrow> bms_set a = {}"
  by (cases a) (auto simp: bms_is_empty_def bms_set_empty_iff list_ex_upt nwords_def word_at_def)

lemma word_at_eq_iff:
  assumes "length xs \<le> length ys"
  shows "(\<forall>i. word_at xs i = word_at ys i) \<longleftrightarrow>
      (\<forall>i. 0 \<le> i \<and> i < length xs \<longrightarrow> xs ! i = ys ! i) \<and> (\<forall>i. length xs \<le> i \<and> i < length ys \<longrightarrow> ys ! i = 0)"
    (is "?l \<longleftrightarrow> ?r")
proof
  assume ?l
  show ?r
  proof (intro conjI allI impI)
    fix i assume "0 \<le> i \<and> i < length xs"
    with \<open>?l\<close> [rule_format, of i] assms show "xs ! i = ys ! i" by (simp add: word_at_def)
  next
    fix i assume "length xs \<le> i \<and> i < length ys"
    with \<open>?l\<close> [rule_format, of i] show "ys ! i = 0" by (simp add: word_at_def)
  qed
next
  assume ?r
  with assms show ?l by (simp add: word_at_def)
qed

lemma bms_equal_iff: "bms_equal a b \<longleftrightarrow> bms_set a = bms_set b"
proof (cases "a = None \<or> b = None")
  case True
  then show ?thesis by (auto simp: bms_equal_def bms_is_empty_iff split: option.split)
next
  case False
  then obtain a' b' where [simp]: "a = Some a'" "b = Some b'" by auto
  show ?thesis
  proof (cases "nwords a' \<le> nwords b'")
    case True
    then show ?thesis
      by (simp add: bms_equal_def Let_def bms_set_eq_iff list_ex_upt nwords_def word_at_eq_iff) blast
  next
    case False
    then have "length (words b') \<le> length (words a')" by (simp add: nwords_def)
    then show ?thesis
      unfolding eq_commute [of "bms_set a"] using False
      by (simp add: bms_equal_def Let_def bms_set_eq_iff list_ex_upt nwords_def word_at_eq_iff) blast
  qed
qed

text \<open>A test on every common word and every word that only the first set has.\<close>

lemma list_ex_words:
  assumes "\<And>y. \<not> P 0 y"
  shows "(list_ex (\<lambda>i. P (as ! i) (bs ! i)) [0..<min (length as) (length bs)]
      \<or> list_ex (\<lambda>i. P (as ! i) 0) [min (length as) (length bs)..<length as])
    \<longleftrightarrow> (\<exists>i. P (word_at as i) (word_at bs i))"
proof -
  have "P (as ! i) (bs ! i) = P (word_at as i) (word_at bs i)" if "i < min (length as) (length bs)" for i
    using that by (simp add: word_at_def)
  moreover have "P (as ! i) 0 = P (word_at as i) (word_at bs i)"
    if "min (length as) (length bs) \<le> i" "i < length as" for i
    using that by (auto simp: word_at_def min_def split: if_splits)
  moreover have "i < length as" if "P (word_at as i) (word_at bs i)" for i
    using that assms by (auto simp: word_at_def split: if_splits)
  ultimately show ?thesis unfolding list_ex_upt by (meson le0 leI)
qed

lemma bms_nonempty_difference_iff: "bms_nonempty_difference a b \<longleftrightarrow> bms_set a - bms_set b \<noteq> {}"
proof (cases "a = None \<or> b = None")
  case True
  then show ?thesis by (auto simp: bms_nonempty_difference_def bms_is_empty_iff split: option.split)
next
  case False
  then obtain a' b' where "a = Some a'" "b = Some b'" by auto
  then show ?thesis
    using list_ex_words [of "\<lambda>x y. x AND NOT y \<noteq> 0" "words a'" "words b'"]
    by (simp add: bms_nonempty_difference_def nwords_def bms_set_subset_iff Diff_eq_empty_iff)
qed

lemma bms_is_subset_difference: "bms_is_subset a b \<longleftrightarrow> \<not> bms_nonempty_difference a b"
  by (simp add: bms_is_subset_def bms_nonempty_difference_def Let_def list_ex_upt min_def split: option.split)

lemma bms_is_subset_iff: "bms_is_subset a b \<longleftrightarrow> bms_set a \<subseteq> bms_set b"
  by (simp add: bms_is_subset_difference bms_nonempty_difference_iff Diff_eq_empty_iff)

lemma bms_overlap_iff: "bms_overlap a b \<longleftrightarrow> bms_set a \<inter> bms_set b \<noteq> {}"
proof (cases "a = None \<or> b = None")
  case True
  then show ?thesis by (auto simp: bms_overlap_def split: option.split)
next
  case False
  then obtain a' b' where "a = Some a'" "b = Some b'" by auto
  then show ?thesis
    using list_ex_words [of "\<lambda>x y. x AND y \<noteq> 0" "words a'" "words b'"]
    by (simp add: bms_overlap_def nwords_def bms_set_disjoint_iff list_ex_upt)
qed

text \<open>bms_subset_compare keeps the two answers seen so far in one value.\<close>

definition comparison :: "bool \<Rightarrow> bool \<Rightarrow> BMS_Comparison" where
  "comparison sub1 sub2 =
     (if sub1 then if sub2 then BMS_EQUAL else BMS_SUBSET1 else if sub2 then BMS_SUBSET2 else BMS_DIFFERENT)"

lemma subset_common_eq:
  "p \<or> q \<Longrightarrow>
   subset_common aws bws is (comparison p q) =
     (let p' = (p \<and> (\<forall>i\<in>set is. aws ! i AND NOT (bws ! i) = 0));
          q' = (q \<and> (\<forall>i\<in>set is. bws ! i AND NOT (aws ! i) = 0))
      in if p' \<or> q' then Inr (comparison p' q') else Inl BMS_DIFFERENT)"
proof (induction "is" arbitrary: p q)
  case (Cons i "is")
  let ?x = "aws ! i AND NOT (bws ! i) = 0" and ?y = "bws ! i AND NOT (aws ! i) = 0"
  consider "p \<and> ?x \<or> q \<and> ?y" | "\<not> (p \<and> ?x)" "\<not> (q \<and> ?y)" by blast
  then show ?case
  proof cases
    case 1
    then have "subset_common aws bws (i # is) (comparison p q) = subset_common aws bws is (comparison (p \<and> ?x) (q \<and> ?y))"
      by (auto simp: Let_def comparison_def)
    with Cons.IH [OF 1] show ?thesis by simp
  next
    case 2
    with Cons.prems show ?thesis by (auto simp: Let_def comparison_def)
  qed
qed simp

lemma subset_extra_eq:
  "p \<or> q \<Longrightarrow> subset_extra ws BMS_SUBSET1 BMS_SUBSET2 is (comparison p q) =
     comparison (p \<and> (\<forall>i\<in>set is. ws ! i = 0)) q"
  "p \<or> q \<Longrightarrow> subset_extra ws BMS_SUBSET2 BMS_SUBSET1 is (comparison p q) =
     comparison p (q \<and> (\<forall>i\<in>set is. ws ! i = 0))"
proof (induction "is" arbitrary: p q)
  case (Cons i "is")
  { case 1 with Cons.IH(1) [of False True] Cons.IH(1) [of p q] show ?case by (auto simp: comparison_def) }
  { case 2 with Cons.IH(2) [of True False] Cons.IH(2) [of p q] show ?case by (auto simp: comparison_def) }
qed simp_all

lemma nonzero_words_subset:
  "(\<forall>i. word_at as i AND NOT (word_at bs i) = 0) \<longleftrightarrow>
     (\<forall>i\<in>set [0..<min (length as) (length bs)]. as ! i AND NOT (bs ! i) = 0)
     \<and> (length as > length bs \<longrightarrow> (\<forall>i\<in>set [min (length as) (length bs)..<length as]. as ! i = 0))"
  using list_ex_words [of "\<lambda>x y. x AND NOT y \<noteq> 0" as bs] by (auto simp: list_ex_iff)

lemma bms_subset_compare_eq:
  "bms_subset_compare a b = comparison (bms_set a \<subseteq> bms_set b) (bms_set b \<subseteq> bms_set a)"
proof (cases "a = None \<or> b = None")
  case True
  then show ?thesis by (auto simp: bms_subset_compare_def bms_is_empty_iff comparison_def split: option.split)
next
  case False
  then obtain a' b' where ab: "a = Some a'" "b = Some b'" by auto
  let ?m = "min (nwords a') (nwords b')"
  define p where "p = (\<forall>i\<in>set [0..<?m]. words a' ! i AND NOT (words b' ! i) = 0)"
  define q where "q = (\<forall>i\<in>set [0..<?m]. words b' ! i AND NOT (words a' ! i) = 0)"
  have common: "subset_common (words a') (words b') [0..<?m] BMS_EQUAL =
      (if p \<or> q then Inr (comparison p q) else Inl BMS_DIFFERENT)"
    using subset_common_eq [of True True "words a'" "words b'" "[0..<?m]"]
    by (simp add: p_def q_def comparison_def [of True True] Let_def)
  have sub: "bms_set a \<subseteq> bms_set b \<longleftrightarrow>
      p \<and> (nwords a' > nwords b' \<longrightarrow> (\<forall>i\<in>set [?m..<nwords a']. words a' ! i = 0))"
    unfolding bms_set_subset_iff ab bms_words_simps p_def nwords_def by (rule nonzero_words_subset)
  have sup: "bms_set b \<subseteq> bms_set a \<longleftrightarrow>
      q \<and> (nwords b' > nwords a' \<longrightarrow> (\<forall>i\<in>set [?m..<nwords b']. words b' ! i = 0))"
    unfolding bms_set_subset_iff ab bms_words_simps q_def nwords_def min.commute [of "length (words a')"]
    by (rule nonzero_words_subset)
  show ?thesis
  proof (cases "p \<or> q")
    case True
    show ?thesis unfolding sub sup
      by (simp add: ab bms_subset_compare_def Let_def common True subset_extra_eq [OF True] del: set_upt)
  next
    case False
    then show ?thesis unfolding sub sup by (simp add: ab bms_subset_compare_def Let_def common comparison_def)
  qed
qed

section \<open>Laws of the member operations\<close>

lemma div_mod_64_eq: "x div 64 = y div 64 \<and> x mod 64 = y mod 64 \<longleftrightarrow> x = y" for x y :: nat
  by (metis div_mult_mod_eq)

lemma bms_set_insertI:
  assumes "\<And>i. word_at (bms_words a') i =
    (if i = x div 64 then word_at (bms_words a) i OR 2 ^ (x mod 64) else word_at (bms_words a) i)"
  shows "bms_set a' = insert x (bms_set a)"
proof (rule set_eqI)
  fix y
  have "y \<in> bms_set a' \<longleftrightarrow> y \<in> bms_set a \<or> (y div 64 = x div 64 \<and> y mod 64 = x mod 64)"
    unfolding in_bms_set assms by (simp add: bit_or_iff bit_exp64)
  then show "y \<in> bms_set a' \<longleftrightarrow> y \<in> insert x (bms_set a)" unfolding div_mod_64_eq by blast
qed

lemma bms_set_deleteI:
  assumes "\<And>i. word_at (bms_words a') i =
    (if i = x div 64 then word_at (bms_words a) i AND NOT (2 ^ (x mod 64)) else word_at (bms_words a) i)"
  shows "bms_set a' = bms_set a - {x}"
proof (rule set_eqI)
  fix y
  have "y \<in> bms_set a' \<longleftrightarrow> y \<in> bms_set a \<and> \<not> (y div 64 = x div 64 \<and> y mod 64 = x mod 64)"
    unfolding in_bms_set assms
    by (simp add: bit_and_iff bit_not_iff bit_exp64)
  then show "y \<in> bms_set a' \<longleftrightarrow> y \<in> bms_set a - {x}" unfolding div_mod_64_eq by blast
qed

lemma bms_make_singleton_set: "\<exists>b. bms_make_singleton (int x) = Inr (Some b) \<and> bms_set (Some b) = {x}"
proof -
  have "bms_set (Some \<lparr>words = (replicate (x div 64 + 1) 0)[x div 64 := 2 ^ (x mod 64)]\<rparr>) = insert x (bms_set None)"
    by (rule bms_set_insertI) (simp add: word_at_list_update del: replicate_Suc)
  then show ?thesis by (simp add: bms_make_singleton_def Let_def)
qed

lemma bms_add_member_set: "\<exists>b. bms_add_member a (int x) = Inr (Some b) \<and> bms_set (Some b) = insert x (bms_set a)"
proof (cases a)
  case None
  with bms_make_singleton_set [of x] show ?thesis by (simp add: bms_add_member_def)
next
  case (Some a')
  let ?ws = "enlarge_words (x div 64 + 1) (words a')"
  have "bms_set (Some (a'\<lparr>words := ?ws[x div 64 := ?ws ! (x div 64) OR 2 ^ (x mod 64)]\<rparr>)) = insert x (bms_set a)"
    by (rule bms_set_insertI) (simp add: Some word_at_list_update word_at_nth [symmetric] less_max_iff_disj)
  with Some show ?thesis by (simp add: bms_add_member_def Let_def)
qed

lemma bms_del_member_set: "\<exists>b. bms_del_member a (int x) = Inr b \<and> bms_set b = bms_set a - {x}"
proof (cases a)
  case None
  then show ?thesis by (simp add: bms_del_member_def)
next
  case (Some a')
  let ?b = "if x div 64 < nwords a' then
      a'\<lparr>words := (words a')[x div 64 := words a' ! (x div 64) AND NOT (2 ^ (x mod 64))]\<rparr> else a'"
  have "bms_set (Some ?b) = bms_set a - {x}"
    by (rule bms_set_deleteI)
      (simp add: Some nwords_def word_at_list_update word_at_nth [symmetric] word_at_beyond)
  with Some show ?thesis by (auto simp: bms_del_member_def Let_def split: if_splits)
qed

lemma bms_is_member_set: "bms_is_member (int x) a = Inr (x \<in> bms_set a)"
  by (cases a) (auto simp: bms_is_member_def Let_def in_bms_set and_exp_iff nwords_def word_at_def)

lemma overlap_list_loop_eq:
  "\<forall>x\<in>set xs. 0 \<le> x \<Longrightarrow> overlap_list_loop a xs = Inr (\<exists>x\<in>set xs. nat x \<in> bms_set (Some a))"
proof (induction xs)
  case (Cons x xs)
  then obtain n where "x = int n" by (metis list.set_intros(1) nonneg_int_cases)
  with Cons show ?case
    by (auto simp: Let_def in_bms_set and_exp_iff nwords_def word_at_def)
qed simp

section \<open>Ranges\<close>

lemma bit_low_mask: "bit (NOT (2 ^ n - 1) :: bitmapword) j \<longleftrightarrow> n \<le> j \<and> j < 64"
proof -
  have "(2 ^ n - 1 :: bitmapword) = mask n" by (simp add: mask_eq_exp_minus_1)
  then show ?thesis by (auto simp: bit_not_iff bit_mask_iff)
qed

lemma bit_high_mask: "u < 64 \<Longrightarrow> bit (drop_bit (64 - Suc u) (NOT 0) :: bitmapword) j \<longleftrightarrow> j \<le> u"
  by (auto simp: bit_mask_iff)

lemma le_div_mod_64:
  "l \<le> y \<longleftrightarrow> l div 64 < y div 64 \<or> l div 64 = y div 64 \<and> l mod 64 \<le> y mod 64" for l y :: nat
proof -
  have "l = 64 * (l div 64) + l mod 64" "y = 64 * (y div 64) + y mod 64" by simp_all
  moreover have "l mod 64 < 64" "y mod 64 < 64" by simp_all
  ultimately show ?thesis by linarith
qed

text \<open>The words of bms_add_range after the call.\<close>

definition range_words :: "nat \<Rightarrow> nat \<Rightarrow> bitmapword list \<Rightarrow> bitmapword list" where
  "range_words l u ws =
     (let lmask = NOT (push_bit (l mod 64) 1 - 1); umask = drop_bit (64 - (u mod 64 + 1)) (NOT 0)
      in if l div 64 = u div 64 then ws[l div 64 := ws ! (l div 64) OR (lmask AND umask)]
         else let ws = ws[l div 64 := ws ! (l div 64) OR lmask];
                  ws = fill_words (l div 64 + 1) (u div 64) (NOT 0) ws
              in ws[u div 64 := ws ! (u div 64) OR umask])"

lemma bms_add_range_words:
  "l \<le> u \<Longrightarrow> bms_add_range a (int l) (int u) =
     Inr (Some \<lparr>words = range_words l u (enlarge_words (u div 64 + 1) (bms_words a))\<rparr>)"
  by (cases a) (simp_all add: bms_add_range_def range_words_def Let_def BITS_PER_BITMAPWORD_def
      enlarge_words_def del: replicate_Suc)

lemma bit_range_words:
  assumes "l \<le> u" and "u div 64 < length ws"
  shows "bit (word_at (range_words l u ws) (y div 64)) (y mod 64) \<longleftrightarrow>
    bit (word_at ws (y div 64)) (y mod 64) \<or> l \<le> y \<and> y \<le> u"
proof -
  define lm um :: bitmapword where "lm = NOT (push_bit (l mod 64) 1 - 1)"
    and "um = drop_bit (64 - (u mod 64 + 1)) (NOT 0)"
  have lm: "bit lm (y mod 64) \<longleftrightarrow> l mod 64 \<le> y mod 64"
    using bit_low_mask [of "l mod 64" "y mod 64"] by (simp add: lm_def)
  have um: "bit um (y mod 64) \<longleftrightarrow> y mod 64 \<le> u mod 64"
    using bit_high_mask [of "u mod 64" "y mod 64"] by (simp add: um_def)
  have ly: "l \<le> y \<longleftrightarrow> l div 64 < y div 64 \<or> l div 64 = y div 64 \<and> l mod 64 \<le> y mod 64"
    and yu: "y \<le> u \<longleftrightarrow> y div 64 < u div 64 \<or> y div 64 = u div 64 \<and> y mod 64 \<le> u mod 64"
    by (rule le_div_mod_64)+
  have full: "bit (NOT 0 :: bitmapword) (y mod 64)" by (simp add: bit_not_iff)
  from assms(1) have "l div 64 \<le> u div 64" by (rule div_le_mono)
  then consider "l div 64 = u div 64" | "l div 64 < u div 64" by linarith
  then show ?thesis
  proof cases
    case 1
    have "word_at (range_words l u ws) (y div 64) =
        (if y div 64 = u div 64 then word_at ws (y div 64) OR (lm AND um) else word_at ws (y div 64))"
      using assms(2) by (simp add: range_words_def 1 lm_def um_def word_at_list_update word_at_nth)
    then show ?thesis using 1 by (auto simp: bit_or_iff bit_and_iff lm um ly yu)
  next
    case 2
    let ?i = "y div 64"
    have "word_at (range_words l u ws) ?i =
        (if ?i = l div 64 then word_at ws ?i OR lm
         else if l div 64 < ?i \<and> ?i < u div 64 then NOT 0
         else if ?i = u div 64 then word_at ws ?i OR um else word_at ws ?i)"
      unfolding range_words_def Let_def lm_def [symmetric] um_def [symmetric] using assms(2) 2
      by (auto simp: word_at_list_update word_at_fill_words word_at_nth [symmetric])
    then show ?thesis using 2 full by (auto simp: bit_or_iff lm um ly yu)
  qed
qed

lemma bms_add_range_set:
  assumes "l \<le> u"
  shows "\<exists>b. bms_add_range a (int l) (int u) = Inr (Some b) \<and> bms_set (Some b) = bms_set a \<union> {l..u}"
  unfolding bms_add_range_words [OF assms]
  by (auto simp: in_bms_set bit_range_words assms less_max_iff_disj)

section \<open>The invariant of allocated sets\<close>

text \<open>Every allocated bitmap has at least one word; bms_prev_member reads the last one without
  a test.\<close>

definition bms_wf :: "Bitmapset option \<Rightarrow> bool" where
  "bms_wf a = (case a of None \<Rightarrow> True | Some a' \<Rightarrow> 1 \<le> nwords a')"

lemma bms_wf_binary:
  assumes "bms_wf a" "bms_wf b"
  shows "bms_wf (bms_union a b)" "bms_wf (bms_intersect a b)" "bms_wf (bms_difference a b)"
    "bms_wf (bms_add_members a b)" "bms_wf (bms_int_members a b)" "bms_wf (bms_del_members a b)"
    "bms_wf (bms_join a b)"
  using assms
  by (auto simp: bms_wf_def nwords_def bms_union_def bms_intersect_def bms_difference_def bms_add_members_def
      bms_int_members_def bms_del_members_def bms_join_def bms_copy_def Let_def split: option.splits)

lemma bms_wf_member:
  assumes "bms_wf a"
  shows "bms_add_member a x = Inr b \<Longrightarrow> bms_wf b" "bms_del_member a x = Inr b \<Longrightarrow> bms_wf b"
    "bms_add_range a x y = Inr b \<Longrightarrow> bms_wf b"
  using assms
  by (auto simp: bms_wf_def nwords_def bms_add_member_def bms_del_member_def bms_add_range_def
      bms_make_singleton_def Let_def simp del: replicate_Suc split: option.splits if_splits)

section \<open>The set interface\<close>

text \<open>
  What the planner and executor rely on when they use bitmap sets: an abstraction to sets of
  naturals, kept by every operation, with an error for a negative member.
\<close>

locale nat_set =
  fixes set_of :: "'s \<Rightarrow> nat set"
    and inv :: "'s \<Rightarrow> bool"
    and emp :: 's
    and add :: "'s \<Rightarrow> int \<Rightarrow> 's result"
    and mem :: "int \<Rightarrow> 's \<Rightarrow> bool result"
    and err :: pg_error
  assumes emp: "inv emp" "set_of emp = {}"
    and add: "inv s \<Longrightarrow> \<exists>s'. add s (int x) = Inr s' \<and> inv s' \<and> set_of s' = insert x (set_of s)"
    and add_err: "z < 0 \<Longrightarrow> add s z = Inl err"
    and mem: "inv s \<Longrightarrow> mem (int x) s = Inr (x \<in> set_of s)"

text \<open>Adding the elements of a list one after the other, as in
  \<open>foreach(lc, list) result = bms_add_member(result, lfirst_int(lc));\<close>.\<close>

fun add_all :: "('s \<Rightarrow> int \<Rightarrow> 's result) \<Rightarrow> 's \<Rightarrow> int list \<Rightarrow> 's result" where
  "add_all add s [] = Inr s"
| "add_all add s (x # xs) = (case add s x of Inl e \<Rightarrow> Inl e | Inr s' \<Rightarrow> add_all add s' xs)"

context nat_set
begin

lemma add_all_ok:
  "inv s \<Longrightarrow> \<forall>x\<in>set xs. 0 \<le> x \<Longrightarrow>
     \<exists>s'. add_all add s xs = Inr s' \<and> inv s' \<and> set_of s' = set_of s \<union> nat ` set xs"
proof (induction xs arbitrary: s)
  case (Cons x xs)
  then obtain n where n: "x = int n" by (metis list.set_intros(1) nonneg_int_cases)
  from add [OF Cons.prems(1), of n] obtain s1
    where "add s x = Inr s1" "inv s1" "set_of s1 = insert n (set_of s)" unfolding n by blast
  with Cons.IH [of s1] Cons.prems n show ?case by auto
qed simp

lemma add_all_err: "inv s \<Longrightarrow> \<exists>x\<in>set xs. x < 0 \<Longrightarrow> add_all add s xs = Inl err"
proof (induction xs arbitrary: s)
  case (Cons x xs)
  show ?case
  proof (cases "x < 0")
    case False
    then obtain n where n: "x = int n" by (metis nonneg_int_cases not_less)
    from add [OF Cons.prems(1), of n] obtain s1 where "add s x = Inr s1" "inv s1" unfolding n by blast
    with Cons False show ?thesis by auto
  qed (simp add: add_err)
qed simp

end

interpretation bms: nat_set bms_set bms_wf None bms_add_member bms_is_member negative_member
proof
  fix s :: "Bitmapset option" and x :: nat
  assume "bms_wf s"
  from bms_add_member_set [of s x] obtain b
    where b: "bms_add_member s (int x) = Inr (Some b)" "bms_set (Some b) = insert x (bms_set s)" by blast
  with bms_wf_member(1) [OF \<open>bms_wf s\<close> b(1)]
  show "\<exists>s'. bms_add_member s (int x) = Inr s' \<and> bms_wf s' \<and> bms_set s' = insert x (bms_set s)" by blast
qed (simp_all add: bms_wf_def bms_is_member_set bms_add_member_def)

section \<open>Properties\<close>

text \<open>C23. The binary operations compute union, intersection and difference of the sets, whatever
  the lengths of the two bitmaps and whether or not one is NULL; the recycling variants
  bms_add_members, bms_join, bms_int_members and bms_del_members agree with them.\<close>

theorem bms_set_algebra:
  "bms_set (bms_union a b) = bms_set a \<union> bms_set b
   \<and> bms_set (bms_add_members a b) = bms_set a \<union> bms_set b
   \<and> bms_set (bms_join a b) = bms_set a \<union> bms_set b
   \<and> bms_set (bms_intersect a b) = bms_set a \<inter> bms_set b
   \<and> bms_set (bms_int_members a b) = bms_set a \<inter> bms_set b
   \<and> bms_set (bms_difference a b) = bms_set a - bms_set b
   \<and> bms_set (bms_del_members a b) = bms_set a - bms_set b"
  by (auto simp: in_bms_set word_at_ops bit_or_iff bit_and_iff bit_not_iff dest: bit64_imp_less)

text \<open>C24. The tests decide the set relations: equality is logical, not physical (trailing zero
  words and NULL do not matter), and bms_subset_compare gives in one pass the answer of two
  subset tests.\<close>

theorem bms_tests_decide:
  "bms_equal a b = (bms_set a = bms_set b)
   \<and> bms_is_empty a = (bms_set a = {})
   \<and> bms_is_subset a b = (bms_set a \<subseteq> bms_set b)
   \<and> bms_overlap a b = (bms_set a \<inter> bms_set b \<noteq> {})
   \<and> bms_nonempty_difference a b = (bms_set a - bms_set b \<noteq> {})
   \<and> bms_subset_compare a b =
       (if bms_set a = bms_set b then BMS_EQUAL else if bms_set a \<subseteq> bms_set b then BMS_SUBSET1
        else if bms_set b \<subseteq> bms_set a then BMS_SUBSET2 else BMS_DIFFERENT)"
  unfolding bms_equal_iff bms_is_empty_iff bms_is_subset_iff bms_overlap_iff bms_nonempty_difference_iff
    bms_subset_compare_eq comparison_def by auto

text \<open>C25. Adding a list of members one by one gives the union with the list's elements and keeps
  the bitmap well-formed, membership tests then answer accordingly, deletion removes exactly the
  given member, and any negative member in the list ends in the error.\<close>

theorem bms_member_operations:
  assumes "bms_wf a"
  shows "(if \<exists>x\<in>set xs. x < 0 then add_all bms_add_member a xs = Inl negative_member
     else \<exists>b. add_all bms_add_member a xs = Inr b \<and> bms_wf b \<and> bms_set b = bms_set a \<union> nat ` set xs
        \<and> bms_is_member (int y) b = Inr (y \<in> bms_set a \<union> nat ` set xs)
        \<and> (\<exists>c. bms_del_member b (int y) = Inr c \<and> bms_wf c \<and> bms_set c = bms_set b - {y}))"
proof (cases "\<exists>x\<in>set xs. x < 0")
  case True
  then show ?thesis using bms.add_all_err [OF assms] by simp
next
  case False
  then obtain b where b: "add_all bms_add_member a xs = Inr b" "bms_wf b" "bms_set b = bms_set a \<union> nat ` set xs"
    using bms.add_all_ok [OF assms] by (meson not_less)
  moreover from bms_del_member_set [of b y] obtain c
    where "bms_del_member b (int y) = Inr c" "bms_set c = bms_set b - {y}" by blast
  moreover from this(1) have "bms_wf c" by (rule bms_wf_member(2) [OF b(2)])
  ultimately show ?thesis using False bms.mem [OF b(2), of y] by auto
qed

theorem bms_member_operations_witness:
  "add_all bms_add_member None [3, 70, -1] = Inl negative_member
   \<and> (\<exists>b. add_all bms_add_member None [3, 70] = Inr b \<and> bms_set b = {3, 70} \<and> bms_is_member 70 b = Inr True)"
  using bms_member_operations [of None "[3, 70, -1]" 70] bms_member_operations [of None "[3, 70]" 70]
  by (auto simp: bms_wf_def insert_commute)

text \<open>C26. bms_add_range adds exactly the members from lower to upper, working on whole words; it
  does nothing for an empty range, even a negative one, and rejects a negative lower bound.\<close>

theorem bms_add_range_adds_range:
  "if upper < lower then bms_add_range a lower upper = Inr a
   else if lower < 0 then bms_add_range a lower upper = Inl negative_member
   else \<exists>b. bms_add_range a lower upper = Inr (Some b) \<and> bms_set (Some b) = bms_set a \<union> {nat lower..nat upper}"
proof -
  have "\<exists>b. bms_add_range a lower upper = Inr (Some b) \<and> bms_set (Some b) = bms_set a \<union> {nat lower..nat upper}"
    if "lower \<le> upper" "0 \<le> lower"
    using that bms_add_range_set [of "nat lower" "nat upper" a] by (simp add: nat_mono)
  then show ?thesis by (simp add: bms_add_range_def)
qed

end
