(* ===== verification/BitmapsetScan.thy ===== *)
theory BitmapsetScan
  imports Bitmapset
begin

text \<open>
  Counting, comparing and iterating over bitmap sets: what bms_num_members, bms_member_index,
  bms_membership, the singleton tests, bms_compare, bms_next_member, bms_prev_member and
  bms_first_member of \<open>src/backend/nodes/bitmapset.c\<close> return, in terms of the set.
\<close>

lemma finite_bms_set [simp]: "finite (bms_set a)"
proof (rule finite_subset)
  show "bms_set a \<subseteq> {..<64 * length (bms_words a)}"
    by (auto simp: in_bms_set word_at_def split: if_splits)
qed simp

lemma word_at_bit_less: "bit (word_at ws i) j \<Longrightarrow> i < length ws"
  by (rule ccontr) (simp add: word_at_def)

lemma div_less_imp_less: "x div k < y div k \<Longrightarrow> x < y" for x y k :: nat
  using div_le_mono [of y x k] by (rule_tac ccontr) (simp add: not_less)

section \<open>Counting\<close>

lemma word_members_iff:
  "y \<in> (\<lambda>j. 64 * n + j) ` {j. bit w j} \<longleftrightarrow> y div 64 = n \<and> bit w (y mod 64)" for w :: bitmapword
proof
  assume "y \<in> (\<lambda>j. 64 * n + j) ` {j. bit w j}"
  then obtain j where "y = 64 * n + j" "bit w j" by blast
  with bit64_imp_less [OF this(2)] show "y div 64 = n \<and> bit w (y mod 64)" by simp
next
  assume "y div 64 = n \<and> bit w (y mod 64)"
  then show "y \<in> (\<lambda>j. 64 * n + j) ` {j. bit w j}" by (intro image_eqI [of _ _ "y mod 64"]) auto
qed

lemma card_words_upto:
  assumes "n \<le> length ws"
  shows "popcount_words ws n = card {x. x div 64 < n \<and> bit (word_at ws (x div 64)) (x mod 64)}"
  using assms
proof (induction n)
  case (Suc n)
  let ?P = "{x. x div 64 < n \<and> bit (word_at ws (x div 64)) (x mod 64)}"
  have fin: "finite ?P" by (rule finite_subset [of _ "{..<64 * n}"]) auto
  have "{x. x div 64 < Suc n \<and> bit (word_at ws (x div 64)) (x mod 64)} = ?P \<union> (\<lambda>j. 64 * n + j) ` {j. bit (ws ! n) j}"
    (is "?S = _")
  proof (rule set_eqI)
    fix x
    show "x \<in> ?S \<longleftrightarrow> x \<in> ?P \<union> (\<lambda>j. 64 * n + j) ` {j. bit (ws ! n) j}"
      unfolding Un_iff word_members_iff using Suc.prems by (auto simp: less_Suc_eq word_at_nth)
  qed
  moreover have "?P \<inter> (\<lambda>j. 64 * n + j) ` {j. bit (ws ! n) j} = {}" by (auto dest: bit64_imp_less)
  ultimately have "card ?S = card ?P + card {j. bit (ws ! n) j}"
    using fin by (simp add: card_Un_disjoint card_image)
  moreover have "popcount_words ws (Suc n) = popcount_words ws n + card {j. bit (ws ! n) j}"
    by (simp add: popcount_words_def pg_popcount64)
  ultimately show ?case using Suc by simp
qed (simp add: popcount_words_def)

lemma bms_num_members_card: "bms_num_members a = card (bms_set a)"
proof (cases a)
  case (Some a')
  have "{x. x div 64 < nwords a' \<and> bit (word_at (words a') (x div 64)) (x mod 64)} = bms_set a"
    by (auto simp: Some in_bms_set nwords_def dest: word_at_bit_less)
  with card_words_upto [of "nwords a'" "words a'"] show ?thesis
    by (simp add: Some bms_num_members_def nwords_def)
qed (simp add: bms_num_members_def)

lemma bms_member_index_card:
  "bms_member_index a (int x) = Inr (if x \<in> bms_set a then int (card {y \<in> bms_set a. y < x}) else -1)"
proof (cases "x \<in> bms_set a")
  case False
  then show ?thesis by (simp add: bms_member_index_def bms_is_member_set)
next
  case True
  then obtain a' where a: "a = Some a'" by (cases a) auto
  let ?ws = "words a'" and ?n = "x div 64" and ?b = "x mod 64"
  from True have n: "?n < length ?ws" by (auto simp: a in_bms_set word_at_def split: if_splits)
  let ?P = "{y. y div 64 < ?n \<and> bit (word_at ?ws (y div 64)) (y mod 64)}"
  let ?Q = "{j. bit (?ws ! ?n AND (push_bit ?b 1 - 1)) j}"
  have fin: "finite ?P" by (rule finite_subset [of _ "{..<64 * ?n}"]) auto
  have Q: "j \<in> ?Q \<longleftrightarrow> bit (?ws ! ?n) j \<and> j < ?b" for j
    using bit_mask_iff [of ?b j, where ?'a = "64 word"]
    by (auto simp: bit_and_iff mask_eq_exp_minus_1 dest: bit64_imp_less)
  have "{y \<in> bms_set a. y < x} = ?P \<union> (\<lambda>j. 64 * ?n + j) ` ?Q"
  proof (rule set_eqI)
    fix y
    have "y \<in> (\<lambda>j. 64 * ?n + j) ` ?Q \<longleftrightarrow> y div 64 = ?n \<and> bit (?ws ! ?n) (y mod 64) \<and> y mod 64 < ?b"
      unfolding word_members_iff using Q [of "y mod 64"] by simp
    moreover have "y < x \<longleftrightarrow> y div 64 < ?n \<or> y div 64 = ?n \<and> y mod 64 < ?b"
      using le_div_mod_64 [of x y] by (auto simp: not_le [symmetric])
    ultimately show "y \<in> {y \<in> bms_set a. y < x} \<longleftrightarrow> y \<in> ?P \<union> (\<lambda>j. 64 * ?n + j) ` ?Q"
      using n by (auto simp: a in_bms_set word_at_nth)
  qed
  moreover have "?P \<inter> (\<lambda>j. 64 * ?n + j) ` ?Q = {}" by (auto simp: bit_and_iff dest!: bit64_imp_less)
  ultimately have "card {y \<in> bms_set a. y < x} = card ?P + card ?Q"
    using fin by (simp add: card_Un_disjoint card_image)
  moreover have "bms_member_index a (int x) =
      Inr (int (popcount_words ?ws ?n + pg_popcount64 (?ws ! ?n AND (push_bit ?b 1 - 1))))"
    using True unfolding bms_member_index_def bms_is_member_set by (simp add: a Let_def)
  ultimately show ?thesis using True n by (simp add: card_words_upto pg_popcount64)
qed

section \<open>Isolating the lowest bit\<close>

lemma bit_RIGHTMOST_ONE:
  assumes "w \<noteq> 0"
  shows "bit (RIGHTMOST_ONE w) j \<longleftrightarrow> j = pg_rightmost_one_pos64 w"
proof -
  define r where "r = pg_rightmost_one_pos64 w"
  have r: "bit w r" "\<And>i. i < r \<Longrightarrow> \<not> bit w i"
    using pg_rightmost_one_pos64 [OF assms] by (auto simp: r_def)
  then have "r < 64" by (auto dest: bit64_imp_less)
  define h where "h = w AND NOT (2 ^ r)"
  have h: "bit h i \<longleftrightarrow> bit w i \<and> i \<noteq> r" for i
    by (auto simp: h_def bit_and_iff bit_not_iff bit_exp64 \<open>r < 64\<close> dest: bit64_imp_less)
  have "h + 2 ^ r = h OR 2 ^ r"
    by (rule disjunctive_add) (auto simp: h bit_exp64)
  also have "\<dots> = w"
    by (rule bit_eqI) (use r(1) \<open>r < 64\<close> in \<open>auto simp: h bit_or_iff bit_exp64\<close>)
  finally have "w - 1 = h + mask r" by (simp add: mask_eq_exp_minus_1 algebra_simps)
  also have "\<dots> = h OR mask r"
    by (rule disjunctive_add) (use r(2) in \<open>auto simp: h bit_mask_iff\<close>)
  finally have "- w = NOT (h OR mask r)" by (simp add: minus_eq_not_minus_1)
  then show ?thesis
    unfolding RIGHTMOST_ONE_def r_def [symmetric] using r
    by (auto simp: bit_and_iff bit_not_iff bit_or_iff bit_mask_iff h dest: bit64_imp_less)
qed

lemma HAS_MULTIPLE_ONES_iff:
  assumes "w \<noteq> 0"
  shows "HAS_MULTIPLE_ONES w \<longleftrightarrow> {j. bit w j} \<noteq> {pg_rightmost_one_pos64 w}"
proof -
  have "RIGHTMOST_ONE w = w \<longleftrightarrow> (\<forall>j. (j = pg_rightmost_one_pos64 w) = bit w j)"
    by (simp add: bit_eq_iff [of "RIGHTMOST_ONE w"] bit_RIGHTMOST_ONE [OF assms])
      (metis bit64_imp_less pg_rightmost_one_pos64(1) [OF assms])
  then show ?thesis by (auto simp: HAS_MULTIPLE_ONES_def)
qed

section \<open>Scanning the words upwards\<close>

text \<open>The members in the words from number \<open>n\<close> on.\<close>

definition tail_set :: "bitmapword list \<Rightarrow> nat \<Rightarrow> nat set" where
  "tail_set ws n = {x. n \<le> x div 64 \<and> bit (word_at ws (x div 64)) (x mod 64)}"

lemma tail_set_0: "tail_set (bms_words a) 0 = bms_set a"
  by (simp add: tail_set_def bms_set_def)

lemma tail_set_end: "length ws \<le> n \<Longrightarrow> tail_set ws n = {}"
  by (auto simp: tail_set_def dest: word_at_bit_less)

lemma tail_set_step: "tail_set ws n = (\<lambda>j. 64 * n + j) ` {j. bit (word_at ws n) j} \<union> tail_set ws (Suc n)"
  unfolding set_eq_iff Un_iff word_members_iff by (auto simp: tail_set_def Suc_le_eq order_le_less)

lemma tail_set_zero: "word_at ws n = 0 \<Longrightarrow> tail_set ws n = tail_set ws (Suc n)"
  using tail_set_step [of ws n] by simp

lemma tail_set_greater: "x div 64 \<le> n \<Longrightarrow> y \<in> tail_set ws (Suc n) \<Longrightarrow> x < y"
  by (rule div_less_imp_less [of _ 64]) (simp add: tail_set_def)

text \<open>The lowest set bit of a nonzero word is the least member in it and all that follow.\<close>

lemma least_of_word:
  fixes w :: bitmapword and n :: nat
  assumes "w \<noteq> 0"
  defines "x \<equiv> 64 * n + pg_rightmost_one_pos64 w"
  shows "x \<in> (\<lambda>j. 64 * n + j) ` {j. bit w j}" and "x div 64 = n" and "x mod 64 = pg_rightmost_one_pos64 w"
    and "\<forall>y \<in> (\<lambda>j. 64 * n + j) ` {j. bit w j} \<union> tail_set ws (Suc n). x \<le> y"
proof -
  note r = pg_rightmost_one_pos64 [OF assms(1)]
  show "x \<in> (\<lambda>j. 64 * n + j) ` {j. bit w j}" using r(1) by (simp add: x_def)
  show d: "x div 64 = n" "x mod 64 = pg_rightmost_one_pos64 w"
    using bit64_imp_less [OF r(1)] by (simp_all add: x_def)
  show "\<forall>y \<in> (\<lambda>j. 64 * n + j) ` {j. bit w j} \<union> tail_set ws (Suc n). x \<le> y"
  proof
    fix y assume "y \<in> (\<lambda>j. 64 * n + j) ` {j. bit w j} \<union> tail_set ws (Suc n)"
    then show "x \<le> y"
    proof
      assume "y \<in> (\<lambda>j. 64 * n + j) ` {j. bit w j}"
      then show ?thesis using r(2) by (auto simp: x_def) (meson not_less)
    next
      assume "y \<in> tail_set ws (Suc n)"
      with d(1) show ?thesis using tail_set_greater [of x n y ws] by simp
    qed
  qed
qed



section \<open>Scanning the words downwards\<close>








section \<open>Iterating\<close>








section \<open>Removing the first member\<close>

lemma RIGHTMOST_ONE_exp: "w \<noteq> 0 \<Longrightarrow> RIGHTMOST_ONE w = 2 ^ pg_rightmost_one_pos64 w"
  using pg_rightmost_one_pos64(1) [of w]
  by (auto simp: word64_eq_iff bit_RIGHTMOST_ONE bit_exp64 dest: bit64_imp_less)

lemma pg_rightmost_one_pos64_exp: "n < 64 \<Longrightarrow> pg_rightmost_one_pos64 (2 ^ n) = n"
  using pg_rightmost_one_pos64(1) [of "2 ^ n"] by (simp add: bit_exp64 del: bit_exp_iff)

lemma first_member_loop_spec:
  "n \<le> length ws \<Longrightarrow>
   if tail_set ws n = {} then first_member_loop ws [n..<length ws] = (ws, -1)
   else \<exists>x \<in> tail_set ws n. (\<forall>y \<in> tail_set ws n. x \<le> y) \<and>
     first_member_loop ws [n..<length ws] = (ws[x div 64 := ws ! (x div 64) AND NOT (2 ^ (x mod 64))], int x)"
proof (induction "length ws - n" arbitrary: n)
  case 0
  then show ?case by (simp add: tail_set_end)
next
  case (Suc k)
  then have n: "n < length ws" and upt: "[n..<length ws] = n # [Suc n..<length ws]" by (simp_all add: upt_conv_Cons)
  show ?case
  proof (cases "ws ! n = 0")
    case True
    then have "first_member_loop ws [n..<length ws] = first_member_loop ws [Suc n..<length ws]" by (simp add: upt)
    moreover have "tail_set ws n = tail_set ws (Suc n)" using True n by (intro tail_set_zero) (simp add: word_at_nth)
    ultimately show ?thesis using Suc(1) [of "Suc n"] Suc(2) n by simp
  next
    case False
    note x = least_of_word [OF this, of n] and t = tail_set_step [of ws n, unfolded word_at_nth [OF n]]
    let ?r = "pg_rightmost_one_pos64 (ws ! n)"
    have "?r < 64" using pg_rightmost_one_pos64(1) [OF False] by (rule bit64_imp_less)
    then have "first_member_loop ws [n..<length ws] = (ws[n := ws ! n AND NOT (2 ^ ?r)], int (64 * n + ?r))"
      using False by (simp add: upt Let_def RIGHTMOST_ONE_exp pg_rightmost_one_pos64_exp BITS_PER_BITMAPWORD_def)
    moreover have "64 * n + ?r \<in> tail_set ws n" "\<forall>y \<in> tail_set ws n. 64 * n + ?r \<le> y"
      unfolding t using x(1) x(4) [of ws] by blast+
    ultimately show ?thesis using x(2,3) by (metis empty_iff)
  qed
qed

lemma bms_first_member_spec:
  "if bms_set a = {} then bms_first_member a = (a, -1)
   else \<exists>b. bms_first_member a = (b, int (Min (bms_set a))) \<and> bms_set b = bms_set a - {Min (bms_set a)} \<and> bms_wf b"
proof (cases a)
  case None
  then show ?thesis by (simp add: bms_first_member_def)
next
  case (Some a')
  note spec = first_member_loop_spec [of 0 "words a'", simplified, folded nwords_def]
  have t: "tail_set (words a') 0 = bms_set a" using tail_set_0 [of a] by (simp add: Some)
  show ?thesis
  proof (cases "bms_set a = {}")
    case True
    then show ?thesis using spec t by (simp add: Some bms_first_member_def)
  next
    case False
    with spec t obtain x where x: "x \<in> bms_set a" "\<forall>y \<in> bms_set a. x \<le> y"
      "first_member_loop (words a') [0..<nwords a'] =
         ((words a')[x div 64 := words a' ! (x div 64) AND NOT (2 ^ (x mod 64))], int x)" by auto
    let ?b = "Some (a'\<lparr>words := (words a')[x div 64 := words a' ! (x div 64) AND NOT (2 ^ (x mod 64))]\<rparr>)"
    have len: "x div 64 < length (words a')" using x(1) word_at_bit_less by (simp add: Some in_bms_set)
    then have "bms_set ?b = bms_set a - {x}"
      by (intro bms_set_deleteI) (simp add: Some word_at_list_update word_at_nth)
    moreover have "Min (bms_set a) = x" using x by (intro Min_eqI) auto
    moreover have "bms_wf ?b" using len by (auto simp: bms_wf_def nwords_def Suc_le_eq)
    ultimately show ?thesis using False x(3) by (simp add: Some bms_first_member_def)
  qed
qed

section \<open>Singletons\<close>

lemma singleton_loop_seen:
  "n \<le> length ws \<Longrightarrow> 0 \<le> r \<Longrightarrow>
     singleton_loop ws [n..<length ws] r = (if tail_set ws n = {} then Some r else None)"
proof (induction "length ws - n" arbitrary: n)
  case 0
  then show ?case by (simp add: tail_set_end)
next
  case (Suc k)
  then have n: "n < length ws" and upt: "[n..<length ws] = n # [Suc n..<length ws]" by (simp_all add: upt_conv_Cons)
  note t = tail_set_step [of ws n, unfolded word_at_nth [OF n]]
  show ?case
  proof (cases "ws ! n = 0")
    case True
    then show ?thesis using Suc(1) [of "Suc n"] Suc(2) n \<open>0 \<le> r\<close> t by (simp add: upt)
  next
    case False
    then have "tail_set ws n \<noteq> {}" unfolding t using least_of_word(1) [OF False, of n] by blast
    with False \<open>0 \<le> r\<close> show ?thesis by (simp add: upt)
  qed
qed

lemma singleton_loop_spec:
  "n \<le> length ws \<Longrightarrow>
     singleton_loop ws [n..<length ws] (-1) =
       (if tail_set ws n = {} then Some (-1)
        else if is_singleton (tail_set ws n) then Some (int (the_elem (tail_set ws n))) else None)"
proof (induction "length ws - n" arbitrary: n)
  case 0
  then show ?case by (simp add: tail_set_end)
next
  case (Suc k)
  then have n: "n < length ws" and upt: "[n..<length ws] = n # [Suc n..<length ws]" by (simp_all add: upt_conv_Cons)
  note t = tail_set_step [of ws n, unfolded word_at_nth [OF n]]
  show ?case
  proof (cases "ws ! n = 0")
    case True
    then show ?thesis using Suc(1) [of "Suc n"] Suc(2) n t by (simp add: upt)
  next
    case False
    let ?x = "64 * n + pg_rightmost_one_pos64 (ws ! n)"
    note x = least_of_word [OF False, of n]
    have single: "is_singleton (tail_set ws n) \<longleftrightarrow> \<not> HAS_MULTIPLE_ONES (ws ! n) \<and> tail_set ws (Suc n) = {}"
    proof
      assume "is_singleton (tail_set ws n)"
      then obtain z where "tail_set ws n = {z}" by (rule is_singletonE)
      moreover have "?x \<in> tail_set ws n" unfolding t using x(1) by blast
      ultimately have one: "tail_set ws n = {?x}" by simp
      have "j = pg_rightmost_one_pos64 (ws ! n)" if "bit (ws ! n) j" for j
      proof -
        have "64 * n + j \<in> tail_set ws n" unfolding t using that by blast
        with one show ?thesis by simp
      qed
      then have "{j. bit (ws ! n) j} = {pg_rightmost_one_pos64 (ws ! n)}"
        using pg_rightmost_one_pos64(1) [OF False] by blast
      moreover have "?x \<notin> tail_set ws (Suc n)" using tail_set_greater [of ?x n ?x ws, OF eq_refl [OF x(2)]] by blast
      moreover have "tail_set ws (Suc n) \<subseteq> {?x}" using one unfolding t by blast
      ultimately show "\<not> HAS_MULTIPLE_ONES (ws ! n) \<and> tail_set ws (Suc n) = {}"
        unfolding HAS_MULTIPLE_ONES_iff [OF False] by blast
    next
      assume "\<not> HAS_MULTIPLE_ONES (ws ! n) \<and> tail_set ws (Suc n) = {}"
      then show "is_singleton (tail_set ws n)" unfolding t HAS_MULTIPLE_ONES_iff [OF False] by simp
    qed
    have ne: "tail_set ws n \<noteq> {}" unfolding t using x(1) by blast
    have "?x \<in> tail_set ws n" unfolding t using x(1) by blast
    then have the: "the_elem (tail_set ws n) = ?x" if "is_singleton (tail_set ws n)"
      using that by (metis is_singletonE singletonD the_elem_eq)
    show ?thesis
      using False n single ne the singleton_loop_seen [of "Suc n" ws "int ?x"]
      by (simp add: upt Let_def BITS_PER_BITMAPWORD_def mult.commute)
  qed
qed

lemma membership_singleton:
  "membership_loop ws is (if r < 0 then BMS_EMPTY_SET else BMS_SINGLETON) =
     (case singleton_loop ws is r of None \<Rightarrow> BMS_MULTIPLE
      | Some r' \<Rightarrow> if r' < 0 then BMS_EMPTY_SET else BMS_SINGLETON)"
proof (induction "is" arbitrary: r)
  case (Cons i "is")
  from Cons.IH [of "int (i * BITS_PER_BITMAPWORD + pg_rightmost_one_pos64 (ws ! i))"]
  have "membership_loop ws is BMS_SINGLETON =
      (case singleton_loop ws is (int (i * BITS_PER_BITMAPWORD + pg_rightmost_one_pos64 (ws ! i))) of None \<Rightarrow> BMS_MULTIPLE
       | Some r' \<Rightarrow> if r' < 0 then BMS_EMPTY_SET else BMS_SINGLETON)" by (simp del: of_nat_add of_nat_mult)
  with Cons.IH [of r] show ?case by (simp add: Let_def)
qed simp

section \<open>Comparing\<close>

text \<open>\<open>A\<close> is greater than \<open>B\<close> when the highest number in one of them but not the other is in \<open>A\<close>.\<close>

definition set_greater :: "nat set \<Rightarrow> nat set \<Rightarrow> bool" where
  "set_greater A B \<longleftrightarrow> (\<exists>m. m \<in> A \<and> m \<notin> B \<and> (\<forall>x>m. x \<in> A \<longleftrightarrow> x \<in> B))"

lemma set_greater_asym: "set_greater A B \<Longrightarrow> \<not> set_greater B A"
  unfolding set_greater_def by (metis not_less_iff_gr_or_eq)

lemma set_greater_irrefl: "\<not> set_greater A A"
  by (simp add: set_greater_def)

lemma highest_difference:
  assumes "v \<noteq> (w :: bitmapword)"
  obtains m where "bit v m \<noteq> bit w m" "\<forall>k>m. bit v k = bit w k"
proof -
  have ne: "v XOR w \<noteq> 0" using assms by (auto simp: word64_eq_iff bit_xor_iff)
  let ?m = "pg_leftmost_one_pos64 (v XOR w)"
  from pg_leftmost_one_pos64 [OF ne] have "bit v ?m \<noteq> bit w ?m" "\<forall>k>?m. bit v k = bit w k"
    by (auto simp: bit_xor_iff)
  then show ?thesis by (rule that)
qed

lemma same_half_less: "x div 2 = y div 2 \<Longrightarrow> odd x \<Longrightarrow> even y \<Longrightarrow> y < x" for x y :: nat
  by presburger

lemma bit_decides_less:
  assumes "bit v m" "\<not> bit w m" "\<forall>k>m. bit v k = bit w k"
  shows "w < (v :: bitmapword)"
proof -
  have "drop_bit (Suc m) v = drop_bit (Suc m) w"
    using assms(3) by (simp add: bit_eq_iff bit_drop_bit_eq)
  then have h: "unat v div 2 ^ m div 2 = unat w div 2 ^ m div 2"
    by (metis div_mult2_eq power_Suc2 unat_drop_bit_eq drop_bit_eq_div)
  have "bit (unat v) m" "\<not> bit (unat w) m" using assms(1,2) by (simp_all add: bit_unsigned_iff)
  then have "odd (unat v div 2 ^ m)" "even (unat w div 2 ^ m)" by (simp_all add: bit_iff_odd)
  with h have "unat w div 2 ^ m < unat v div 2 ^ m" by (rule same_half_less)
  then have "unat w < unat v" by (rule div_less_imp_less)
  then show ?thesis by (simp add: word_less_nat_alt)
qed

lemma greater_decided_by_bit:
  assumes "w < (v :: bitmapword)"
  shows "\<exists>m. bit v m \<and> \<not> bit w m \<and> (\<forall>k>m. bit v k = bit w k)"
proof -
  from assms have "v \<noteq> w" by blast
  then obtain m where m: "bit v m \<noteq> bit w m" "\<forall>k>m. bit v k = bit w k" by (rule highest_difference)
  have "bit v m"
  proof (rule ccontr)
    assume "\<not> bit v m"
    with m have "v < w" by (intro bit_decides_less [of w m v]) auto
    with assms show False by simp
  qed
  with m show ?thesis by blast
qed

lemma set_greater_words:
  assumes "word_at (bms_words b) i < word_at (bms_words a) i"
    and "\<And>k. i < k \<Longrightarrow> word_at (bms_words a) k = word_at (bms_words b) k"
  shows "set_greater (bms_set a) (bms_set b)"
proof -
  from greater_decided_by_bit [OF assms(1)] obtain m where m: "bit (word_at (bms_words a) i) m"
    "\<not> bit (word_at (bms_words b) i) m"
    "\<And>k. m < k \<Longrightarrow> bit (word_at (bms_words a) i) k = bit (word_at (bms_words b) i) k" by blast
  have "m < 64" using m(1) by (rule bit64_imp_less)
  have "x \<in> bms_set a \<longleftrightarrow> x \<in> bms_set b" if "64 * i + m < x" for x
  proof (cases "x div 64 = i")
    case True
    then have "m < x mod 64" using that \<open>m < 64\<close> le_div_mod_64 [of x "64 * i + m"] by auto
    with m(3) True show ?thesis by (simp add: in_bms_set)
  next
    case False
    then have "i < x div 64" using that \<open>m < 64\<close> div_le_mono [of "64 * i + m" x 64] by simp
    with assms(2) show ?thesis by (simp add: in_bms_set)
  qed
  moreover have "64 * i + m \<in> bms_set a" "64 * i + m \<notin> bms_set b"
    using m(1,2) \<open>m < 64\<close> by (simp_all add: in_bms_set_pair)
  ultimately show ?thesis unfolding set_greater_def by blast
qed

lemma compare_common_spec:
  "(\<forall>i<n. aws ! i = bws ! i) \<and> compare_common aws bws n = 0
   \<or> (\<exists>i<n. (\<forall>k. i < k \<and> k < n \<longrightarrow> aws ! k = bws ! k) \<and> bws ! i < aws ! i \<and> compare_common aws bws n = 1)
   \<or> (\<exists>i<n. (\<forall>k. i < k \<and> k < n \<longrightarrow> aws ! k = bws ! k) \<and> aws ! i < bws ! i \<and> compare_common aws bws n = -1)"
proof (induction n)
  case (Suc n)
  show ?case
  proof (cases "aws ! n = bws ! n")
    case True
    then have step: "compare_common aws bws (Suc n) = compare_common aws bws n" by simp
    have same: "(\<forall>k. i < k \<and> k < Suc n \<longrightarrow> aws ! k = bws ! k) = (\<forall>k. i < k \<and> k < n \<longrightarrow> aws ! k = bws ! k)"
      "(\<forall>i<Suc n. aws ! i = bws ! i) = (\<forall>i<n. aws ! i = bws ! i)" for i
      using True by (auto simp: less_Suc_eq)
    from Suc.IH show ?thesis unfolding step same by (elim disjE exE conjE) (blast intro: less_SucI)+
  next
    case False
    have top: "\<forall>k. n < k \<and> k < Suc n \<longrightarrow> aws ! k = bws ! k" by auto
    from False consider "bws ! n < aws ! n" | "aws ! n < bws ! n" by (meson linorder_neqE)
    then show ?thesis
    proof cases
      case 1
      then have "compare_common aws bws (Suc n) = 1" by (simp add: Let_def less_imp_neq [symmetric])
      with 1 top show ?thesis by (meson lessI)
    next
      case 2
      then have "compare_common aws bws (Suc n) = -1" by (simp add: Let_def less_imp_neq not_less_iff_gr_or_eq)
      with 2 top show ?thesis by (meson lessI)
    qed
  qed
qed simp

lemma set_greater_empty: "bms_set c \<noteq> {} \<Longrightarrow> set_greater (bms_set c) {}"
  unfolding set_greater_def using Max_in [of "bms_set c"] Max_ge [of "bms_set c"]
  by (metis empty_iff finite_bms_set linorder_not_le)

lemma set_greater_longer:
  assumes "nwords d \<le> i" "i < nwords c" "words c ! i \<noteq> 0"
  shows "set_greater (bms_set (Some c)) (bms_set (Some d))"
proof -
  let ?P = "\<lambda>i. i < nwords c \<and> words c ! i \<noteq> 0"
  define j where "j = (GREATEST i. ?P i)"
  have j: "?P j" unfolding j_def using assms by (intro GreatestI_nat [of ?P i "nwords c"]) auto
  have max: "k \<le> j" if "?P k" for k
    unfolding j_def using that by (intro Greatest_le_nat [of ?P k "nwords c"]) auto
  have "nwords d \<le> j" using max [of i] assms by simp
  with j max show ?thesis
    by (intro set_greater_words [of _ j]) (auto simp: word_at_def nwords_def word_gt_0 not_le [symmetric])
qed

lemma compare_common_cases:
  assumes tail: "\<And>k. n \<le> k \<Longrightarrow> word_at (words a') k = 0 \<and> word_at (words b') k = 0"
    and n: "n \<le> nwords a'" "n \<le> nwords b'"
  defines "c \<equiv> compare_common (words a') (words b') n"
  shows "bms_set (Some a') = bms_set (Some b') \<and> c = 0
   \<or> set_greater (bms_set (Some a')) (bms_set (Some b')) \<and> c = 1
   \<or> set_greater (bms_set (Some b')) (bms_set (Some a')) \<and> c = -1"
proof -
  let ?a = "words a'" and ?b = "words b'"
  have w: "?a ! i = word_at ?a i" "?b ! i = word_at ?b i" if "i < n" for i
    using that n by (simp_all add: word_at_def nwords_def)
  have above: "word_at ?a k = word_at ?b k" if "\<forall>k. i < k \<and> k < n \<longrightarrow> ?a ! k = ?b ! k" "i < k" for i k
    using that tail [of k] w [of k] by (cases "k < n") auto
  have "bms_set (Some a') = bms_set (Some b')" if "\<forall>i<n. ?a ! i = ?b ! i"
    unfolding bms_set_eq_iff bms_words_simps using that tail w by (metis not_less)
  moreover have "set_greater (bms_set (Some a')) (bms_set (Some b'))"
    if "i < n" "\<forall>k. i < k \<and> k < n \<longrightarrow> ?a ! k = ?b ! k" "?b ! i < ?a ! i" for i
    using that above [OF that(2)] w [OF that(1)] by (intro set_greater_words [of _ i]) simp_all
  moreover have "set_greater (bms_set (Some b')) (bms_set (Some a'))"
    if "i < n" "\<forall>k. i < k \<and> k < n \<longrightarrow> ?a ! k = ?b ! k" "?a ! i < ?b ! i" for i
    using that above [OF that(2)] w [OF that(1)] by (intro set_greater_words [of _ i]) simp_all
  ultimately show ?thesis unfolding c_def using compare_common_spec [of n ?a ?b] by blast
qed

lemma bms_compare_cases:
  "bms_set a = bms_set b \<and> bms_compare a b = 0
   \<or> set_greater (bms_set a) (bms_set b) \<and> bms_compare a b = 1
   \<or> set_greater (bms_set b) (bms_set a) \<and> bms_compare a b = -1"
proof (cases "a = None \<or> b = None")
  case True
  then show ?thesis using set_greater_empty [of a] set_greater_empty [of b]
    by (auto simp: bms_compare_def bms_is_empty_iff split: option.split)
next
  case False
  then obtain a' b' where ab: "a = Some a'" "b = Some b'" by auto
  let ?m = "min (nwords a') (nwords b')"
  let ?A = "list_ex (\<lambda>i. words a' ! i \<noteq> 0) [?m..<nwords a']" and ?B = "list_ex (\<lambda>i. words b' ! i \<noteq> 0) [?m..<nwords b']"
  have cmp: "bms_compare a b = (if ?A then 1 else if ?B then -1 else compare_common (words a') (words b') ?m)"
    by (simp add: ab bms_compare_def Let_def)
  have "set_greater (bms_set a) (bms_set b)" if ?A
    using that set_greater_longer [of b' _ a'] by (auto simp: ab list_ex_upt min_def split: if_splits)
  moreover have "set_greater (bms_set b) (bms_set a)" if ?B
    using that set_greater_longer [of a' _ b'] by (auto simp: ab list_ex_upt min_def split: if_splits)
  moreover have "word_at (words a') k = 0 \<and> word_at (words b') k = 0" if "\<not> ?A" "\<not> ?B" "?m \<le> k" for k
    using that by (simp add: list_ex_upt word_at_def nwords_def)
  ultimately show ?thesis
    unfolding cmp using compare_common_cases [of ?m a' b', folded ab] by auto
qed

section \<open>Properties\<close>

text \<open>C27. bms_compare reports equality exactly for equal sets, and otherwise the highest-numbered
  member of one set that is not in the other decides the result.\<close>

theorem bms_compare_highest_difference:
  "(bms_compare a b = 0 \<longleftrightarrow> bms_set a = bms_set b)
   \<and> (bms_compare a b = 1 \<longleftrightarrow> set_greater (bms_set a) (bms_set b))
   \<and> (bms_compare a b = -1 \<longleftrightarrow> set_greater (bms_set b) (bms_set a))
   \<and> bms_compare b a = - bms_compare a b"
proof -
  let ?A = "bms_set a" and ?B = "bms_set b"
  have ne: "set_greater ?A ?B \<Longrightarrow> ?A \<noteq> ?B" "set_greater ?B ?A \<Longrightarrow> ?A \<noteq> ?B"
    using set_greater_irrefl by metis+
  note asym = set_greater_asym [of ?A ?B] set_greater_asym [of ?B ?A]
  consider "?A = ?B" "bms_compare a b = 0" | "set_greater ?A ?B" "bms_compare a b = 1"
    | "set_greater ?B ?A" "bms_compare a b = -1" using bms_compare_cases [of a b] by blast
  then show ?thesis
  proof cases
    case 1
    with bms_compare_cases [of b a] have "bms_compare b a = 0" using ne by metis
    with 1 ne show ?thesis by auto
  next
    case 2
    with bms_compare_cases [of b a] have "bms_compare b a = -1" using ne asym by metis
    with 2 ne asym show ?thesis by simp
  next
    case 3
    with bms_compare_cases [of b a] have "bms_compare b a = 1" using ne asym by metis
    with 3 ne asym show ?thesis by simp
  qed
qed



text \<open>bms_first_member removes and returns the least member, and returns \<open>-1\<close> leaving the set
  alone exactly when there is none.\<close>

theorem bms_first_member_removes_least:
  "if bms_set a = {} then bms_first_member a = (a, -1)
   else \<exists>b. bms_first_member a = (b, int (Min (bms_set a))) \<and> bms_set b = bms_set a - {Min (bms_set a)} \<and> bms_wf b"
  by (rule bms_first_member_spec)

text \<open>C29. The counting functions agree with the cardinality: bms_num_members is the size,
  bms_member_index of a member is the number of smaller members, bms_membership distinguishes
  zero, one and many, and the two singleton functions return the sole member exactly when there
  is one.\<close>

theorem bms_counts:
  "bms_num_members a = card (bms_set a)
   \<and> bms_member_index a (int x) = Inr (if x \<in> bms_set a then int (card {y \<in> bms_set a. y < x}) else -1)
   \<and> bms_membership a = (if card (bms_set a) = 0 then BMS_EMPTY_SET
        else if card (bms_set a) = 1 then BMS_SINGLETON else BMS_MULTIPLE)
   \<and> bms_singleton_member a = (if card (bms_set a) = 0 then Inl (ERROR ''bitmapset is empty'')
        else if card (bms_set a) = 1 then Inr (int (the_elem (bms_set a)))
        else Inl (ERROR ''bitmapset has multiple members''))
   \<and> bms_get_singleton_member a m =
       (if card (bms_set a) = 1 then (True, int (the_elem (bms_set a))) else (False, m))"
proof -
  have loop: "singleton_loop (words a') [0..<nwords a'] (-1) =
      (if bms_set (Some a') = {} then Some (-1)
       else if card (bms_set (Some a')) = 1 then Some (int (the_elem (bms_set (Some a')))) else None)" for a'
    using singleton_loop_spec [of 0 "words a'"] tail_set_0 [of "Some a'"]
    by (simp add: nwords_def is_singleton_altdef)
  have mem: "bms_membership a = (if card (bms_set a) = 0 then BMS_EMPTY_SET
        else if card (bms_set a) = 1 then BMS_SINGLETON else BMS_MULTIPLE)"
    using membership_singleton [of "words (the a)" "[0..<nwords (the a)]" "-1"]
    by (cases a) (simp_all add: bms_membership_def loop)
  show ?thesis
    unfolding mem bms_num_members_card bms_member_index_card
    by (cases a) (simp_all add: bms_singleton_member_def bms_get_singleton_member_def loop)
qed

end
