(* ===== verification/BinaryHeap.thy ===== *)
theory BinaryHeap
  imports BitmapsetScan
begin

text \<open>
  The array heap of \<open>src/backend/lib/binaryheap.c\<close>.  The array has \<open>bh_space\<close> slots of which the
  first \<open>bh_size\<close> are in use; offsets are naturals, for which \<open>parent_offset 0 = 0\<close> as in C.  The
  comparator is a parameter of the heap, as in the source; the locale \<open>comparator\<close> states what
  binaryheap.h asks of it, bms_compare is one instance, and the locale \<open>max_queue\<close> states what the
  callers (merge append, gather merge, buffer checkpointing) rely on.
\<close>

section \<open>Data and operations\<close>

record ('d, 'arg) binaryheap =
  bh_size :: nat
  bh_space :: nat
  bh_has_heap_property :: bool
  bh_compare :: "'d \<Rightarrow> 'd \<Rightarrow> 'arg \<Rightarrow> int"
  bh_arg :: 'arg
  bh_nodes :: "'d list"

text \<open>\<open>mem\<close> is what palloc left in the array.\<close>

definition binaryheap_allocate :: "nat \<Rightarrow> ('d \<Rightarrow> 'd \<Rightarrow> 'arg \<Rightarrow> int) \<Rightarrow> 'arg \<Rightarrow> 'd list \<Rightarrow> ('d, 'arg) binaryheap" where
  "binaryheap_allocate capacity compare arg mem =
     \<lparr>bh_size = 0, bh_space = capacity, bh_has_heap_property = True, bh_compare = compare, bh_arg = arg,
      bh_nodes = mem\<rparr>"

definition binaryheap_reset :: "('d, 'arg) binaryheap \<Rightarrow> ('d, 'arg) binaryheap" where
  "binaryheap_reset heap = heap\<lparr>bh_size := 0, bh_has_heap_property := True\<rparr>"

definition binaryheap_empty :: "('d, 'arg) binaryheap \<Rightarrow> bool" where
  "binaryheap_empty h \<longleftrightarrow> bh_size h = 0"

definition left_offset :: "nat \<Rightarrow> nat" where
  "left_offset i = 2 * i + 1"

definition right_offset :: "nat \<Rightarrow> nat" where
  "right_offset i = 2 * i + 2"

definition parent_offset :: "nat \<Rightarrow> nat" where
  "parent_offset i = (i - 1) div 2"

definition swap_nodes :: "('d, 'arg) binaryheap \<Rightarrow> nat \<Rightarrow> nat \<Rightarrow> ('d, 'arg) binaryheap" where
  "swap_nodes heap a b =
     heap\<lparr>bh_nodes := (bh_nodes heap)[a := bh_nodes heap ! b, b := bh_nodes heap ! a]\<rparr>"

definition heap_cmp :: "('d, 'arg) binaryheap \<Rightarrow> 'd \<Rightarrow> 'd \<Rightarrow> int" where
  "heap_cmp heap x y = bh_compare heap x y (bh_arg heap)"

function sift_up :: "('d, 'arg) binaryheap \<Rightarrow> nat \<Rightarrow> ('d, 'arg) binaryheap" where
  "sift_up heap node_off =
     (if node_off \<noteq> 0 then
        let parent_off = parent_offset node_off;
            cmp = heap_cmp heap (bh_nodes heap ! node_off) (bh_nodes heap ! parent_off)
        in if cmp \<le> 0 then heap
           else sift_up (swap_nodes heap node_off parent_off) parent_off
      else heap)"
  by pat_completeness auto
termination
  by (relation "measure snd") (auto simp: parent_offset_def)

declare sift_up.simps [simp del]

text \<open>The child that sift_down swaps with, 0 if there is none.\<close>

definition swap_offset :: "('d, 'arg) binaryheap \<Rightarrow> nat \<Rightarrow> nat" where
  "swap_offset heap node_off =
     (let left_off = left_offset node_off;
          right_off = right_offset node_off;
          nodes = bh_nodes heap;
          swap_off = 0;
          swap_off = (if left_off < bh_size heap \<and> heap_cmp heap (nodes ! node_off) (nodes ! left_off) < 0
                      then left_off else swap_off)
      in if right_off < bh_size heap \<and> heap_cmp heap (nodes ! node_off) (nodes ! right_off) < 0
            \<and> (swap_off = 0 \<or> heap_cmp heap (nodes ! left_off) (nodes ! right_off) < 0)
         then right_off else swap_off)"

lemma swap_offset_bounds: "swap_offset h i \<noteq> 0 \<Longrightarrow> i < swap_offset h i \<and> swap_offset h i < bh_size h"
  by (auto simp: swap_offset_def left_offset_def right_offset_def Let_def split: if_splits)

lemma bh_size_swap_nodes [simp]: "bh_size (swap_nodes h a b) = bh_size h"
  by (simp add: swap_nodes_def)

function sift_down :: "('d, 'arg) binaryheap \<Rightarrow> nat \<Rightarrow> ('d, 'arg) binaryheap" where
  "sift_down heap node_off =
     (let swap_off = swap_offset heap node_off
      in if swap_off = 0 then heap
         else sift_down (swap_nodes heap swap_off node_off) swap_off)"
  by pat_completeness auto
termination
proof (relation "measure (\<lambda>(h, i). bh_size h - i)")
  fix h :: "('d, 'arg) binaryheap" and i s
  assume "s = swap_offset h i" "s \<noteq> 0"
  with swap_offset_bounds [of h i]
  show "((swap_nodes h s i, s), h, i) \<in> measure (\<lambda>(h, i). bh_size h - i)"
    by (simp add: diff_less_mono2 less_trans)
qed simp

declare sift_down.simps [simp del]

definition out_of_slots :: pg_error where
  "out_of_slots = ERROR ''out of binary heap slots''"

definition binaryheap_add_unordered :: "('d, 'arg) binaryheap \<Rightarrow> 'd \<Rightarrow> ('d, 'arg) binaryheap result" where
  "binaryheap_add_unordered heap d =
     (if bh_size heap \<ge> bh_space heap then Inl out_of_slots
      else Inr (heap\<lparr>bh_has_heap_property := False,
                     bh_nodes := (bh_nodes heap)[bh_size heap := d],
                     bh_size := bh_size heap + 1\<rparr>))"

text \<open>\<open>for (i = parent_offset(size - 1); i >= 0; i--)\<close>; for an empty heap the C expression is
  \<open>-1\<close> and the loop does nothing.\<close>

definition binaryheap_build :: "('d, 'arg) binaryheap \<Rightarrow> ('d, 'arg) binaryheap" where
  "binaryheap_build heap =
     (let heap = (if bh_size heap = 0 then heap
                  else fold (\<lambda>i heap. sift_down heap i) (rev [0..<parent_offset (bh_size heap - 1) + 1]) heap)
      in heap\<lparr>bh_has_heap_property := True\<rparr>)"

definition binaryheap_add :: "('d, 'arg) binaryheap \<Rightarrow> 'd \<Rightarrow> ('d, 'arg) binaryheap result" where
  "binaryheap_add heap d =
     (if bh_size heap \<ge> bh_space heap then Inl out_of_slots
      else let heap = heap\<lparr>bh_nodes := (bh_nodes heap)[bh_size heap := d], bh_size := bh_size heap + 1\<rparr>
           in Inr (sift_up heap (bh_size heap - 1)))"

definition binaryheap_first :: "('d, 'arg) binaryheap \<Rightarrow> 'd" where
  "binaryheap_first heap = bh_nodes heap ! 0"

definition binaryheap_remove_first :: "('d, 'arg) binaryheap \<Rightarrow> 'd \<times> ('d, 'arg) binaryheap" where
  "binaryheap_remove_first heap =
     (if bh_size heap = 1 then
        let heap = heap\<lparr>bh_size := bh_size heap - 1\<rparr> in (bh_nodes heap ! 0, heap)
      else
        let heap = swap_nodes heap 0 (bh_size heap - 1);
            heap = heap\<lparr>bh_size := bh_size heap - 1\<rparr>;
            heap = sift_down heap 0
        in (bh_nodes heap ! bh_size heap, heap))"

definition binaryheap_replace_first :: "('d, 'arg) binaryheap \<Rightarrow> 'd \<Rightarrow> ('d, 'arg) binaryheap" where
  "binaryheap_replace_first heap d =
     (let heap = heap\<lparr>bh_nodes := (bh_nodes heap)[0 := d]\<rparr>
      in if bh_size heap > 1 then sift_down heap 0 else heap)"

section \<open>Invariant\<close>

text \<open>\<open>heap_from lo\<close> is the heap property below the nodes from \<open>lo\<close> on.\<close>

definition heap_from :: "nat \<Rightarrow> ('d, 'arg) binaryheap \<Rightarrow> bool" where
  "heap_from lo h \<longleftrightarrow> (\<forall>i<bh_size h. 0 < i \<longrightarrow> lo \<le> parent_offset i \<longrightarrow>
     heap_cmp h (bh_nodes h ! i) (bh_nodes h ! parent_offset i) \<le> 0)"

definition heap_shape :: "('d, 'arg) binaryheap \<Rightarrow> bool" where
  "heap_shape h \<longleftrightarrow> bh_size h \<le> bh_space h \<and> length (bh_nodes h) = bh_space h"

definition heap_inv :: "('d, 'arg) binaryheap \<Rightarrow> bool" where
  "heap_inv h \<longleftrightarrow> heap_shape h \<and> heap_from 0 h"

definition heap_mset :: "('d, 'arg) binaryheap \<Rightarrow> 'd multiset" where
  "heap_mset h = mset (take (bh_size h) (bh_nodes h))"

section \<open>What sifting leaves alone\<close>

lemma swap_nodes_simps [simp]:
  "bh_space (swap_nodes h a b) = bh_space h" "bh_has_heap_property (swap_nodes h a b) = bh_has_heap_property h"
  "bh_compare (swap_nodes h a b) = bh_compare h" "bh_arg (swap_nodes h a b) = bh_arg h"
  "length (bh_nodes (swap_nodes h a b)) = length (bh_nodes h)"
  "heap_cmp (swap_nodes h a b) = heap_cmp h" "heap_shape (swap_nodes h a b) = heap_shape h"
  by (simp_all add: swap_nodes_def heap_cmp_def heap_shape_def fun_eq_iff)

lemma nth_swap_nodes:
  assumes "a < length (bh_nodes h)" "b < length (bh_nodes h)"
  shows "bh_nodes (swap_nodes h a b) ! j =
    (if j = b then bh_nodes h ! a else if j = a then bh_nodes h ! b else bh_nodes h ! j)"
  using assms by (simp add: swap_nodes_def nth_list_update)

lemma heap_mset_swap_nodes:
  assumes "heap_shape h" "a < bh_size h" "b < bh_size h"
  shows "heap_mset (swap_nodes h a b) = heap_mset h"
proof -
  let ?t = "take (bh_size h) (bh_nodes h)"
  from assms have "a < length ?t" "b < length ?t" "?t ! a = bh_nodes h ! a" "?t ! b = bh_nodes h ! b"
    by (simp_all add: heap_shape_def)
  with mset_swap [of b ?t a] show ?thesis
    by (simp add: heap_mset_def swap_nodes_def take_update_swap)
qed

definition same_frame :: "('d, 'arg) binaryheap \<Rightarrow> ('d, 'arg) binaryheap \<Rightarrow> bool" where
  "same_frame h h' \<longleftrightarrow> bh_size h' = bh_size h \<and> bh_space h' = bh_space h \<and> bh_compare h' = bh_compare h
     \<and> bh_arg h' = bh_arg h \<and> bh_has_heap_property h' = bh_has_heap_property h
     \<and> heap_shape h' \<and> heap_mset h' = heap_mset h
     \<and> (\<forall>j\<ge>bh_size h. bh_nodes h' ! j = bh_nodes h ! j)"

lemma same_frame_refl: "heap_shape h \<Longrightarrow> same_frame h h"
  by (simp add: same_frame_def)

lemma same_frame_trans: "same_frame h1 h2 \<Longrightarrow> same_frame h2 h3 \<Longrightarrow> same_frame h1 h3"
  by (simp add: same_frame_def)

lemma same_frame_swap:
  "heap_shape h \<Longrightarrow> a < bh_size h \<Longrightarrow> b < bh_size h \<Longrightarrow> same_frame h (swap_nodes h a b)"
  by (auto simp: same_frame_def heap_mset_swap_nodes heap_shape_def nth_swap_nodes)

lemma same_frame_cmp: "same_frame h h' \<Longrightarrow> heap_cmp h' = heap_cmp h"
  by (simp add: same_frame_def heap_cmp_def fun_eq_iff)

lemma sift_down_frame: "heap_shape h \<Longrightarrow> i < bh_size h \<Longrightarrow> same_frame h (sift_down h i)"
proof (induction h i rule: sift_down.induct)
  case (1 h i)
  show ?case
  proof (cases "swap_offset h i = 0")
    case True
    with 1 show ?thesis by (simp add: sift_down.simps [of h i] same_frame_refl)
  next
    case False
    let ?s = "swap_offset h i"
    note b = swap_offset_bounds [OF False]
    with 1 have "same_frame (swap_nodes h ?s i) (sift_down (swap_nodes h ?s i) ?s)" using False by auto
    moreover have "same_frame h (swap_nodes h ?s i)" using b 1 by (intro same_frame_swap) auto
    ultimately show ?thesis using False same_frame_trans by (simp add: sift_down.simps [of h i] Let_def) blast
  qed
qed

lemma parent_offset_less: "0 < i \<Longrightarrow> parent_offset i < i"
  by (auto simp: parent_offset_def)

lemma parent_offset_iff: "0 < c \<Longrightarrow> parent_offset c = i \<longleftrightarrow> c = left_offset i \<or> c = right_offset i"
  by (auto simp: parent_offset_def left_offset_def right_offset_def)

lemma sift_up_frame: "heap_shape h \<Longrightarrow> i < bh_size h \<Longrightarrow> same_frame h (sift_up h i)"
proof (induction h i rule: sift_up.induct)
  case (1 h i)
  let ?p = "parent_offset i"
  show ?case
  proof (cases "i \<noteq> 0 \<and> \<not> heap_cmp h (bh_nodes h ! i) (bh_nodes h ! ?p) \<le> 0")
    case True
    then have "?p < i" by (simp add: parent_offset_less)
    with 1 True have "same_frame (swap_nodes h i ?p) (sift_up (swap_nodes h i ?p) ?p)" by auto
    moreover have "same_frame h (swap_nodes h i ?p)" using \<open>?p < i\<close> 1 by (intro same_frame_swap) auto
    ultimately show ?thesis using True same_frame_trans by (simp add: sift_up.simps [of h i] Let_def) blast
  next
    case False
    with 1 show ?thesis by (auto simp: sift_up.simps [of h i] Let_def same_frame_refl)
  qed
qed

lemma heap_flag_simps:
  "heap_inv (h\<lparr>bh_has_heap_property := b\<rparr>) = heap_inv h" "heap_mset (h\<lparr>bh_has_heap_property := b\<rparr>) = heap_mset h"
  "heap_cmp (h\<lparr>bh_has_heap_property := b\<rparr>) = heap_cmp h"
  by (simp_all add: heap_inv_def heap_shape_def heap_from_def heap_mset_def heap_cmp_def fun_eq_iff)

section \<open>Comparators\<close>

locale comparator =
  fixes cmp :: "'d \<Rightarrow> 'd \<Rightarrow> int"
  assumes sym: "cmp x y \<le> 0 \<longleftrightarrow> 0 \<le> cmp y x"
    and trans: "cmp x y \<le> 0 \<Longrightarrow> cmp y z \<le> 0 \<Longrightarrow> cmp x z \<le> 0"
begin

lemma le_total: "cmp x y \<le> 0 \<or> cmp y x \<le> 0"
  using sym [of y x] by linarith

lemma not_less_le: "\<not> cmp x y < 0 \<Longrightarrow> cmp y x \<le> 0"
  using sym [of y x] by linarith

lemma le_refl: "cmp x x \<le> 0"
  using le_total by blast

text \<open>The child that sift_down picks is the largest one and larger than the node.\<close>

lemma swap_offset_child:
  assumes c: "heap_cmp h = cmp" and s: "swap_offset h i \<noteq> 0"
  defines "s \<equiv> swap_offset h i"
  shows "parent_offset s = i" and "cmp (bh_nodes h ! i) (bh_nodes h ! s) \<le> 0"
    and "\<And>j. j < bh_size h \<Longrightarrow> 0 < j \<Longrightarrow> parent_offset j = i \<Longrightarrow> cmp (bh_nodes h ! j) (bh_nodes h ! s) \<le> 0"
proof -
  have "s = left_offset i \<or> s = right_offset i" using s
    by (auto simp: s_def swap_offset_def Let_def split: if_splits)
  then show "parent_offset s = i" by (auto simp: parent_offset_def left_offset_def right_offset_def)
  show le: "cmp (bh_nodes h ! i) (bh_nodes h ! s) \<le> 0" using s
    by (auto simp: s_def swap_offset_def c Let_def split: if_splits)
  fix j assume j: "j < bh_size h" "0 < j" "parent_offset j = i"
  show "cmp (bh_nodes h ! j) (bh_nodes h ! s) \<le> 0"
  proof (cases "j = s")
    case False
    with j have "cmp (bh_nodes h ! j) (bh_nodes h ! i) \<le> 0 \<or> cmp (bh_nodes h ! j) (bh_nodes h ! s) \<le> 0"
      using s not_less_le unfolding parent_offset_iff [OF j(2)] s_def swap_offset_def c Let_def
      by (auto split: if_splits simp: left_offset_def right_offset_def)
    with trans [OF _ le] show ?thesis by blast
  qed (simp add: le_refl)
qed

lemma swap_offset_none:
  assumes c: "heap_cmp h = cmp" and s: "swap_offset h i = 0"
    and j: "j < bh_size h" "0 < j" "parent_offset j = i"
  shows "cmp (bh_nodes h ! j) (bh_nodes h ! i) \<le> 0"
proof -
  have "\<not> cmp (bh_nodes h ! i) (bh_nodes h ! j) < 0"
    using j(3) s j(1) unfolding parent_offset_iff [OF j(2)] swap_offset_def c Let_def
    by (auto split: if_splits simp: left_offset_def right_offset_def)
  then show ?thesis by (rule not_less_le)
qed

lemma sift_down_heap:
  assumes "heap_cmp h = cmp" "heap_shape h" "i < bh_size h" "lo \<le> i"
    and "\<And>j. j < bh_size h \<Longrightarrow> 0 < j \<Longrightarrow> lo \<le> parent_offset j \<Longrightarrow> parent_offset j \<noteq> i \<Longrightarrow>
      cmp (bh_nodes h ! j) (bh_nodes h ! parent_offset j) \<le> 0"
    and "\<And>j. j < bh_size h \<Longrightarrow> 0 < j \<Longrightarrow> parent_offset j = i \<Longrightarrow> 0 < i \<Longrightarrow> lo \<le> parent_offset i \<Longrightarrow>
      cmp (bh_nodes h ! j) (bh_nodes h ! parent_offset i) \<le> 0"
  shows "heap_from lo (sift_down h i)"
  using assms
proof (induction h i rule: sift_down.induct)
  case (1 h i)
  note c = 1(2) and shape = 1(3) and i = 1(4,5) and others = 1(6) and grand = 1(7)
  show ?case
  proof (cases "swap_offset h i = 0")
    case True
    have "heap_from lo h"
      unfolding heap_from_def c using others swap_offset_none [OF c True] by metis
    with True show ?thesis by (simp add: sift_down.simps [of h i])
  next
    case False
    define s where "s = swap_offset h i"
    note b = swap_offset_bounds [OF False, folded s_def]
    note child = swap_offset_child [OF c False, folded s_def]
    have len: "s < length (bh_nodes h)" "i < length (bh_nodes h)" using b i shape by (auto simp: heap_shape_def)
    note nth = nth_swap_nodes [OF len]
    have "heap_from lo (sift_down (swap_nodes h s i) s)"
    proof (rule 1(1) [OF s_def, unfolded Let_def, folded s_def])
      fix j assume j: "j < bh_size (swap_nodes h s i)" "0 < j" "lo \<le> parent_offset j" "parent_offset j \<noteq> s"
      have pj: "parent_offset j < j" using j(2) by (rule parent_offset_less)
      consider "j = i" | "j = s" | "j \<noteq> i" "j \<noteq> s" "parent_offset j = i" | "j \<noteq> i" "j \<noteq> s" "parent_offset j \<noteq> i" by blast
      then show "cmp (bh_nodes (swap_nodes h s i) ! j) (bh_nodes (swap_nodes h s i) ! parent_offset j) \<le> 0"
      proof cases
        case 1
        with j pj grand [of s] b child(1) show ?thesis by (simp add: nth)
      next
        case 2
        with child b show ?thesis by (simp add: nth)
      next
        case 3
        with child(3) [of j] j show ?thesis by (simp add: nth)
      next
        case 4
        with j others [of j] show ?thesis by (simp add: nth)
      qed
    next
      fix j assume j: "j < bh_size (swap_nodes h s i)" "0 < j" "parent_offset j = s"
      have "s < j" using parent_offset_less [OF j(2)] j(3) by simp
      have "cmp (bh_nodes h ! j) (bh_nodes h ! s) \<le> 0" using others [of j] j b i by auto
      then show "cmp (bh_nodes (swap_nodes h s i) ! j) (bh_nodes (swap_nodes h s i) ! parent_offset s) \<le> 0"
        using \<open>s < j\<close> b child(1) by (simp add: nth)
    qed (use False b i shape c in \<open>auto simp: s_def\<close>)
    with False show ?thesis by (simp add: sift_down.simps [of h i] s_def Let_def)
  qed
qed

lemma sift_up_heap:
  assumes "heap_cmp h = cmp" "heap_shape h" "i < bh_size h"
    and "\<And>j. j < bh_size h \<Longrightarrow> 0 < j \<Longrightarrow> j \<noteq> i \<Longrightarrow> cmp (bh_nodes h ! j) (bh_nodes h ! parent_offset j) \<le> 0"
    and "\<And>j. j < bh_size h \<Longrightarrow> 0 < j \<Longrightarrow> parent_offset j = i \<Longrightarrow> 0 < i \<Longrightarrow>
      cmp (bh_nodes h ! j) (bh_nodes h ! parent_offset i) \<le> 0"
  shows "heap_from 0 (sift_up h i)"
  using assms
proof (induction h i rule: sift_up.induct)
  case (1 h i)
  note c = 1(2) and shape = 1(3) and i = 1(4) and others = 1(5) and grand = 1(6)
  let ?p = "parent_offset i"
  show ?case
  proof (cases "i \<noteq> 0 \<and> \<not> cmp (bh_nodes h ! i) (bh_nodes h ! ?p) \<le> 0")
    case False
    then have "heap_from 0 h" unfolding heap_from_def c using others by (metis not_gr_zero)
    with False c show ?thesis by (auto simp: sift_up.simps [of h i] Let_def)
  next
    case True
    then have p: "?p < i" by (simp add: parent_offset_less)
    have gt: "cmp (bh_nodes h ! ?p) (bh_nodes h ! i) \<le> 0" using True le_total by blast
    have len: "i < length (bh_nodes h)" "?p < length (bh_nodes h)" using i p shape by (auto simp: heap_shape_def)
    note nth = nth_swap_nodes [OF len]
    have "heap_from 0 (sift_up (swap_nodes h i ?p) ?p)"
    proof (rule 1(1) [OF _ refl refl])
      fix j assume j: "j < bh_size (swap_nodes h i ?p)" "0 < j" "j \<noteq> ?p"
      have pj: "parent_offset j < j" using j(2) by (rule parent_offset_less)
      consider "j = i" | "j \<noteq> i" "parent_offset j = i" | "j \<noteq> i" "parent_offset j = ?p"
        | "j \<noteq> i" "parent_offset j \<noteq> i" "parent_offset j \<noteq> ?p" by blast
      then show "cmp (bh_nodes (swap_nodes h i ?p) ! j) (bh_nodes (swap_nodes h i ?p) ! parent_offset j) \<le> 0"
      proof cases
        case 1
        with p gt show ?thesis by (simp add: nth)
      next
        case 2
        with j p grand [of j] show ?thesis by (simp add: nth)
      next
        case 3
        with j p others [of j] trans [OF _ gt] show ?thesis by (simp add: nth)
      next
        case 4
        with j others [of j] show ?thesis by (simp add: nth)
      qed
    next
      fix j assume j: "j < bh_size (swap_nodes h i ?p)" "0 < j" "parent_offset j = ?p" "0 < ?p"
      have pp: "parent_offset ?p < ?p" using j(4) by (rule parent_offset_less)
      have up: "cmp (bh_nodes h ! ?p) (bh_nodes h ! parent_offset ?p) \<le> 0" using others [of ?p] p i j(4) by simp
      have "j \<noteq> ?p" using parent_offset_less [OF j(2)] j(3) by simp
      show "cmp (bh_nodes (swap_nodes h i ?p) ! j) (bh_nodes (swap_nodes h i ?p) ! parent_offset ?p) \<le> 0"
      proof (cases "j = i")
        case True
        with up pp p show ?thesis by (simp add: nth)
      next
        case False
        with others [of j] j have "cmp (bh_nodes h ! j) (bh_nodes h ! ?p) \<le> 0" by simp
        with trans [OF this up] False \<open>j \<noteq> ?p\<close> pp p show ?thesis by (simp add: nth)
      qed
    qed (use True c shape p i in auto)
    with True c show ?thesis by (simp add: sift_up.simps [of h i] Let_def)
  qed
qed

lemma root_is_largest:
  assumes "heap_cmp h = cmp" "heap_from 0 h" "j < bh_size h"
  shows "cmp (bh_nodes h ! j) (bh_nodes h ! 0) \<le> 0"
  using assms(3)
proof (induction j rule: less_induct)
  case (less j)
  show ?case
  proof (cases "j = 0")
    case False
    then have "parent_offset j < j" by (simp add: parent_offset_less)
    moreover have "cmp (bh_nodes h ! j) (bh_nodes h ! parent_offset j) \<le> 0"
      using assms(1,2) less.prems False by (simp add: heap_from_def)
    ultimately show ?thesis using less trans by (meson less_trans)
  qed (simp add: le_refl)
qed

lemma heap_inv_frame: "same_frame h h' \<Longrightarrow> heap_from 0 h' \<Longrightarrow> heap_inv h'"
  by (simp add: same_frame_def heap_inv_def)

lemma sift_down_root:
  assumes "heap_cmp h = cmp" "heap_shape h" "0 < bh_size h"
    and "\<And>j. j < bh_size h \<Longrightarrow> 0 < j \<Longrightarrow> parent_offset j \<noteq> 0 \<Longrightarrow>
      cmp (bh_nodes h ! j) (bh_nodes h ! parent_offset j) \<le> 0"
  shows "same_frame h (sift_down h 0) \<and> heap_inv (sift_down h 0)"
  using assms sift_down_frame [of h 0] sift_down_heap [of h 0 0] heap_inv_frame by blast

lemma build_loop:
  assumes "heap_cmp h = cmp" "heap_shape h" "heap_from k h" "k \<le> bh_size h"
  shows "same_frame h (fold (\<lambda>i h. sift_down h i) (rev [0..<k]) h)
    \<and> heap_from 0 (fold (\<lambda>i h. sift_down h i) (rev [0..<k]) h)"
  using assms
proof (induction k arbitrary: h)
  case 0
  then show ?case by (simp add: same_frame_refl)
next
  case (Suc k)
  have kp: "\<not> k \<le> parent_offset k" if "0 < k" using parent_offset_less [OF that] by simp
  have fr: "same_frame h (sift_down h k)" using Suc.prems by (intro sift_down_frame) auto
  have "heap_from k (sift_down h k)"
  proof (rule sift_down_heap)
    fix j assume "j < bh_size h" "0 < j" "k \<le> parent_offset j" "parent_offset j \<noteq> k"
    with Suc.prems(1,3) show "cmp (bh_nodes h ! j) (bh_nodes h ! parent_offset j) \<le> 0" by (simp add: heap_from_def)
  qed (use Suc.prems kp in auto)
  with Suc.IH [of "sift_down h k"] fr Suc.prems
  have "same_frame (sift_down h k) (fold (\<lambda>i h. sift_down h i) (rev [0..<k]) (sift_down h k))
      \<and> heap_from 0 (fold (\<lambda>i h. sift_down h i) (rev [0..<k]) (sift_down h k))"
    by (simp add: same_frame_def heap_cmp_def fun_eq_iff)
  with fr same_frame_trans show ?case by simp blast
qed

lemma build_heap:
  assumes "heap_cmp h = cmp" "heap_shape h"
  shows "heap_inv (binaryheap_build h) \<and> heap_mset (binaryheap_build h) = heap_mset h
    \<and> heap_cmp (binaryheap_build h) = heap_cmp h \<and> bh_space (binaryheap_build h) = bh_space h"
proof (cases "bh_size h = 0")
  case True
  then show ?thesis using assms
    by (simp add: binaryheap_build_def heap_inv_def heap_from_def heap_shape_def heap_mset_def heap_cmp_def fun_eq_iff)
next
  case False
  let ?k = "parent_offset (bh_size h - 1) + 1"
  have "parent_offset j \<le> parent_offset (bh_size h - 1)" if "j < bh_size h" for j
    unfolding parent_offset_def using that by (intro div_le_mono) simp
  then have "heap_from ?k h" unfolding heap_from_def by (metis Suc_eq_plus1 not_less_eq_eq)
  moreover have "?k \<le> bh_size h" using False by (auto simp: parent_offset_def)
  ultimately have "same_frame h (fold (\<lambda>i h. sift_down h i) (rev [0..<?k]) h)
    \<and> heap_from 0 (fold (\<lambda>i h. sift_down h i) (rev [0..<?k]) h)" by (rule build_loop [OF assms])
  moreover define g where "g = fold (\<lambda>i h. sift_down h i) (rev [0..<?k]) h"
  ultimately have g: "same_frame h g" "heap_from 0 g" by simp_all
  have "binaryheap_build h = g\<lparr>bh_has_heap_property := True\<rparr>" using False by (simp add: binaryheap_build_def g_def Let_def)
  with g heap_inv_frame [OF g] same_frame_cmp [OF g(1)] show ?thesis by (simp add: heap_flag_simps same_frame_def)
qed

lemma add_heap:
  assumes c: "heap_cmp h = cmp" and inv: "heap_inv h" and sp: "bh_size h < bh_space h"
  shows "\<exists>h'. binaryheap_add h d = Inr h' \<and> heap_inv h' \<and> heap_mset h' = add_mset d (heap_mset h)
    \<and> heap_cmp h' = cmp \<and> bh_space h' = bh_space h"
proof -
  let ?n = "bh_size h"
  let ?h = "h\<lparr>bh_nodes := (bh_nodes h)[?n := d], bh_size := ?n + 1\<rparr>"
  have len: "?n < length (bh_nodes h)" using inv sp by (simp add: heap_inv_def heap_shape_def)
  have c': "heap_cmp ?h = cmp" using c by (auto simp: heap_cmp_def fun_eq_iff)
  have shape: "heap_shape ?h" using inv sp by (simp add: heap_inv_def heap_shape_def)
  have fr: "same_frame ?h (sift_up ?h ?n)" using shape by (intro sift_up_frame) simp_all
  have "heap_from 0 (sift_up ?h ?n)"
  proof (rule sift_up_heap [OF c' shape])
    fix j assume "j < bh_size ?h" "0 < j" "j \<noteq> ?n"
    moreover from this have "parent_offset j < ?n" using parent_offset_less [of j] by simp
    ultimately show "cmp (bh_nodes ?h ! j) (bh_nodes ?h ! parent_offset j) \<le> 0"
      using inv c by (simp add: heap_inv_def heap_from_def)
  next
    fix j assume "j < bh_size ?h" "0 < j" "parent_offset j = ?n"
    then show "cmp (bh_nodes ?h ! j) (bh_nodes ?h ! parent_offset ?n) \<le> 0" using parent_offset_less [of j] by simp
  qed simp
  moreover have "heap_mset ?h = add_mset d (heap_mset h)"
    using len by (simp add: heap_mset_def take_Suc_conv_app_nth)
  ultimately show ?thesis using fr c' sp heap_inv_frame [OF fr]
    by (simp add: binaryheap_add_def Let_def same_frame_def heap_cmp_def fun_eq_iff)
qed

lemma remove_heap:
  assumes c: "heap_cmp h = cmp" and inv: "heap_inv h" and ne: "bh_size h \<noteq> 0"
  shows "\<exists>h'. binaryheap_remove_first h = (bh_nodes h ! 0, h') \<and> heap_inv h'
    \<and> heap_mset h = add_mset (bh_nodes h ! 0) (heap_mset h') \<and> heap_cmp h' = cmp \<and> bh_space h' = bh_space h"
proof (cases "bh_size h = 1")
  case True
  then show ?thesis using inv c
    by (cases "bh_nodes h") (auto simp: binaryheap_remove_first_def Let_def heap_inv_def heap_shape_def
        heap_from_def heap_mset_def heap_cmp_def fun_eq_iff)
next
  case False
  define n where "n = bh_size h - 1"
  have sz: "bh_size h = Suc n" and n: "0 < n" using ne False by (simp_all add: n_def)
  have len: "bh_size h \<le> length (bh_nodes h)" using inv by (simp add: heap_inv_def heap_shape_def)
  let ?h1 = "swap_nodes h 0 n"
  let ?h = "?h1\<lparr>bh_size := n\<rparr>"
  have nth: "bh_nodes ?h1 ! j = (if j = n then bh_nodes h ! 0 else if j = 0 then bh_nodes h ! n else bh_nodes h ! j)" for j
    using len n sz by (intro nth_swap_nodes) auto
  have c': "heap_cmp ?h = cmp" using c by (auto simp: heap_cmp_def swap_nodes_def fun_eq_iff)
  have shape: "heap_shape ?h" using inv sz by (auto simp: heap_inv_def heap_shape_def)
  have down: "same_frame ?h (sift_down ?h 0) \<and> heap_inv (sift_down ?h 0)"
  proof (rule sift_down_root [OF c' shape])
    fix j assume j: "j < bh_size ?h" "0 < j" "parent_offset j \<noteq> 0"
    then show "cmp (bh_nodes ?h ! j) (bh_nodes ?h ! parent_offset j) \<le> 0"
      using inv c parent_offset_less [of j] by (simp add: heap_inv_def heap_from_def nth sz)
  qed (use n in simp)
  have "heap_mset h = mset (take (Suc n) (bh_nodes ?h1))"
    using heap_mset_swap_nodes [of h 0 n] inv sz by (simp add: heap_inv_def heap_mset_def)
  also have "\<dots> = add_mset (bh_nodes h ! 0) (heap_mset ?h)"
    using len sz nth [of n] by (simp add: heap_mset_def take_Suc_conv_app_nth)
  finally have "heap_mset h = add_mset (bh_nodes h ! 0) (heap_mset ?h)" .
  moreover have "bh_nodes (sift_down ?h 0) ! n = bh_nodes h ! 0"
    using down nth [of n] by (simp add: same_frame_def)
  ultimately show ?thesis using down c' n sz
    by (simp add: binaryheap_remove_first_def Let_def same_frame_def heap_cmp_def fun_eq_iff)
qed

lemma replace_heap:
  assumes c: "heap_cmp h = cmp" and inv: "heap_inv h" and ne: "bh_size h \<noteq> 0"
  shows "heap_inv (binaryheap_replace_first h d)
    \<and> add_mset (bh_nodes h ! 0) (heap_mset (binaryheap_replace_first h d)) = add_mset d (heap_mset h)
    \<and> heap_cmp (binaryheap_replace_first h d) = cmp \<and> bh_space (binaryheap_replace_first h d) = bh_space h"
proof -
  let ?h = "h\<lparr>bh_nodes := (bh_nodes h)[0 := d]\<rparr>"
  have c': "heap_cmp ?h = cmp" using c by (auto simp: heap_cmp_def fun_eq_iff)
  have shape: "heap_shape ?h" using inv by (auto simp: heap_inv_def heap_shape_def)
  have ms: "add_mset (bh_nodes h ! 0) (heap_mset ?h) = add_mset d (heap_mset h)"
    using inv ne by (cases "bh_nodes h"; cases "bh_size h") (auto simp: heap_mset_def heap_inv_def heap_shape_def)
  have down: "same_frame ?h (sift_down ?h 0) \<and> heap_inv (sift_down ?h 0)"
  proof (rule sift_down_root [OF c' shape])
    fix j assume "j < bh_size ?h" "0 < j" "parent_offset j \<noteq> 0"
    then show "cmp (bh_nodes ?h ! j) (bh_nodes ?h ! parent_offset j) \<le> 0"
      using inv c parent_offset_less [of j] by (simp add: heap_inv_def heap_from_def)
  qed (use ne in simp)
  show ?thesis
  proof (cases "bh_size h > 1")
    case True
    then show ?thesis using down ms c'
      by (simp add: binaryheap_replace_first_def Let_def same_frame_def heap_cmp_def fun_eq_iff)
  next
    case False
    then have "heap_inv ?h" using shape by (auto simp: heap_inv_def heap_from_def)
    with False ms c' show ?thesis by (simp add: binaryheap_replace_first_def Let_def)
  qed
qed

end

section \<open>The queue interface\<close>

locale max_queue =
  fixes le :: "'d \<Rightarrow> 'd \<Rightarrow> bool"
    and inv :: "'h \<Rightarrow> bool"
    and elems :: "'h \<Rightarrow> 'd multiset"
    and cap :: "'h \<Rightarrow> nat"
    and add :: "'h \<Rightarrow> 'd \<Rightarrow> 'h result"
    and first :: "'h \<Rightarrow> 'd"
    and remove :: "'h \<Rightarrow> 'd \<times> 'h"
    and replace :: "'h \<Rightarrow> 'd \<Rightarrow> 'h"
  assumes add_ok: "inv h \<Longrightarrow> size (elems h) < cap h \<Longrightarrow>
      \<exists>h'. add h d = Inr h' \<and> inv h' \<and> elems h' = add_mset d (elems h) \<and> cap h' = cap h"
    and add_full: "inv h \<Longrightarrow> \<not> size (elems h) < cap h \<Longrightarrow> add h d = Inl out_of_slots"
    and first_greatest: "inv h \<Longrightarrow> elems h \<noteq> {#} \<Longrightarrow> first h \<in># elems h \<and> (\<forall>x \<in># elems h. le x (first h))"
    and remove_first: "inv h \<Longrightarrow> elems h \<noteq> {#} \<Longrightarrow>
      \<exists>h'. remove h = (first h, h') \<and> inv h' \<and> elems h = add_mset (first h) (elems h') \<and> cap h' = cap h"
    and replace_first: "inv h \<Longrightarrow> elems h \<noteq> {#} \<Longrightarrow>
      inv (replace h d) \<and> add_mset (first h) (elems (replace h d)) = add_mset d (elems h) \<and> cap (replace h d) = cap h"

text \<open>The elements in the order in which repeated removal returns them.\<close>

primrec drain :: "('h \<Rightarrow> 'd \<times> 'h) \<Rightarrow> nat \<Rightarrow> 'h \<Rightarrow> 'd list" where
  "drain rm 0 h = []"
| "drain rm (Suc n) h = (let (d, h') = rm h in d # drain rm n h')"

context max_queue
begin

lemma drain_sorted:
  "inv h \<Longrightarrow> mset (drain remove (size (elems h)) h) = elems h
     \<and> sorted_wrt (\<lambda>x y. le y x) (drain remove (size (elems h)) h)"
proof (induction "size (elems h)" arbitrary: h)
  case 0
  then show ?case by simp
next
  case (Suc n)
  then have ne: "elems h \<noteq> {#}" by auto
  from remove_first [OF Suc.prems ne] obtain h' where h': "remove h = (first h, h')" "inv h'"
    "elems h = add_mset (first h) (elems h')" by blast
  then have n: "n = size (elems h')" using Suc.hyps(2) by simp
  note IH = Suc.hyps(1) [OF n h'(2)]
  have "le x (first h)" if "x \<in># elems h'" for x
    using first_greatest [OF Suc.prems ne] that h'(3) by simp
  moreover have "set (drain remove (size (elems h')) h') = set_mset (elems h')" using IH by (metis set_mset_mset)
  ultimately show ?case using IH h' Suc.hyps(2) [symmetric] n by simp
qed

end

sublocale comparator \<subseteq> pq: max_queue "\<lambda>x y. cmp x y \<le> 0"
    "\<lambda>h :: ('d, 'arg) binaryheap. heap_inv h \<and> heap_cmp h = cmp" heap_mset bh_space
    binaryheap_add binaryheap_first binaryheap_remove_first binaryheap_replace_first
proof
  fix h :: "('d, 'arg) binaryheap" and d
  assume h: "heap_inv h \<and> heap_cmp h = cmp"
  have size: "size (heap_mset h) = bh_size h" using h by (simp add: heap_mset_def heap_inv_def heap_shape_def)
  show "\<exists>h'. binaryheap_add h d = Inr h' \<and> (heap_inv h' \<and> heap_cmp h' = cmp)
      \<and> heap_mset h' = add_mset d (heap_mset h) \<and> bh_space h' = bh_space h" if "size (heap_mset h) < bh_space h"
    using add_heap [of h d] h that size by auto
  show "binaryheap_add h d = Inl out_of_slots" if "\<not> size (heap_mset h) < bh_space h"
    using that size by (simp add: binaryheap_add_def)
  assume "heap_mset h \<noteq> {#}"
  then have ne: "bh_size h \<noteq> 0" by (auto simp: heap_mset_def)
  have len: "bh_size h \<le> length (bh_nodes h)" using h by (simp add: heap_inv_def heap_shape_def)
  have nth: "\<exists>j<bh_size h. x = bh_nodes h ! j" if "x \<in># heap_mset h" for x
    using that len by (auto simp: heap_mset_def in_set_conv_nth)
  have "bh_nodes h ! 0 \<in># heap_mset h" using ne len
    by (auto simp: heap_mset_def in_set_conv_nth intro!: exI [of _ 0])
  then show "binaryheap_first h \<in># heap_mset h \<and> (\<forall>x\<in>#heap_mset h. cmp x (binaryheap_first h) \<le> 0)"
    using h nth root_is_largest [of h] by (auto simp: binaryheap_first_def heap_inv_def)
  show "\<exists>h'. binaryheap_remove_first h = (binaryheap_first h, h') \<and> (heap_inv h' \<and> heap_cmp h' = cmp)
      \<and> heap_mset h = add_mset (binaryheap_first h) (heap_mset h') \<and> bh_space h' = bh_space h"
    using remove_heap [OF _ _ ne] h by (auto simp: binaryheap_first_def)
  show "(heap_inv (binaryheap_replace_first h d) \<and> heap_cmp (binaryheap_replace_first h d) = cmp)
      \<and> add_mset (binaryheap_first h) (heap_mset (binaryheap_replace_first h d)) = add_mset d (heap_mset h)
      \<and> bh_space (binaryheap_replace_first h d) = bh_space h"
    using replace_heap [OF _ _ ne] h by (auto simp: binaryheap_first_def)
qed

context comparator
begin

lemmas queue_first = pq.first_greatest
lemmas queue_remove = pq.remove_first
lemmas queue_replace = pq.replace_first
lemmas queue_add = pq.add_ok pq.add_full
lemmas queue_drain = pq.drain_sorted

end

section \<open>bms_compare as a comparator\<close>

lemma set_greater_trans: "set_greater A B \<Longrightarrow> set_greater B C \<Longrightarrow> set_greater A C"
proof -
  assume "set_greater A B" "set_greater B C"
  then obtain m n where m: "m \<in> A" "m \<notin> B" "\<And>x. m < x \<Longrightarrow> x \<in> A \<longleftrightarrow> x \<in> B"
    and n: "n \<in> B" "n \<notin> C" "\<And>x. n < x \<Longrightarrow> x \<in> B \<longleftrightarrow> x \<in> C" by (auto simp: set_greater_def)
  have "m \<noteq> n" using m n by blast
  then show "set_greater A C"
    unfolding set_greater_def using m n by (intro exI [of _ "max m n"]) (auto simp: max_def)
qed

lemma bms_compare_le: "bms_compare a b \<le> 0 \<longleftrightarrow> \<not> set_greater (bms_set a) (bms_set b)"
  using bms_compare_cases [of a b] set_greater_asym [of "bms_set b" "bms_set a"] set_greater_irrefl by fastforce

lemma set_greater_linear:
  "bms_set a = bms_set b \<or> set_greater (bms_set a) (bms_set b) \<or> set_greater (bms_set b) (bms_set a)"
  using bms_compare_cases [of a b] by blast

interpretation bmsc: comparator bms_compare
proof
  fix a b c
  show "bms_compare a b \<le> 0 \<longleftrightarrow> 0 \<le> bms_compare b a"
    unfolding bms_compare_le using bms_compare_cases [of b a] set_greater_asym [of "bms_set b" "bms_set a"]
      set_greater_irrefl [of "bms_set a"] by auto
  assume "bms_compare a b \<le> 0" "bms_compare b c \<le> 0"
  then show "bms_compare a c \<le> 0"
    unfolding bms_compare_le using set_greater_linear [of a b] set_greater_linear [of b c]
      set_greater_trans [of "bms_set a" "bms_set c" "bms_set b"] set_greater_trans
      set_greater_asym [of "bms_set a" "bms_set c"] by metis
qed

section \<open>Properties\<close>

text \<open>C30. On a heap that satisfies the invariant, with a comparator as binaryheap.h asks for:
  binaryheap_first returns a greatest element; binaryheap_remove_first returns that element and
  removes exactly it; binaryheap_replace_first exchanges it for the new one; binaryheap_add
  inserts the element, or raises the error if and only if the heap is full.  Every operation
  keeps the invariant.\<close>

theorem binaryheap_operations:
  assumes "comparator (heap_cmp h)" and "heap_inv h"
  shows "(heap_mset h \<noteq> {#} \<longrightarrow>
      (\<forall>x \<in># heap_mset h. heap_cmp h x (binaryheap_first h) \<le> 0)
      \<and> (\<exists>h'. binaryheap_remove_first h = (binaryheap_first h, h') \<and> heap_inv h' \<and> heap_cmp h' = heap_cmp h
           \<and> heap_mset h = add_mset (binaryheap_first h) (heap_mset h'))
      \<and> heap_inv (binaryheap_replace_first h d)
      \<and> add_mset (binaryheap_first h) (heap_mset (binaryheap_replace_first h d)) = add_mset d (heap_mset h))
    \<and> (if size (heap_mset h) < bh_space h
       then \<exists>h'. binaryheap_add h d = Inr h' \<and> heap_inv h' \<and> heap_mset h' = add_mset d (heap_mset h)
       else binaryheap_add h d = Inl out_of_slots)"
proof -
  have h: "heap_inv h \<and> heap_cmp h = heap_cmp h" using assms(2) by simp
  show ?thesis
    using comparator.queue_first [OF assms(1) h] comparator.queue_remove [OF assms(1) h]
      comparator.queue_replace [OF assms(1) h, of d] comparator.queue_add [OF assms(1) h, of d] by auto
qed

text \<open>C31. After any number of unordered additions binaryheap_build establishes the invariant and
  keeps the elements, and removing the elements one after the other then returns them all in
  descending order.\<close>

theorem binaryheap_build_and_drain:
  assumes "comparator (heap_cmp h)" and "heap_shape h"
  shows "heap_inv (binaryheap_build h) \<and> heap_mset (binaryheap_build h) = heap_mset h
    \<and> mset (drain binaryheap_remove_first (size (heap_mset h)) (binaryheap_build h)) = heap_mset h
    \<and> sorted_wrt (\<lambda>x y. heap_cmp h y x \<le> 0)
        (drain binaryheap_remove_first (size (heap_mset h)) (binaryheap_build h))"
proof -
  note b = comparator.build_heap [OF assms(1) refl assms(2)]
  then have "heap_inv (binaryheap_build h) \<and> heap_cmp (binaryheap_build h) = heap_cmp h" by simp
  from comparator.queue_drain [OF assms(1) this] b show ?thesis by simp
qed

definition int_heap :: "int list \<Rightarrow> (int, unit) binaryheap" where
  "int_heap xs = \<lparr>bh_size = length xs, bh_space = length xs, bh_has_heap_property = False,
     bh_compare = (\<lambda>x y _. x - y), bh_arg = (), bh_nodes = xs\<rparr>"

lemma comparator_int_heap: "comparator (heap_cmp (int_heap xs))"
  by unfold_locales (auto simp: heap_cmp_def int_heap_def)

theorem binaryheap_operations_witness:
  "heap_cmp (int_heap [7, 5, 2]) 5 (binaryheap_first (int_heap [7, 5, 2])) \<le> 0
   \<and> binaryheap_add (int_heap [7, 5, 2]) 9 = Inl out_of_slots"
proof -
  have "heap_inv (int_heap [7, 5, 2])"
    by (auto simp: heap_inv_def heap_shape_def heap_from_def int_heap_def heap_cmp_def parent_offset_def
        less_Suc_eq numeral_3_eq_3)
  from binaryheap_operations [OF comparator_int_heap this, of 9] show ?thesis
    by (simp add: int_heap_def heap_mset_def)
qed

theorem binaryheap_build_and_drain_witness:
  "drain binaryheap_remove_first 3 (binaryheap_build (int_heap [2, 7, 5])) = [7, 5, 2]
   \<and> sorted_wrt (\<lambda>x y. heap_cmp (int_heap [2, 7, 5]) y x \<le> 0) [7, 5, 2]"
proof -
  have "heap_shape (int_heap [2, 7, 5])" by (simp add: heap_shape_def int_heap_def)
  note d = binaryheap_build_and_drain [OF comparator_int_heap this]
  have "heap_mset (int_heap [2, 7, 5]) = {#2, 7, 5#}" by (simp add: heap_mset_def int_heap_def)
  moreover have "drain binaryheap_remove_first 3 (binaryheap_build (int_heap [2, 7, 5])) = [7, 5, 2]" by code_simp
  ultimately show ?thesis using d by (simp add: numeral_3_eq_3)
qed

end
