(* ===== verification/Transam.thy ===== *)
theory Transam
  imports Prelude
begin

text \<open>
  Transaction ids: the special values, the macros and inline functions of
  \<open>src/include/access/transam.h\<close> and the comparisons of
  \<open>src/backend/access/transam/transam.c\<close>.  A TransactionId is a 32-bit counter that wraps;
  a FullTransactionId is the 64-bit counter it is the low half of.  The lemmas show that the
  modulo-\<open>2^32\<close> comparisons agree with the 64-bit order as long as the two ids are less than
  \<open>2^31\<close> apart, which is the window the limits of varsup.c keep (theory Varsup).
\<close>

section \<open>Special values and macros\<close>

definition InvalidTransactionId :: TransactionId where
  [xid_defs]: "InvalidTransactionId = 0"

definition BootstrapTransactionId :: TransactionId where
  [xid_defs]: "BootstrapTransactionId = 1"

definition FrozenTransactionId :: TransactionId where
  [xid_defs]: "FrozenTransactionId = 2"

definition FirstNormalTransactionId :: TransactionId where
  [xid_defs]: "FirstNormalTransactionId = 3"

definition MaxTransactionId :: TransactionId where
  [xid_defs]: "MaxTransactionId = 0xFFFFFFFF"

definition TransactionIdIsValid :: "TransactionId \<Rightarrow> bool" where
  [xid_defs]: "TransactionIdIsValid xid \<longleftrightarrow> xid \<noteq> InvalidTransactionId"

definition TransactionIdIsNormal :: "TransactionId \<Rightarrow> bool" where
  [xid_defs]: "TransactionIdIsNormal xid \<longleftrightarrow> FirstNormalTransactionId \<le> xid"

record FullTransactionId =
  fxid_value :: uint64

definition EpochFromFullTransactionId :: "FullTransactionId \<Rightarrow> uint32" where
  "EpochFromFullTransactionId x = ucast (drop_bit 32 (fxid_value x))"

definition XidFromFullTransactionId :: "FullTransactionId \<Rightarrow> TransactionId" where
  "XidFromFullTransactionId x = ucast (fxid_value x)"

definition FullTransactionIdPrecedes :: "FullTransactionId \<Rightarrow> FullTransactionId \<Rightarrow> bool" where
  "FullTransactionIdPrecedes a b \<longleftrightarrow> fxid_value a < fxid_value b"

definition FullTransactionIdFromEpochAndXid :: "uint32 \<Rightarrow> TransactionId \<Rightarrow> FullTransactionId" where
  "FullTransactionIdFromEpochAndXid epoch xid =
     \<lparr>fxid_value = push_bit 32 (ucast epoch) OR ucast xid\<rparr>"

definition TransactionIdAdvance :: "TransactionId \<Rightarrow> TransactionId" where
  "TransactionIdAdvance dest =
     (let dest = dest + 1
      in if dest < FirstNormalTransactionId then FirstNormalTransactionId else dest)"

text \<open>The \<open>while\<close> of FullTransactionIdAdvance, on the 64-bit value.\<close>

function skip_special_xids :: "uint64 \<Rightarrow> uint64" where
  "skip_special_xids v =
     (if (ucast v :: TransactionId) < FirstNormalTransactionId then skip_special_xids (v + 1) else v)"
  by pat_completeness auto
termination
proof (relation "measure (\<lambda>v. 3 - unat (ucast v :: TransactionId))")
  fix v :: uint64
  assume "(ucast v :: TransactionId) < FirstNormalTransactionId"
  then have less: "unat (ucast v :: TransactionId) < 3"
    by (simp add: xid_defs word_less_nat_alt)
  have "(ucast (v + 1) :: TransactionId) = ucast v + 1"
    by (simp add: ucast32_add)
  moreover have "unat (ucast v + 1 :: TransactionId) = unat (ucast v :: TransactionId) + 1"
    using less by (simp add: unat_word_ariths)
  ultimately show "(v + 1, v) \<in> measure (\<lambda>v. 3 - unat (ucast v :: TransactionId))"
    using less by simp
qed simp

declare skip_special_xids.simps [simp del]

definition FullTransactionIdAdvance :: "FullTransactionId \<Rightarrow> FullTransactionId" where
  "FullTransactionIdAdvance dest = dest\<lparr>fxid_value := skip_special_xids (fxid_value dest + 1)\<rparr>"

text \<open>\<open>do { dest--; } while (dest < FirstNormalTransactionId)\<close>.\<close>

function TransactionIdRetreat :: "TransactionId \<Rightarrow> TransactionId" where
  "TransactionIdRetreat dest =
     (if dest - 1 < FirstNormalTransactionId then TransactionIdRetreat (dest - 1) else dest - 1)"
  by pat_completeness auto
termination
proof (relation "measure unat")
  fix dest :: TransactionId
  assume "dest - 1 < FirstNormalTransactionId"
  then have "dest \<noteq> 0" by (auto simp: xid_defs)
  then show "(dest - 1, dest) \<in> measure unat" by (simp add: measure_unat)
qed simp

declare TransactionIdRetreat.simps [simp del]

section \<open>Comparisons (transam.c)\<close>

definition TransactionIdPrecedes :: "TransactionId \<Rightarrow> TransactionId \<Rightarrow> bool" where
  "TransactionIdPrecedes id1 id2 =
     (if \<not> TransactionIdIsNormal id1 \<or> \<not> TransactionIdIsNormal id2 then id1 < id2
      else let diff = sint (id1 - id2) in diff < 0)"

definition TransactionIdPrecedesOrEquals :: "TransactionId \<Rightarrow> TransactionId \<Rightarrow> bool" where
  "TransactionIdPrecedesOrEquals id1 id2 =
     (if \<not> TransactionIdIsNormal id1 \<or> \<not> TransactionIdIsNormal id2 then id1 \<le> id2
      else let diff = sint (id1 - id2) in diff \<le> 0)"

definition TransactionIdFollows :: "TransactionId \<Rightarrow> TransactionId \<Rightarrow> bool" where
  "TransactionIdFollows id1 id2 =
     (if \<not> TransactionIdIsNormal id1 \<or> \<not> TransactionIdIsNormal id2 then id2 < id1
      else let diff = sint (id1 - id2) in 0 < diff)"

definition TransactionIdFollowsOrEquals :: "TransactionId \<Rightarrow> TransactionId \<Rightarrow> bool" where
  "TransactionIdFollowsOrEquals id1 id2 =
     (if \<not> TransactionIdIsNormal id1 \<or> \<not> TransactionIdIsNormal id2 then id2 \<le> id1
      else let diff = sint (id1 - id2) in 0 \<le> diff)"

text \<open>TransactionIdLatest scans its array from the last element to the first.\<close>

definition TransactionIdLatest :: "TransactionId \<Rightarrow> TransactionId list \<Rightarrow> TransactionId" where
  "TransactionIdLatest mainxid xids =
     foldr (\<lambda>x result. if TransactionIdPrecedes result x then x else result) xids mainxid"

section \<open>Agreement with the 64-bit order\<close>

lemma XidFromFullTransactionId_int:
  "XidFromFullTransactionId x = word_of_int (uint (fxid_value x))"
  unfolding XidFromFullTransactionId_def ucast_eq ..

lemma xid_compare_window:
  assumes "TransactionIdIsNormal (word_of_int a)" and "TransactionIdIsNormal (word_of_int b)"
    and "- (2 ^ 31) \<le> a - b" and "a - b < 2 ^ 31"
  shows "TransactionIdPrecedes (word_of_int a) (word_of_int b) \<longleftrightarrow> a < b"
    and "TransactionIdPrecedesOrEquals (word_of_int a) (word_of_int b) \<longleftrightarrow> a \<le> b"
    and "TransactionIdFollows (word_of_int a) (word_of_int b) \<longleftrightarrow> b < a"
    and "TransactionIdFollowsOrEquals (word_of_int a) (word_of_int b) \<longleftrightarrow> b \<le> a"
  unfolding TransactionIdPrecedes_def TransactionIdPrecedesOrEquals_def
    TransactionIdFollows_def TransactionIdFollowsOrEquals_def Let_def
    sint_diff_window [OF assms(3,4)]
  by (simp_all add: assms(1,2) linorder_not_less del: of_int_diff)

text \<open>The xids of the full ids in the half-open window of \<open>2^31\<close> that starts at \<open>f\<close>.\<close>

definition xid_window :: "int \<Rightarrow> TransactionId set" where
  "xid_window f = {x. TransactionIdIsNormal x \<and> (\<exists>a. f \<le> a \<and> a < f + 2 ^ 31 \<and> x = word_of_int a)}"

lemma xid_windowE:
  assumes "x \<in> xid_window f"
  obtains a where "TransactionIdIsNormal x" "f \<le> a" "a < f + 2 ^ 31" "x = word_of_int a"
  using assms by (auto simp: xid_window_def)

lemma xid_window_precedes:
  assumes "x = word_of_int a" "y = word_of_int b" "x \<in> xid_window f" "y \<in> xid_window f"
    "f \<le> a" "a < f + 2 ^ 31" "f \<le> b" "b < f + 2 ^ 31"
  shows "TransactionIdPrecedes x y \<longleftrightarrow> a < b"
proof -
  have "TransactionIdIsNormal (word_of_int a)" "TransactionIdIsNormal (word_of_int b)"
    using assms(3,4) unfolding assms(1,2) by (simp_all only: xid_window_def mem_Collect_eq)
  moreover have "- (2 ^ 31) \<le> a - b" "a - b < 2 ^ 31" using assms(5-8) by linarith+
  ultimately show ?thesis unfolding assms(1,2) by (rule xid_compare_window(1))
qed

interpretation xo: window_order TransactionIdPrecedes "xid_window f" for f
proof
  fix x assume "x \<in> xid_window f"
  then obtain a where "x = word_of_int a" "f \<le> a" "a < f + 2 ^ 31" by (elim xid_windowE)
  with \<open>x \<in> xid_window f\<close> show "\<not> TransactionIdPrecedes x x"
    using xid_window_precedes [of x a x a f] by blast
next
  fix x y z
  assume W: "x \<in> xid_window f" "y \<in> xid_window f" "z \<in> xid_window f"
    and lt: "TransactionIdPrecedes x y" "TransactionIdPrecedes y z"
  from W(1) obtain a where a: "x = word_of_int a" "f \<le> a" "a < f + 2 ^ 31" by (elim xid_windowE)
  from W(2) obtain b where b: "y = word_of_int b" "f \<le> b" "b < f + 2 ^ 31" by (elim xid_windowE)
  from W(3) obtain c where c: "z = word_of_int c" "f \<le> c" "c < f + 2 ^ 31" by (elim xid_windowE)
  from lt have "a < b" "b < c"
    unfolding xid_window_precedes [OF a(1) b(1) W(1,2) a(2,3) b(2,3)]
      xid_window_precedes [OF b(1) c(1) W(2,3) b(2,3) c(2,3)] .
  then show "TransactionIdPrecedes x z"
    unfolding xid_window_precedes [OF a(1) c(1) W(1,3) a(2,3) c(2,3)] by linarith
next
  fix x y
  assume W: "x \<in> xid_window f" "y \<in> xid_window f" and ne: "x \<noteq> y"
  from W(1) obtain a where a: "x = word_of_int a" "f \<le> a" "a < f + 2 ^ 31" by (elim xid_windowE)
  from W(2) obtain b where b: "y = word_of_int b" "f \<le> b" "b < f + 2 ^ 31" by (elim xid_windowE)
  from ne a(1) b(1) have "a \<noteq> b" by blast
  then have "a < b \<or> b < a" by linarith
  then show "TransactionIdPrecedes x y \<or> TransactionIdPrecedes y x"
    unfolding xid_window_precedes [OF a(1) b(1) W a(2,3) b(2,3)]
      xid_window_precedes [OF b(1) a(1) W(2,1) b(2,3) a(2,3)] .
qed

text \<open>C22. For two full transaction ids whose low halves are normal xids and that are less than
  \<open>2^31\<close> apart, the four 32-bit comparisons of transam.c give exactly the order of the 64-bit
  ids, although the 32-bit counters may have wrapped between them.\<close>

theorem TransactionId_comparisons_follow_full_order:
  assumes "TransactionIdIsNormal (XidFromFullTransactionId x)"
    and "TransactionIdIsNormal (XidFromFullTransactionId y)"
    and "\<bar>uint (fxid_value x) - uint (fxid_value y)\<bar> < 2 ^ 31"
  shows "(TransactionIdPrecedes (XidFromFullTransactionId x) (XidFromFullTransactionId y)
            \<longleftrightarrow> FullTransactionIdPrecedes x y)
    \<and> (TransactionIdPrecedesOrEquals (XidFromFullTransactionId x) (XidFromFullTransactionId y)
            \<longleftrightarrow> \<not> FullTransactionIdPrecedes y x)
    \<and> (TransactionIdFollows (XidFromFullTransactionId x) (XidFromFullTransactionId y)
            \<longleftrightarrow> FullTransactionIdPrecedes y x)
    \<and> (TransactionIdFollowsOrEquals (XidFromFullTransactionId x) (XidFromFullTransactionId y)
            \<longleftrightarrow> \<not> FullTransactionIdPrecedes x y)"
proof -
  define a b where "a = uint (fxid_value x)" and "b = uint (fxid_value y)"
  from assms(3) have "- (2 ^ 31) \<le> a - b" "a - b < 2 ^ 31" by (simp_all add: a_def b_def abs_less_iff)
  with assms(1,2) have "TransactionIdIsNormal (word_of_int a)" "TransactionIdIsNormal (word_of_int b)"
    "- (2 ^ 31) \<le> a - b" "a - b < 2 ^ 31"
    by (simp_all add: XidFromFullTransactionId_int a_def b_def del: of_int_uint)
  note cmp = xid_compare_window [OF this]
  show ?thesis
    unfolding XidFromFullTransactionId_int FullTransactionIdPrecedes_def word_less_alt
      a_def [symmetric] b_def [symmetric] cmp by (simp add: linorder_not_less)
qed

theorem TransactionId_comparisons_follow_full_order_witness:
  "TransactionIdPrecedes (XidFromFullTransactionId \<lparr>fxid_value = 0xFFFFFFF0\<rparr>)
     (XidFromFullTransactionId \<lparr>fxid_value = 0x100000005\<rparr>)
   \<and> (XidFromFullTransactionId \<lparr>fxid_value = 0x100000005\<rparr>)
      < XidFromFullTransactionId \<lparr>fxid_value = 0xFFFFFFF0\<rparr>"
  using TransactionId_comparisons_follow_full_order
    [of "\<lparr>fxid_value = 0xFFFFFFF0\<rparr>" "\<lparr>fxid_value = 0x100000005\<rparr>"]
  by (simp add: xid_defs XidFromFullTransactionId_def FullTransactionIdPrecedes_def)

text \<open>TransactionIdLatest returns one of the xids it was given, and none of them follows it,
  provided all of them lie in one window of \<open>2^31\<close> ids.\<close>

theorem TransactionIdLatest_is_latest:
  assumes "mainxid \<in> xid_window f" and "set xids \<subseteq> xid_window f"
  shows "TransactionIdLatest mainxid xids \<in> insert mainxid (set xids)
    \<and> (\<forall>x \<in> insert mainxid (set xids). \<not> TransactionIdPrecedes (TransactionIdLatest mainxid xids) x)"
  unfolding TransactionIdLatest_def by (rule xo.latest_scan [OF assms])

theorem TransactionIdLatest_is_latest_witness:
  "TransactionIdLatest 0xFFFFFFF0 [7, 0xFFFFFFFE] = 7
   \<and> \<not> TransactionIdPrecedes (TransactionIdLatest 0xFFFFFFF0 [7, 0xFFFFFFFE]) 0xFFFFFFF0"
proof -
  have "(0xFFFFFFF0 :: 32 word) = word_of_int 0xFFFFFFF0" "(7 :: 32 word) = word_of_int 0x100000007"
    "(0xFFFFFFFE :: 32 word) = word_of_int 0xFFFFFFFE" by simp_all
  then have "0xFFFFFFF0 \<in> xid_window 0xFFFFFFF0" "set [7, 0xFFFFFFFE] \<subseteq> xid_window 0xFFFFFFF0"
    unfolding xid_window_def by (auto simp: xid_defs intro: exI [of _ "0xFFFFFFF0"]
        exI [of _ "0x100000007"] exI [of _ "0xFFFFFFFE"] simp del: of_int_numeral)
  from TransactionIdLatest_is_latest [OF this]
  have "\<not> TransactionIdPrecedes (TransactionIdLatest 0xFFFFFFF0 [7, 0xFFFFFFFE]) 0xFFFFFFF0" by simp
  moreover have "TransactionIdLatest 0xFFFFFFF0 [7, 0xFFFFFFFE] = 7" by code_simp
  ultimately show ?thesis by blast
qed

end
