(* ===== verification/Slru.thy ===== *)
theory Slru
  imports Transam "HOL-Library.AList"
begin

text \<open>
  The simple LRU buffer pool of \<open>src/backend/access/transam/slru.c\<close>, which keeps pages of pg_xact,
  pg_subtrans and similar logs in shared memory.  The state joins the shared struct and the
  control struct with what they act on: the segment files of the directory, which of them hold
  data not yet fsynced, and how far the WAL is flushed.  The model is that of one backend at a
  time: the control lock is released only around physical I/O and no other backend runs then, so
  an I/O state found on entry is one that a failed operation left behind.  Failures of the
  operating system are part of the state: \<open>io_outcome\<close> lists how the next physical operations end.

  The lemmas show that the pool is transparent: whatever is evicted, written or read in, and
  whichever operation fails, no page that was stored is lost or changed; that eviction comes to
  an end and spares the latest page; that a clean page is on disk and its WAL flushed; and that
  truncation removes the old segments only.
\<close>

section \<open>State\<close>

definition SLRU_PAGES_PER_SEGMENT :: nat where
  "SLRU_PAGES_PER_SEGMENT = 32"

definition MAX_FLUSH_BUFFERS :: nat where
  "MAX_FLUSH_BUFFERS = 16"

datatype SlruPageStatus =
  SLRU_PAGE_EMPTY | SLRU_PAGE_READ_IN_PROGRESS | SLRU_PAGE_VALID | SLRU_PAGE_WRITE_IN_PROGRESS

datatype SlruErrorCause =
  SLRU_OPEN_FAILED | SLRU_SEEK_FAILED | SLRU_READ_FAILED | SLRU_WRITE_FAILED | SLRU_FSYNC_FAILED | SLRU_CLOSE_FAILED

type_synonym slru_page = "nat \<Rightarrow> uint8"

definition zeroes :: slru_page where
  "zeroes = (\<lambda>_. 0)"

text \<open>How a physical operation ends; a failed write may leave anything in its place in the file.\<close>

datatype io_result = IO_ok | IO_failed SlruErrorCause slru_page

record Slru =
  num_slots :: nat
  page_buffer :: "nat \<Rightarrow> slru_page"
  page_status :: "nat \<Rightarrow> SlruPageStatus"
  page_dirty :: "nat \<Rightarrow> bool"
  page_number :: "nat \<Rightarrow> nat"
  page_lru_count :: "nat \<Rightarrow> uint32"
  group_lsn :: "nat \<Rightarrow> XLogRecPtr"
  lsn_groups_per_page :: nat
  cur_lru_count :: uint32
  latest_page_number :: nat
  do_fsync :: bool
  PagePrecedes :: "nat \<Rightarrow> nat \<Rightarrow> bool"
  slru_dir :: "(nat \<times> slru_page list) list"
  unsynced :: "nat \<Rightarrow> bool"
  wal_flushed :: XLogRecPtr
  InRecovery :: bool
  io_outcome :: "io_result list"

definition seg_file :: "Slru \<Rightarrow> nat \<Rightarrow> slru_page list option" where
  "seg_file s segno = map_of (slru_dir s) segno"

definition next_io :: "Slru \<Rightarrow> io_result \<times> Slru" where
  "next_io s = (case io_outcome s of [] \<Rightarrow> (IO_ok, s) | r # rs \<Rightarrow> (r, s\<lparr>io_outcome := rs\<rparr>))"

definition set_status :: "Slru \<Rightarrow> nat \<Rightarrow> SlruPageStatus \<Rightarrow> Slru" where
  "set_status s slotno st = s\<lparr>page_status := (page_status s)(slotno := st)\<rparr>"

definition set_dirty :: "Slru \<Rightarrow> nat \<Rightarrow> bool \<Rightarrow> Slru" where
  "set_dirty s slotno d = s\<lparr>page_dirty := (page_dirty s)(slotno := d)\<rparr>"

definition set_buffer :: "Slru \<Rightarrow> nat \<Rightarrow> slru_page \<Rightarrow> Slru" where
  "set_buffer s slotno b = s\<lparr>page_buffer := (page_buffer s)(slotno := b)\<rparr>"

definition set_number :: "Slru \<Rightarrow> nat \<Rightarrow> nat \<Rightarrow> Slru" where
  "set_number s slotno p = s\<lparr>page_number := (page_number s)(slotno := p)\<rparr>"

lemmas slot_defs = set_status_def set_dirty_def set_buffer_def set_number_def

section \<open>Initialisation and small steps\<close>

text \<open>SimpleLruInit on fresh shared memory, which is zeroed.\<close>

definition SimpleLruInit :: "nat \<Rightarrow> nat \<Rightarrow> (nat \<Rightarrow> nat \<Rightarrow> bool) \<Rightarrow> (nat \<times> slru_page list) list \<Rightarrow> Slru" where
  "SimpleLruInit nslots nlsns precedes dir =
     \<lparr>num_slots = nslots, page_buffer = \<lambda>_. zeroes, page_status = \<lambda>_. SLRU_PAGE_EMPTY, page_dirty = \<lambda>_. False,
      page_number = \<lambda>_. 0, page_lru_count = \<lambda>_. 0, group_lsn = \<lambda>_. 0, lsn_groups_per_page = nlsns,
      cur_lru_count = 0, latest_page_number = 0, do_fsync = True, PagePrecedes = precedes,
      slru_dir = dir, unsynced = \<lambda>_. False, wal_flushed = 0, InRecovery = False, io_outcome = []\<rparr>"

definition SlruRecentlyUsed :: "Slru \<Rightarrow> nat \<Rightarrow> Slru" where
  "SlruRecentlyUsed s slotno =
     (let new_lru_count = cur_lru_count s
      in if new_lru_count \<noteq> page_lru_count s slotno
         then s\<lparr>cur_lru_count := new_lru_count + 1, page_lru_count := (page_lru_count s)(slotno := new_lru_count + 1)\<rparr>
         else s)"

definition SimpleLruZeroLSNs :: "Slru \<Rightarrow> nat \<Rightarrow> Slru" where
  "SimpleLruZeroLSNs s slotno =
     (if lsn_groups_per_page s > 0 then
        s\<lparr>group_lsn := (\<lambda>i. if slotno * lsn_groups_per_page s \<le> i \<and> i < slotno * lsn_groups_per_page s + lsn_groups_per_page s
                            then 0 else group_lsn s i)\<rparr>
      else s)"

text \<open>No other backend holds the buffer lock, so a remaining I/O state is that of a failed I/O.\<close>

definition SimpleLruWaitIO :: "Slru \<Rightarrow> nat \<Rightarrow> Slru" where
  "SimpleLruWaitIO s slotno =
     (if page_status s slotno = SLRU_PAGE_READ_IN_PROGRESS then set_status s slotno SLRU_PAGE_EMPTY
      else if page_status s slotno = SLRU_PAGE_WRITE_IN_PROGRESS
           then set_dirty (set_status s slotno SLRU_PAGE_VALID) slotno True
      else s)"

definition SlruReportIOError :: "SlruErrorCause \<Rightarrow> pg_error" where
  "SlruReportIOError cause =
     (case cause of
        SLRU_OPEN_FAILED \<Rightarrow> ERROR ''Could not open file''
      | SLRU_SEEK_FAILED \<Rightarrow> ERROR ''Could not seek in file''
      | SLRU_READ_FAILED \<Rightarrow> ERROR ''Could not read from file''
      | SLRU_WRITE_FAILED \<Rightarrow> ERROR ''Could not write to file''
      | SLRU_FSYNC_FAILED \<Rightarrow> ERROR ''Could not fsync file''
      | SLRU_CLOSE_FAILED \<Rightarrow> ERROR ''Could not close file'')"

section \<open>Physical I/O\<close>

definition SimpleLruDoesPhysicalPageExist :: "Slru \<Rightarrow> nat \<Rightarrow> bool" where
  "SimpleLruDoesPhysicalPageExist s pageno =
     (let segno = pageno div SLRU_PAGES_PER_SEGMENT; rpageno = pageno mod SLRU_PAGES_PER_SEGMENT
      in case seg_file s segno of None \<Rightarrow> False | Some pages \<Rightarrow> rpageno < length pages)"

definition SlruPhysicalReadPage :: "Slru \<Rightarrow> nat \<Rightarrow> nat \<Rightarrow> Slru \<times> SlruErrorCause option" where
  "SlruPhysicalReadPage s pageno slotno =
     (let segno = pageno div SLRU_PAGES_PER_SEGMENT; rpageno = pageno mod SLRU_PAGES_PER_SEGMENT
      in case next_io s of
           (IO_failed cause torn, s) \<Rightarrow> (set_buffer s slotno torn, Some cause)
         | (IO_ok, s) \<Rightarrow>
             (case seg_file s segno of
                None \<Rightarrow> if \<not> InRecovery s then (s, Some SLRU_OPEN_FAILED) else (set_buffer s slotno zeroes, None)
              | Some pages \<Rightarrow>
                  if rpageno < length pages then (set_buffer s slotno (pages ! rpageno), None)
                  else (s, Some SLRU_READ_FAILED)))"

text \<open>Writing at a position past the end of a file leaves a hole that reads as zeroes.\<close>

definition file_write :: "slru_page list \<Rightarrow> nat \<Rightarrow> slru_page \<Rightarrow> slru_page list" where
  "file_write pages r p =
     (if r < length pages then pages[r := p] else pages @ replicate (r - length pages) zeroes @ [p])"

definition write_to_file :: "Slru \<Rightarrow> nat \<Rightarrow> nat \<Rightarrow> slru_page \<Rightarrow> Slru" where
  "write_to_file s segno r p =
     (let pages = (case seg_file s segno of None \<Rightarrow> [] | Some pages \<Rightarrow> pages)
      in s\<lparr>slru_dir := AList.update segno (file_write pages r p) (slru_dir s), unsynced := (unsynced s)(segno := True)\<rparr>)"

definition max_group_lsn :: "Slru \<Rightarrow> nat \<Rightarrow> XLogRecPtr" where
  "max_group_lsn s slotno =
     fold (\<lambda>lsnoff max_lsn. let this_lsn = group_lsn s (slotno * lsn_groups_per_page s + lsnoff)
                           in if max_lsn < this_lsn then this_lsn else max_lsn)
       [1..<lsn_groups_per_page s] (group_lsn s (slotno * lsn_groups_per_page s))"

definition XLogFlush :: "Slru \<Rightarrow> XLogRecPtr \<Rightarrow> Slru" where
  "XLogFlush s lsn = s\<lparr>wal_flushed := max (wal_flushed s) lsn\<rparr>"

text \<open>\<open>fdata\<close> is the list of segments open during a flush, \<open>None\<close> for a standalone write, which
  fsyncs at once.\<close>

definition SlruPhysicalWritePage :: "Slru \<Rightarrow> nat \<Rightarrow> nat \<Rightarrow> nat list option \<Rightarrow> Slru \<times> nat list option \<times> SlruErrorCause option" where
  "SlruPhysicalWritePage s pageno slotno fdata =
     (let segno = pageno div SLRU_PAGES_PER_SEGMENT; rpageno = pageno mod SLRU_PAGES_PER_SEGMENT;
          s = (if lsn_groups_per_page s > 0 \<and> max_group_lsn s slotno \<noteq> 0 then XLogFlush s (max_group_lsn s slotno) else s);
          (standalone, fdata) =
            (case fdata of
               None \<Rightarrow> (True, None)
             | Some segs \<Rightarrow> if segno \<in> set segs then (False, Some segs)
                            else if length segs < MAX_FLUSH_BUFFERS then (False, Some (segs @ [segno]))
                            else (True, Some segs))
      in case next_io s of
           (IO_failed cause torn, s) \<Rightarrow>
             (if cause = SLRU_OPEN_FAILED then s else write_to_file s segno rpageno torn, fdata, Some cause)
         | (IO_ok, s) \<Rightarrow>
             let s = write_to_file s segno rpageno (page_buffer s slotno);
                 s = (if standalone \<and> do_fsync s then s\<lparr>unsynced := (unsynced s)(segno := False)\<rparr> else s)
             in (s, fdata, None))"

definition SlruInternalWritePage :: "Slru \<Rightarrow> nat \<Rightarrow> nat list option \<Rightarrow> Slru \<times> nat list option result" where
  "SlruInternalWritePage s slotno fdata =
     (let pageno = page_number s slotno;
          s = (if page_status s slotno = SLRU_PAGE_WRITE_IN_PROGRESS then SimpleLruWaitIO s slotno else s)
      in if \<not> page_dirty s slotno \<or> page_status s slotno \<noteq> SLRU_PAGE_VALID \<or> page_number s slotno \<noteq> pageno
         then (s, Inr fdata)
         else
           let s = set_dirty (set_status s slotno SLRU_PAGE_WRITE_IN_PROGRESS) slotno False;
               (s, fdata, failure) = SlruPhysicalWritePage s pageno slotno fdata;
               s = (if failure \<noteq> None then set_dirty s slotno True else s);
               s = set_status s slotno SLRU_PAGE_VALID
           in (s, case failure of Some cause \<Rightarrow> Inl (SlruReportIOError cause) | None \<Rightarrow> Inr fdata))"

definition SimpleLruWritePage :: "Slru \<Rightarrow> nat \<Rightarrow> Slru \<times> unit result" where
  "SimpleLruWritePage s slotno =
     (case SlruInternalWritePage s slotno None of (s, Inl e) \<Rightarrow> (s, Inl e) | (s, Inr _) \<Rightarrow> (s, Inr ()))"

section \<open>Choosing a slot\<close>

definition find_slot :: "Slru \<Rightarrow> nat \<Rightarrow> nat option" where
  "find_slot s pageno =
     List.find (\<lambda>slotno. page_number s slotno = pageno \<and> page_status s slotno \<noteq> SLRU_PAGE_EMPTY) [0..<num_slots s]"

record victim =
  bestvalidslot :: nat
  best_valid_delta :: int
  best_valid_page_number :: nat
  bestinvalidslot :: nat
  best_invalid_delta :: int
  best_invalid_page_number :: nat

definition no_victim :: victim where
  "no_victim = \<lparr>bestvalidslot = 0, best_valid_delta = -1, best_valid_page_number = 0,
     bestinvalidslot = 0, best_invalid_delta = -1, best_invalid_page_number = 0\<rparr>"

text \<open>One slot of the scan for a victim: the page is neither empty nor the latest.\<close>

definition consider_victim :: "Slru \<Rightarrow> nat \<Rightarrow> int \<Rightarrow> victim \<Rightarrow> victim" where
  "consider_victim s slotno this_delta v =
     (let this_page_number = page_number s slotno
      in if page_status s slotno = SLRU_PAGE_VALID then
           if this_delta > best_valid_delta v
              \<or> this_delta = best_valid_delta v \<and> PagePrecedes s this_page_number (best_valid_page_number v)
           then v\<lparr>bestvalidslot := slotno, best_valid_delta := this_delta, best_valid_page_number := this_page_number\<rparr>
           else v
         else
           if this_delta > best_invalid_delta v
              \<or> this_delta = best_invalid_delta v \<and> PagePrecedes s this_page_number (best_invalid_page_number v)
           then v\<lparr>bestinvalidslot := slotno, best_invalid_delta := this_delta, best_invalid_page_number := this_page_number\<rparr>
           else v)"

text \<open>The scan ends early, with \<open>Inl\<close>, at an empty slot.\<close>

primrec victim_scan :: "uint32 \<Rightarrow> nat list \<Rightarrow> Slru \<Rightarrow> victim \<Rightarrow> Slru \<times> (nat + victim)" where
  "victim_scan cur_count [] s v = (s, Inr v)"
| "victim_scan cur_count (slotno # slots) s v =
     (if page_status s slotno = SLRU_PAGE_EMPTY then (s, Inl slotno)
      else
        let this_delta = sint (cur_count - page_lru_count s slotno);
            s = (if this_delta < 0 then s\<lparr>page_lru_count := (page_lru_count s)(slotno := cur_count)\<rparr> else s);
            this_delta = (if this_delta < 0 then 0 else this_delta)
        in victim_scan cur_count slots s
             (if page_number s slotno = latest_page_number s then v else consider_victim s slotno this_delta v))"

text \<open>\<open>None\<close> would be a loop that never ends.\<close>

partial_function (option) SlruSelectLRUPage :: "Slru \<Rightarrow> nat \<Rightarrow> (Slru \<times> nat result) option" where
  "SlruSelectLRUPage s pageno =
     (case find_slot s pageno of
        Some slotno \<Rightarrow> Some (s, Inr slotno)
      | None \<Rightarrow>
          let cur_count = cur_lru_count s
          in (case victim_scan cur_count [0..<num_slots s] (s\<lparr>cur_lru_count := cur_count + 1\<rparr>) no_victim of
                (s, Inl slotno) \<Rightarrow> Some (s, Inr slotno)
              | (s, Inr v) \<Rightarrow>
                  if best_valid_delta v < 0 then SlruSelectLRUPage (SimpleLruWaitIO s (bestinvalidslot v)) pageno
                  else if \<not> page_dirty s (bestvalidslot v) then Some (s, Inr (bestvalidslot v))
                  else (case SlruInternalWritePage s (bestvalidslot v) None of
                          (s, Inl e) \<Rightarrow> Some (s, Inl e)
                        | (s, Inr _) \<Rightarrow> SlruSelectLRUPage s pageno)))"

section \<open>Operations\<close>

definition SimpleLruZeroPage :: "Slru \<Rightarrow> nat \<Rightarrow> (Slru \<times> nat result) option" where
  "SimpleLruZeroPage s pageno =
     (case SlruSelectLRUPage s pageno of
        None \<Rightarrow> None
      | Some (s, Inl e) \<Rightarrow> Some (s, Inl e)
      | Some (s, Inr slotno) \<Rightarrow>
          let s = set_number s slotno pageno;
              s = set_status s slotno SLRU_PAGE_VALID;
              s = set_dirty s slotno True;
              s = SlruRecentlyUsed s slotno;
              s = set_buffer s slotno zeroes;
              s = SimpleLruZeroLSNs s slotno;
              s = s\<lparr>latest_page_number := pageno\<rparr>
          in Some (s, Inr slotno))"

text \<open>The part of SimpleLruReadPage that reads the page into the slot chosen for it.\<close>

definition read_into :: "Slru \<Rightarrow> nat \<Rightarrow> nat \<Rightarrow> Slru \<times> nat result" where
  "read_into s slotno pageno =
     (let s = set_number s slotno pageno;
          s = set_status s slotno SLRU_PAGE_READ_IN_PROGRESS;
          s = set_dirty s slotno False;
          (s, failure) = SlruPhysicalReadPage s pageno slotno;
          s = SimpleLruZeroLSNs s slotno;
          s = set_status s slotno (if failure = None then SLRU_PAGE_VALID else SLRU_PAGE_EMPTY)
      in case failure of
           Some cause \<Rightarrow> (s, Inl (SlruReportIOError cause))
         | None \<Rightarrow> (SlruRecentlyUsed s slotno, Inr slotno))"

partial_function (option) SimpleLruReadPage :: "Slru \<Rightarrow> nat \<Rightarrow> bool \<Rightarrow> (Slru \<times> nat result) option" where
  "SimpleLruReadPage s pageno write_ok =
     (case SlruSelectLRUPage s pageno of
        None \<Rightarrow> None
      | Some (s, Inl e) \<Rightarrow> Some (s, Inl e)
      | Some (s, Inr slotno) \<Rightarrow>
          if page_number s slotno = pageno \<and> page_status s slotno \<noteq> SLRU_PAGE_EMPTY then
            if page_status s slotno = SLRU_PAGE_READ_IN_PROGRESS
               \<or> page_status s slotno = SLRU_PAGE_WRITE_IN_PROGRESS \<and> \<not> write_ok
            then SimpleLruReadPage (SimpleLruWaitIO s slotno) pageno write_ok
            else Some (SlruRecentlyUsed s slotno, Inr slotno)
          else Some (read_into s slotno pageno))"

definition SimpleLruReadPage_ReadOnly :: "Slru \<Rightarrow> nat \<Rightarrow> (Slru \<times> nat result) option" where
  "SimpleLruReadPage_ReadOnly s pageno =
     (case List.find (\<lambda>slotno. page_number s slotno = pageno \<and> page_status s slotno \<noteq> SLRU_PAGE_EMPTY
                             \<and> page_status s slotno \<noteq> SLRU_PAGE_READ_IN_PROGRESS) [0..<num_slots s] of
        Some slotno \<Rightarrow> Some (SlruRecentlyUsed s slotno, Inr slotno)
      | None \<Rightarrow> SimpleLruReadPage s pageno True)"

text \<open>SimpleLruFlush: write every slot, then fsync the files that were kept open.\<close>

primrec flush_slots :: "nat list \<Rightarrow> Slru \<Rightarrow> nat list option \<Rightarrow> Slru \<times> nat list option result" where
  "flush_slots [] s fdata = (s, Inr fdata)"
| "flush_slots (slotno # slots) s fdata =
     (case SlruInternalWritePage s slotno fdata of
        (s, Inl e) \<Rightarrow> (s, Inl e)
      | (s, Inr fdata) \<Rightarrow> flush_slots slots s fdata)"

primrec sync_files :: "nat list \<Rightarrow> Slru \<Rightarrow> SlruErrorCause option \<Rightarrow> Slru \<times> SlruErrorCause option" where
  "sync_files [] s failure = (s, failure)"
| "sync_files (segno # segs) s failure =
     (case next_io s of
        (IO_failed cause torn, s) \<Rightarrow> sync_files segs s (Some cause)
      | (IO_ok, s) \<Rightarrow>
          sync_files segs (if do_fsync s then s\<lparr>unsynced := (unsynced s)(segno := False)\<rparr> else s) failure)"

definition SimpleLruFlush :: "Slru \<Rightarrow> Slru \<times> unit result" where
  "SimpleLruFlush s =
     (case flush_slots [0..<num_slots s] s (Some []) of
        (s, Inl e) \<Rightarrow> (s, Inl e)
      | (s, Inr fdata) \<Rightarrow>
          (case sync_files (case fdata of Some segs \<Rightarrow> segs | None \<Rightarrow> []) s None of
             (s, Some cause) \<Rightarrow> (s, Inl (SlruReportIOError cause))
           | (s, None) \<Rightarrow> (s, Inr ())))"

section \<open>Segments and truncation\<close>

text \<open>The callback gets the number of the segment; its first page is \<open>segno * SLRU_PAGES_PER_SEGMENT\<close>.\<close>

primrec SlruScanDirectory :: "(Slru \<Rightarrow> nat \<Rightarrow> Slru \<times> bool) \<Rightarrow> Slru \<Rightarrow> nat list \<Rightarrow> Slru \<times> bool" where
  "SlruScanDirectory callback s [] = (s, False)"
| "SlruScanDirectory callback s (segno # segs) =
     (case callback s segno of
        (s, retval) \<Rightarrow> if retval then (s, True) else SlruScanDirectory callback s segs)"

definition SlruInternalDeleteSegment :: "Slru \<Rightarrow> nat \<Rightarrow> Slru" where
  "SlruInternalDeleteSegment s segno = s\<lparr>slru_dir := AList.delete segno (slru_dir s)\<rparr>"

definition SlruScanDirCbReportPresence :: "nat \<Rightarrow> Slru \<Rightarrow> nat \<Rightarrow> Slru \<times> bool" where
  "SlruScanDirCbReportPresence cutoffPage s segno =
     (let cutoffPage = cutoffPage - cutoffPage mod SLRU_PAGES_PER_SEGMENT
      in (s, PagePrecedes s (segno * SLRU_PAGES_PER_SEGMENT) cutoffPage))"

definition SlruScanDirCbDeleteCutoff :: "nat \<Rightarrow> Slru \<Rightarrow> nat \<Rightarrow> Slru \<times> bool" where
  "SlruScanDirCbDeleteCutoff cutoffPage s segno =
     (if PagePrecedes s (segno * SLRU_PAGES_PER_SEGMENT) cutoffPage then SlruInternalDeleteSegment s segno else s, False)"

definition SlruScanDirCbDeleteAll :: "Slru \<Rightarrow> nat \<Rightarrow> Slru \<times> bool" where
  "SlruScanDirCbDeleteAll s segno = (SlruInternalDeleteSegment s segno, False)"

text \<open>The loop of SimpleLruTruncate; \<open>Inr False\<close> asks for a restart.\<close>

primrec truncate_scan :: "nat \<Rightarrow> nat list \<Rightarrow> Slru \<Rightarrow> Slru \<times> bool result" where
  "truncate_scan cutoffPage [] s = (s, Inr True)"
| "truncate_scan cutoffPage (slotno # slots) s =
     (if page_status s slotno = SLRU_PAGE_EMPTY \<or> \<not> PagePrecedes s (page_number s slotno) cutoffPage
      then truncate_scan cutoffPage slots s
      else if page_status s slotno = SLRU_PAGE_VALID \<and> \<not> page_dirty s slotno
      then truncate_scan cutoffPage slots (set_status s slotno SLRU_PAGE_EMPTY)
      else if page_status s slotno = SLRU_PAGE_VALID
      then (case SlruInternalWritePage s slotno None of (s, Inl e) \<Rightarrow> (s, Inl e) | (s, Inr _) \<Rightarrow> (s, Inr False))
      else (SimpleLruWaitIO s slotno, Inr False))"

partial_function (option) truncate_loop :: "Slru \<Rightarrow> nat \<Rightarrow> (Slru \<times> bool result) option" where
  "truncate_loop s cutoffPage =
     (if PagePrecedes s (latest_page_number s) cutoffPage then Some (s, Inr False)
      else case truncate_scan cutoffPage [0..<num_slots s] s of
             (s, Inl e) \<Rightarrow> Some (s, Inl e)
           | (s, Inr done') \<Rightarrow> if done' then Some (s, Inr True) else truncate_loop s cutoffPage)"

text \<open>\<open>Inr False\<close> is the apparent wraparound, in which nothing is removed.\<close>

definition SimpleLruTruncate :: "Slru \<Rightarrow> nat \<Rightarrow> (Slru \<times> bool result) option" where
  "SimpleLruTruncate s cutoffPage =
     (let cutoffPage = cutoffPage - cutoffPage mod SLRU_PAGES_PER_SEGMENT
      in case truncate_loop s cutoffPage of
           None \<Rightarrow> None
         | Some (s, Inl e) \<Rightarrow> Some (s, Inl e)
         | Some (s, Inr False) \<Rightarrow> Some (s, Inr False)
         | Some (s, Inr True) \<Rightarrow>
             Some (fst (SlruScanDirectory (SlruScanDirCbDeleteCutoff cutoffPage) s (map fst (slru_dir s))), Inr True))"

text \<open>The loop of SlruDeleteSegment; the last component is \<open>did_write\<close>.\<close>

primrec delete_scan :: "nat \<Rightarrow> nat list \<Rightarrow> Slru \<Rightarrow> bool \<Rightarrow> Slru \<times> bool result" where
  "delete_scan segno [] s did_write = (s, Inr did_write)"
| "delete_scan segno (slotno # slots) s did_write =
     (if page_status s slotno = SLRU_PAGE_EMPTY \<or> page_number s slotno div SLRU_PAGES_PER_SEGMENT \<noteq> segno
      then delete_scan segno slots s did_write
      else if page_status s slotno = SLRU_PAGE_VALID \<and> \<not> page_dirty s slotno
      then delete_scan segno slots (set_status s slotno SLRU_PAGE_EMPTY) did_write
      else if page_status s slotno = SLRU_PAGE_VALID
      then (case SlruInternalWritePage s slotno None of
              (s, Inl e) \<Rightarrow> (s, Inl e)
            | (s, Inr _) \<Rightarrow> delete_scan segno slots s True)
      else delete_scan segno slots (SimpleLruWaitIO s slotno) True)"

partial_function (option) SlruDeleteSegment :: "Slru \<Rightarrow> nat \<Rightarrow> (Slru \<times> unit result) option" where
  "SlruDeleteSegment s segno =
     (case delete_scan segno [0..<num_slots s] s False of
        (s, Inl e) \<Rightarrow> Some (s, Inl e)
      | (s, Inr did_write) \<Rightarrow>
          if did_write then SlruDeleteSegment s segno
          else Some (SlruInternalDeleteSegment s segno, Inr ()))"

section \<open>Specification\<close>

text \<open>The page in the files, the page as a reader gets it, and the invariant of the pool: no two
  slots in use hold the same page, and a clean page is on disk with its WAL flushed.\<close>

definition file_page :: "Slru \<Rightarrow> nat \<Rightarrow> slru_page option" where
  "file_page s p =
     (case seg_file s (p div SLRU_PAGES_PER_SEGMENT) of
        None \<Rightarrow> None
      | Some pages \<Rightarrow> if p mod SLRU_PAGES_PER_SEGMENT < length pages then Some (pages ! (p mod SLRU_PAGES_PER_SEGMENT)) else None)"

definition holds_page :: "Slru \<Rightarrow> nat \<Rightarrow> bool" where
  "holds_page s i \<longleftrightarrow> page_status s i \<noteq> SLRU_PAGE_EMPTY \<and> page_status s i \<noteq> SLRU_PAGE_READ_IN_PROGRESS"

definition holder :: "Slru \<Rightarrow> nat \<Rightarrow> nat option" where
  "holder s p = List.find (\<lambda>i. page_number s i = p \<and> holds_page s i) [0..<num_slots s]"

definition stored :: "Slru \<Rightarrow> nat \<Rightarrow> slru_page option" where
  "stored s p = (case holder s p of Some i \<Rightarrow> Some (page_buffer s i) | None \<Rightarrow> file_page s p)"

definition distinct_pages :: "Slru \<Rightarrow> bool" where
  "distinct_pages s \<longleftrightarrow>
     (\<forall>i < num_slots s. \<forall>j < num_slots s.
        page_status s i \<noteq> SLRU_PAGE_EMPTY \<and> page_status s j \<noteq> SLRU_PAGE_EMPTY \<and> page_number s i = page_number s j \<longrightarrow> i = j)"

definition lsns_flushed :: "Slru \<Rightarrow> nat \<Rightarrow> bool" where
  "lsns_flushed s i \<longleftrightarrow> (\<forall>g < lsn_groups_per_page s. group_lsn s (i * lsn_groups_per_page s + g) \<le> wal_flushed s)"

definition slot_ok :: "Slru \<Rightarrow> nat \<Rightarrow> bool" where
  "slot_ok s i \<longleftrightarrow> (page_dirty s i \<longrightarrow> holds_page s i)
     \<and> (page_status s i = SLRU_PAGE_VALID \<and> \<not> page_dirty s i
          \<longrightarrow> file_page s (page_number s i) = Some (page_buffer s i) \<and> lsns_flushed s i)"

definition slru_inv :: "Slru \<Rightarrow> bool" where
  "slru_inv s \<longleftrightarrow> 2 \<le> num_slots s \<and> \<not> InRecovery s \<and> distinct_pages s \<and> (\<forall>i < num_slots s. slot_ok s i)"

text \<open>What no operation changes, and what every operation keeps.\<close>

definition same_ctl :: "Slru \<Rightarrow> Slru \<Rightarrow> bool" where
  "same_ctl s s' \<longleftrightarrow> num_slots s' = num_slots s \<and> lsn_groups_per_page s' = lsn_groups_per_page s
     \<and> do_fsync s' = do_fsync s \<and> PagePrecedes s' = PagePrecedes s \<and> InRecovery s' = InRecovery s"

text \<open>A page that appears fills a hole in a file.\<close>

definition new_pages_zero :: "Slru \<Rightarrow> Slru \<Rightarrow> bool" where
  "new_pages_zero s s' \<longleftrightarrow> (\<forall>q. stored s q = None \<longrightarrow> stored s' q = None \<or> stored s' q = Some zeroes)"

text \<open>The WAL up to \<open>lsn\<close> is flushed, or will be before page \<open>q\<close> is written: group \<open>g\<close> of the slot of
  the page remembers it.\<close>

definition lsn_covered :: "Slru \<Rightarrow> nat \<Rightarrow> nat \<Rightarrow> XLogRecPtr \<Rightarrow> bool" where
  "lsn_covered s q g lsn \<longleftrightarrow> lsn \<le> wal_flushed s
     \<or> (\<exists>i < num_slots s. holds_page s i \<and> page_number s i = q \<and> lsn \<le> group_lsn s (i * lsn_groups_per_page s + g))"

definition lsns_kept :: "Slru \<Rightarrow> Slru \<Rightarrow> bool" where
  "lsns_kept s s' \<longleftrightarrow> wal_flushed s \<le> wal_flushed s'
     \<and> (\<forall>q g lsn. g < lsn_groups_per_page s \<longrightarrow> lsn_covered s q g lsn \<longrightarrow> lsn_covered s' q g lsn)"

definition keeps :: "Slru \<Rightarrow> Slru \<Rightarrow> bool" where
  "keeps s s' \<longleftrightarrow> slru_inv s' \<and> same_ctl s s' \<and> latest_page_number s' = latest_page_number s
     \<and> stored s \<subseteq>\<^sub>m stored s' \<and> set (io_outcome s') \<subseteq> set (io_outcome s)
     \<and> new_pages_zero s s' \<and> lsns_kept s s'"

lemma new_pages_zero_same [simp]: "stored s' = stored s \<Longrightarrow> new_pages_zero s s'"
  by (simp add: new_pages_zero_def)

lemma new_pages_zero_trans:
  assumes "new_pages_zero s t" and "stored t \<subseteq>\<^sub>m stored u" and "new_pages_zero t u"
  shows "new_pages_zero s u"
  unfolding new_pages_zero_def
proof (intro allI impI)
  fix q assume "stored s q = None"
  with assms(1) have "stored t q = None \<or> stored t q = Some zeroes" by (simp add: new_pages_zero_def)
  with assms(2,3) map_leD [of "stored t" "stored u" q zeroes] show "stored u q = None \<or> stored u q = Some zeroes"
    by (auto simp: new_pages_zero_def)
qed

lemma lsns_kept_refl [simp]: "lsns_kept s s"
  by (simp add: lsns_kept_def)

lemma lsns_kept_trans: "lsns_kept s t \<Longrightarrow> same_ctl s t \<Longrightarrow> lsns_kept t u \<Longrightarrow> lsns_kept s u"
  by (auto simp: lsns_kept_def same_ctl_def)

text \<open>Where the slots hold the same pages with the same LSNs, no LSN is lost.\<close>

lemma lsns_kept_same:
  "num_slots s' = num_slots s \<Longrightarrow> holds_page s' = holds_page s \<Longrightarrow> page_number s' = page_number s \<Longrightarrow> group_lsn s' = group_lsn s \<Longrightarrow>
    lsn_groups_per_page s' = lsn_groups_per_page s \<Longrightarrow> wal_flushed s \<le> wal_flushed s' \<Longrightarrow> lsns_kept s s'"
  by (auto simp: lsns_kept_def lsn_covered_def)

lemma keeps_refl: "slru_inv s \<Longrightarrow> keeps s s"
  by (simp add: keeps_def same_ctl_def)

lemma keeps_trans:
  assumes "keeps s t" and "keeps t u"
  shows "keeps s u"
proof -
  have "new_pages_zero s u" using assms by (intro new_pages_zero_trans [of s t u]) (simp_all add: keeps_def)
  moreover have "lsns_kept s u" using assms by (intro lsns_kept_trans [of s t u]) (simp_all add: keeps_def)
  moreover have "stored s \<subseteq>\<^sub>m stored u" using assms by (auto simp: keeps_def intro: map_le_trans)
  ultimately show ?thesis using assms by (auto simp: keeps_def same_ctl_def)
qed

lemma find_SomeD: "List.find P xs = Some i \<Longrightarrow> i \<in> set xs \<and> P i"
  by (induction xs) (auto split: if_splits)

lemma find_upt_Some: "List.find P [0..<n] = Some i \<Longrightarrow> i < n \<and> P i"
  by (drule find_SomeD) simp

lemma find_upt_None: "List.find P [0..<n] = None \<longleftrightarrow> (\<forall>i<n. \<not> P i)"
  by (auto simp: find_None_iff)

lemma holder_eq:
  assumes "distinct_pages s" and "i < num_slots s" and "holds_page s i"
  shows "holder s (page_number s i) = Some i"
proof (cases "holder s (page_number s i)")
  case None
  with assms show ?thesis by (auto simp: holder_def find_upt_None)
next
  case (Some j)
  then have j: "j < num_slots s" "page_number s j = page_number s i" "holds_page s j"
    by (auto simp: holder_def dest: find_upt_Some)
  with assms have "j = i" unfolding distinct_pages_def holds_page_def by blast
  with Some show ?thesis by simp
qed

lemma stored_held: "distinct_pages s \<Longrightarrow> i < num_slots s \<Longrightarrow> holds_page s i \<Longrightarrow> stored s (page_number s i) = Some (page_buffer s i)"
  by (simp add: stored_def holder_eq)

lemma stored_not_held: "(\<And>i. i < num_slots s \<Longrightarrow> holds_page s i \<Longrightarrow> page_number s i \<noteq> p) \<Longrightarrow> stored s p = file_page s p"
  by (auto simp: stored_def holder_def split: option.split dest: find_upt_Some)

lemma stored_cases:
  assumes "distinct_pages s"
  obtains (buffered) i where "i < num_slots s" "holds_page s i" "page_number s i = p" "stored s p = Some (page_buffer s i)"
  | (on_disk) "\<And>i. i < num_slots s \<Longrightarrow> holds_page s i \<Longrightarrow> page_number s i \<noteq> p" "stored s p = file_page s p"
proof (cases "\<exists>i < num_slots s. holds_page s i \<and> page_number s i = p")
  case True
  with assms stored_held buffered show ?thesis by blast
next
  case False
  then show ?thesis by (intro on_disk stored_not_held) auto
qed

lemma find_slot_Some: "find_slot s p = Some i \<Longrightarrow> i < num_slots s \<and> page_number s i = p \<and> page_status s i \<noteq> SLRU_PAGE_EMPTY"
  unfolding find_slot_def by (drule find_upt_Some) simp

lemma find_slot_None: "find_slot s p = None \<longleftrightarrow> (\<forall>i < num_slots s. page_number s i = p \<longrightarrow> page_status s i = SLRU_PAGE_EMPTY)"
  unfolding find_slot_def by (auto simp: find_upt_None)

section \<open>The small steps keep every page\<close>

lemmas slru_specs = slru_inv_def same_ctl_def distinct_pages_def slot_ok_def lsns_flushed_def holds_page_def

lemma same_ctl_refl: "same_ctl s s"
  by (simp add: same_ctl_def)

lemma same_ctl_trans: "same_ctl s t \<Longrightarrow> same_ctl t u \<Longrightarrow> same_ctl s u"
  by (simp add: same_ctl_def)

lemma stored_cong:
  "num_slots s' = num_slots s \<Longrightarrow> page_number s' = page_number s \<Longrightarrow> holds_page s' = holds_page s \<Longrightarrow>
    page_buffer s' = page_buffer s \<Longrightarrow> file_page s' = file_page s \<Longrightarrow> stored s' = stored s"
  by (rule ext) (simp add: stored_def holder_def split: option.split)

text \<open>A change of the LRU counts is invisible.\<close>

lemma lru_invisible:
  "stored (s\<lparr>cur_lru_count := c, page_lru_count := f\<rparr>) = stored s"
  "slru_inv (s\<lparr>cur_lru_count := c, page_lru_count := f\<rparr>) = slru_inv s"
proof -
  have f: "file_page (s\<lparr>cur_lru_count := c, page_lru_count := f\<rparr>) = file_page s"
    by (simp add: fun_eq_iff file_page_def seg_file_def)
  show "stored (s\<lparr>cur_lru_count := c, page_lru_count := f\<rparr>) = stored s"
    by (rule stored_cong) (simp_all add: f fun_eq_iff holds_page_def)
  show "slru_inv (s\<lparr>cur_lru_count := c, page_lru_count := f\<rparr>) = slru_inv s"
    by (simp add: slru_specs f)
qed

lemma keeps_lru: "slru_inv s \<Longrightarrow> keeps s (s\<lparr>cur_lru_count := c, page_lru_count := f\<rparr>)"
  by (simp add: keeps_def lru_invisible same_ctl_def lsns_kept_same holds_page_def fun_eq_iff)

lemma SlruRecentlyUsed_eq: "\<exists>c f. SlruRecentlyUsed s i = s\<lparr>cur_lru_count := c, page_lru_count := f\<rparr>"
proof (cases "cur_lru_count s \<noteq> page_lru_count s i")
  case False
  then have "SlruRecentlyUsed s i = s\<lparr>cur_lru_count := cur_lru_count s, page_lru_count := page_lru_count s\<rparr>"
    by (simp add: SlruRecentlyUsed_def)
  then show ?thesis by blast
qed (auto simp: SlruRecentlyUsed_def Let_def)

lemma SlruRecentlyUsed_simps [simp]:
  "page_buffer (SlruRecentlyUsed s i) = page_buffer s" "page_status (SlruRecentlyUsed s i) = page_status s"
  "page_dirty (SlruRecentlyUsed s i) = page_dirty s" "page_number (SlruRecentlyUsed s i) = page_number s"
  "num_slots (SlruRecentlyUsed s i) = num_slots s" "group_lsn (SlruRecentlyUsed s i) = group_lsn s"
  "latest_page_number (SlruRecentlyUsed s i) = latest_page_number s" "io_outcome (SlruRecentlyUsed s i) = io_outcome s"
  "stored (SlruRecentlyUsed s i) = stored s" "slru_inv (SlruRecentlyUsed s i) = slru_inv s"
  "same_ctl t (SlruRecentlyUsed s i) = same_ctl t s" "wal_flushed (SlruRecentlyUsed s i) = wal_flushed s"
  "lsn_groups_per_page (SlruRecentlyUsed s i) = lsn_groups_per_page s" "holds_page (SlruRecentlyUsed s i) = holds_page s"
  using SlruRecentlyUsed_eq [of s i] by (auto simp: lru_invisible same_ctl_def holds_page_def fun_eq_iff)

lemma keeps_RecentlyUsed [simp]: "keeps s (SlruRecentlyUsed t i) = keeps s t"
  by (simp add: keeps_def new_pages_zero_def lsns_kept_def lsn_covered_def)

lemma WaitIO_simps [simp]:
  "page_number (SimpleLruWaitIO s i) = page_number s" "num_slots (SimpleLruWaitIO s i) = num_slots s"
  "page_buffer (SimpleLruWaitIO s i) = page_buffer s" "latest_page_number (SimpleLruWaitIO s i) = latest_page_number s"
  "io_outcome (SimpleLruWaitIO s i) = io_outcome s" "file_page (SimpleLruWaitIO s i) = file_page s"
  "holds_page (SimpleLruWaitIO s i) = holds_page s" "same_ctl s (SimpleLruWaitIO s i)"
  "group_lsn (SimpleLruWaitIO s i) = group_lsn s" "wal_flushed (SimpleLruWaitIO s i) = wal_flushed s"
  "lsn_groups_per_page (SimpleLruWaitIO s i) = lsn_groups_per_page s"
  by (auto simp: SimpleLruWaitIO_def slot_defs holds_page_def fun_eq_iff file_page_def seg_file_def same_ctl_def)

lemma WaitIO_stored [simp]: "stored (SimpleLruWaitIO s i) = stored s"
  by (rule stored_cong) simp_all

lemma WaitIO_inv: "slru_inv s \<Longrightarrow> slru_inv (SimpleLruWaitIO s i)"
  unfolding slru_inv_def distinct_pages_def slot_ok_def WaitIO_simps
  by (auto simp: SimpleLruWaitIO_def slot_defs lsns_flushed_def holds_page_def)

lemma keeps_WaitIO: "slru_inv s \<Longrightarrow> keeps s (SimpleLruWaitIO s i)"
  by (simp add: keeps_def WaitIO_inv lsns_kept_same)

section \<open>Writing a page\<close>

lemma page_pos: "p div SLRU_PAGES_PER_SEGMENT = q div SLRU_PAGES_PER_SEGMENT \<Longrightarrow>
    p mod SLRU_PAGES_PER_SEGMENT = q mod SLRU_PAGES_PER_SEGMENT \<Longrightarrow> p = q"
  by (metis div_mult_mod_eq)

lemma file_write_nth:
  "r < length (file_write pages r p)" "file_write pages r p ! r = p"
  "k < length pages \<Longrightarrow> k \<noteq> r \<Longrightarrow> k < length (file_write pages r p) \<and> file_write pages r p ! k = pages ! k"
  by (auto simp: file_write_def nth_append)

lemma file_page_write_same:
  "file_page (write_to_file s (p div SLRU_PAGES_PER_SEGMENT) (p mod SLRU_PAGES_PER_SEGMENT) pg) p = Some pg"
  by (simp add: file_page_def write_to_file_def seg_file_def Let_def update_conv file_write_nth)

lemma file_page_write_other:
  assumes "file_page s q = Some x" and "q \<noteq> p"
  shows "file_page (write_to_file s (p div SLRU_PAGES_PER_SEGMENT) (p mod SLRU_PAGES_PER_SEGMENT) pg) q = Some x"
proof (cases "q div SLRU_PAGES_PER_SEGMENT = p div SLRU_PAGES_PER_SEGMENT")
  case True
  then have "q mod SLRU_PAGES_PER_SEGMENT \<noteq> p mod SLRU_PAGES_PER_SEGMENT" using assms(2) page_pos by blast
  with assms(1) True show ?thesis
    by (auto simp: file_page_def write_to_file_def seg_file_def Let_def update_conv file_write_nth split: option.splits if_splits)
next
  case False
  with assms(1) show ?thesis by (simp add: file_page_def write_to_file_def seg_file_def Let_def update_conv)
qed

lemma file_write_new:
  "length pages \<le> k \<Longrightarrow> k < length (file_write pages r p) \<Longrightarrow> k \<noteq> r \<Longrightarrow> file_write pages r p ! k = zeroes"
  by (auto simp: file_write_def nth_append split: if_splits)

lemma file_page_write_new:
  assumes "file_page s q = None" and "q \<noteq> p"
  shows "file_page (write_to_file s (p div SLRU_PAGES_PER_SEGMENT) (p mod SLRU_PAGES_PER_SEGMENT) pg) q \<in> {None, Some zeroes}"
proof (cases "q div SLRU_PAGES_PER_SEGMENT = p div SLRU_PAGES_PER_SEGMENT")
  case True
  then have "q mod SLRU_PAGES_PER_SEGMENT \<noteq> p mod SLRU_PAGES_PER_SEGMENT" using assms(2) page_pos by blast
  with assms(1) True file_write_new show ?thesis
    by (auto simp: file_page_def write_to_file_def seg_file_def Let_def update_conv split: option.splits if_splits)
next
  case False
  with assms(1) show ?thesis by (simp add: file_page_def write_to_file_def seg_file_def Let_def update_conv)
qed

lemma write_to_file_simps [simp]:
  "num_slots (write_to_file s g r p) = num_slots s" "page_buffer (write_to_file s g r p) = page_buffer s"
  "page_status (write_to_file s g r p) = page_status s" "page_dirty (write_to_file s g r p) = page_dirty s"
  "page_number (write_to_file s g r p) = page_number s" "group_lsn (write_to_file s g r p) = group_lsn s"
  "lsn_groups_per_page (write_to_file s g r p) = lsn_groups_per_page s" "do_fsync (write_to_file s g r p) = do_fsync s"
  "PagePrecedes (write_to_file s g r p) = PagePrecedes s" "wal_flushed (write_to_file s g r p) = wal_flushed s"
  "InRecovery (write_to_file s g r p) = InRecovery s" "latest_page_number (write_to_file s g r p) = latest_page_number s"
  "io_outcome (write_to_file s g r p) = io_outcome s" "cur_lru_count (write_to_file s g r p) = cur_lru_count s"
  "page_lru_count (write_to_file s g r p) = page_lru_count s" "unsynced (write_to_file s g r p) = (unsynced s)(g := True)"
  by (simp_all add: write_to_file_def Let_def)

text \<open>The memory of the pool: what physical writes leave alone.\<close>

definition same_pool :: "Slru \<Rightarrow> Slru \<Rightarrow> bool" where
  "same_pool s s' \<longleftrightarrow> same_ctl s s' \<and> latest_page_number s' = latest_page_number s \<and> page_buffer s' = page_buffer s
     \<and> page_status s' = page_status s \<and> page_dirty s' = page_dirty s \<and> page_number s' = page_number s
     \<and> group_lsn s' = group_lsn s \<and> cur_lru_count s' = cur_lru_count s \<and> page_lru_count s' = page_lru_count s"

lemma max_lsn_fold:
  "\<forall>x \<in> insert m (f ` set xs). x \<le> fold (\<lambda>k m. let t = f k in if m < t then t else m) xs (m::XLogRecPtr)"
proof (induction xs arbitrary: m)
  case (Cons a xs)
  let ?m = "if m < f a then f a else m"
  have "m \<le> ?m" "f a \<le> ?m" by auto
  then show ?case using Cons.IH [of ?m] by (auto simp: Let_def intro: order_trans)
qed simp

lemma max_group_lsn_ge:
  assumes "g < lsn_groups_per_page s"
  shows "group_lsn s (i * lsn_groups_per_page s + g) \<le> max_group_lsn s i"
proof -
  let ?f = "\<lambda>k. group_lsn s (i * lsn_groups_per_page s + k)"
  have "?f g \<in> insert (?f 0) (?f ` set [1..<lsn_groups_per_page s])"
    using assms by (cases "g = 0") auto
  with max_lsn_fold [of "?f 0" ?f "[1..<lsn_groups_per_page s]"] show ?thesis unfolding max_group_lsn_def by auto
qed

lemma file_page_cong: "slru_dir s' = slru_dir s \<Longrightarrow> file_page s' = file_page s"
  by (simp add: fun_eq_iff file_page_def seg_file_def)

lemma next_io_eq:
  "next_io s = (r, s') \<Longrightarrow>
    \<exists>io. s' = s\<lparr>io_outcome := io\<rparr> \<and> set io \<subseteq> set (io_outcome s) \<and> (r \<noteq> IO_ok \<longrightarrow> r \<in> set (io_outcome s))"
  by (cases s) (auto simp: next_io_def split: list.splits)

text \<open>The state in which the file is written: the WAL is flushed as far as the page needs.\<close>

definition wal_first :: "Slru \<Rightarrow> nat \<Rightarrow> Slru" where
  "wal_first s i = (if lsn_groups_per_page s > 0 \<and> max_group_lsn s i \<noteq> 0 then XLogFlush s (max_group_lsn s i) else s)"

lemma wal_first_pool: "same_pool s (wal_first s i)" "slru_dir (wal_first s i) = slru_dir s"
    "wal_flushed s \<le> wal_flushed (wal_first s i)" "io_outcome (wal_first s i) = io_outcome s"
    "unsynced (wal_first s i) = unsynced s"
  by (simp_all add: wal_first_def XLogFlush_def same_pool_def same_ctl_def)

lemma wal_first_flushed: "lsns_flushed (wal_first s i) i"
proof -
  have "group_lsn s (i * lsn_groups_per_page s + g) \<le> wal_flushed (wal_first s i)" if "g < lsn_groups_per_page s" for g
    using max_group_lsn_ge [OF that, of i] that
    by (cases "max_group_lsn s i = 0") (auto simp: wal_first_def XLogFlush_def le_max_iff_disj)
  then show ?thesis using wal_first_pool(1) [of s i] by (simp add: lsns_flushed_def same_pool_def same_ctl_def)
qed

lemma same_pool_trans: "same_pool s t \<Longrightarrow> same_pool t u \<Longrightarrow> same_pool s u"
  by (simp add: same_pool_def same_ctl_def)

lemma phys_write_cases:
  assumes "SlruPhysicalWritePage s p i fd = (s', fd', r)"
  obtains (failed) t io torn cause where "t = (wal_first s i)\<lparr>io_outcome := io\<rparr>" "r = Some cause"
      "set io \<subseteq> set (io_outcome s)" "IO_failed cause torn \<in> set (io_outcome s)"
      "s' = t \<or> s' = write_to_file t (p div SLRU_PAGES_PER_SEGMENT) (p mod SLRU_PAGES_PER_SEGMENT) torn"
  | (written) t io u where "t = (wal_first s i)\<lparr>io_outcome := io\<rparr>" "r = None" "set io \<subseteq> set (io_outcome s)"
      "s' = (write_to_file t (p div SLRU_PAGES_PER_SEGMENT) (p mod SLRU_PAGES_PER_SEGMENT) (page_buffer s i))\<lparr>unsynced := u\<rparr>"
proof -
  obtain o' t where n: "next_io (wal_first s i) = (o', t)" by fastforce
  from next_io_eq [OF n] obtain io where t: "t = (wal_first s i)\<lparr>io_outcome := io\<rparr>"
    and io: "set io \<subseteq> set (io_outcome s)" "o' \<noteq> IO_ok \<longrightarrow> o' \<in> set (io_outcome s)"
    by (auto simp: wal_first_pool)
  have b: "page_buffer t i = page_buffer s i" using wal_first_pool(1) [of s i] by (simp add: t same_pool_def)
  show ?thesis
  proof (cases o')
    case (IO_failed cause torn)
    with assms n have "r = Some cause"
      "s' = t \<or> s' = write_to_file t (p div SLRU_PAGES_PER_SEGMENT) (p mod SLRU_PAGES_PER_SEGMENT) torn"
      by (auto simp: SlruPhysicalWritePage_def Let_def wal_first_def [symmetric] split: prod.splits if_splits)
    with t failed io IO_failed show ?thesis by blast
  next
    case IO_ok
    let ?w = "write_to_file t (p div SLRU_PAGES_PER_SEGMENT) (p mod SLRU_PAGES_PER_SEGMENT) (page_buffer s i)"
    have "?w = ?w\<lparr>unsynced := unsynced ?w\<rparr>" by (simp del: write_to_file_simps)
    moreover from IO_ok assms n b have "r = None" "s' = ?w \<or> (\<exists>u. s' = ?w\<lparr>unsynced := u\<rparr>)"
      by (auto simp: SlruPhysicalWritePage_def Let_def wal_first_def [symmetric] simp del: write_to_file_simps split: prod.splits if_splits)
    ultimately show ?thesis using t written io(1) by metis
  qed
qed

lemma same_pool_updates:
  "same_pool s (write_to_file t g r p) = same_pool s t" "same_pool s (t\<lparr>unsynced := u\<rparr>) = same_pool s t"
  by (simp_all add: same_pool_def same_ctl_def)

lemma phys_write:
  assumes "SlruPhysicalWritePage s p i fd = (s', fd', r)"
  shows "same_pool s s'" "wal_flushed s \<le> wal_flushed s'"
    "r = None \<Longrightarrow> file_page s' p = Some (page_buffer s i) \<and> lsns_flushed s' i"
    "q \<noteq> p \<Longrightarrow> file_page s q = Some x \<Longrightarrow> file_page s' q = Some x"
    "set (io_outcome s') \<subseteq> set (io_outcome s)" "r \<noteq> None \<Longrightarrow> \<exists>c t. IO_failed c t \<in> set (io_outcome s)"
proof -
  have pool: "same_pool s ((wal_first s i)\<lparr>io_outcome := io\<rparr>)" for io
    using wal_first_pool(1) [of s i] by (simp add: same_pool_def same_ctl_def)
  have fp: "file_page ((wal_first s i)\<lparr>io_outcome := io\<rparr>) = file_page s" for io
    by (rule file_page_cong) (simp add: wal_first_pool)
  have "same_pool s s' \<and> wal_flushed s \<le> wal_flushed s'
    \<and> (r = None \<longrightarrow> file_page s' p = Some (page_buffer s i) \<and> lsns_flushed s' i)
    \<and> (q \<noteq> p \<longrightarrow> file_page s q = Some x \<longrightarrow> file_page s' q = Some x)
    \<and> set (io_outcome s') \<subseteq> set (io_outcome s) \<and> (r \<noteq> None \<longrightarrow> (\<exists>c t. IO_failed c t \<in> set (io_outcome s)))"
    using assms
  proof (cases rule: phys_write_cases)
    case (failed t io torn cause)
    have t: "same_pool s t" "wal_flushed s \<le> wal_flushed t" "file_page t = file_page s" "io_outcome t = io"
      using failed(1) pool fp wal_first_pool(3) by simp_all
    note o = file_page_write_other [of t q x p torn, unfolded t(3)]
    from failed(5) show ?thesis
    proof
      assume "s' = t"
      with t failed(2,3,4) show ?thesis by (simp only: option.distinct) blast
    next
      assume "s' = write_to_file t (p div SLRU_PAGES_PER_SEGMENT) (p mod SLRU_PAGES_PER_SEGMENT) torn"
      with t failed(2,3,4) o show ?thesis by (simp only: option.distinct same_pool_updates write_to_file_simps) blast
    qed
  next
    case (written t io u)
    let ?w = "write_to_file t (p div SLRU_PAGES_PER_SEGMENT) (p mod SLRU_PAGES_PER_SEGMENT) (page_buffer s i)"
    have "file_page s' = file_page ?w" unfolding written by (rule file_page_cong) simp
    moreover have "lsns_flushed s' i" using wal_first_flushed [of s i] by (simp add: written lsns_flushed_def)
    ultimately show ?thesis
      using pool [of io] fp [of io] wal_first_pool(3) [of s i] file_page_write_other [of t q x p "page_buffer s i"]
        file_page_write_same [of t p "page_buffer s i"] written
      by (simp add: same_pool_updates)
  qed
  then show "same_pool s s'" "wal_flushed s \<le> wal_flushed s'"
    "r = None \<Longrightarrow> file_page s' p = Some (page_buffer s i) \<and> lsns_flushed s' i"
    "q \<noteq> p \<Longrightarrow> file_page s q = Some x \<Longrightarrow> file_page s' q = Some x"
    "set (io_outcome s') \<subseteq> set (io_outcome s)" "r \<noteq> None \<Longrightarrow> \<exists>c t. IO_failed c t \<in> set (io_outcome s)"
    by blast+
qed

lemma phys_write_new:
  assumes "SlruPhysicalWritePage s p i fd = (s', fd', r)" and "q \<noteq> p" and "file_page s q = None"
  shows "file_page s' q \<in> {None, Some zeroes}"
proof -
  have fp: "file_page ((wal_first s i)\<lparr>io_outcome := io\<rparr>) = file_page s" for io
    by (rule file_page_cong) (simp add: wal_first_pool)
  from assms(1) show ?thesis
  proof (cases rule: phys_write_cases)
    case (failed t io torn cause)
    with fp assms(2,3) file_page_write_new [of t q p torn] show ?thesis by auto
  next
    case (written t io u)
    let ?w = "write_to_file t (p div SLRU_PAGES_PER_SEGMENT) (p mod SLRU_PAGES_PER_SEGMENT) (page_buffer s i)"
    have "file_page s' = file_page ?w" unfolding written by (rule file_page_cong) simp
    with fp assms(2,3) written(1) file_page_write_new [of t q p "page_buffer s i"] show ?thesis by simp
  qed
qed

text \<open>The state after a write attempt of slot \<open>i\<close>: the pool as before, but for the dirty flag.\<close>

lemma write_back:
  assumes inv: "slru_inv s" and i: "i < num_slots s" "page_status s i = SLRU_PAGE_VALID" "page_dirty s i"
    and w: "SlruPhysicalWritePage t (page_number s i) i fd = (u, fd', r)"
    and t: "t = set_dirty (set_status s i SLRU_PAGE_WRITE_IN_PROGRESS) i False"
    and s': "s' = set_status (if r \<noteq> None then set_dirty u i True else u) i SLRU_PAGE_VALID"
  shows "keeps s s'" "page_number s' = page_number s" "page_buffer s' = page_buffer s"
    "page_status s' = page_status s" "page_dirty s' = (page_dirty s)(i := r \<noteq> None)" "group_lsn s' = group_lsn s"
    "r \<noteq> None \<Longrightarrow> \<exists>c t. IO_failed c t \<in> set (io_outcome s)"
proof -
  let ?p = "page_number s i"
  note pw = phys_write [OF w]
  have ft: "file_page t = file_page s" unfolding t by (rule file_page_cong) (simp add: slot_defs)
  have fs: "file_page s' = file_page u" unfolding s' by (rule file_page_cong) (simp add: slot_defs)
  from pw(1) show num: "page_number s' = page_number s" and buf: "page_buffer s' = page_buffer s"
    and st: "page_status s' = page_status s" and dirty: "page_dirty s' = (page_dirty s)(i := r \<noteq> None)"
    and lsn: "group_lsn s' = group_lsn s"
    using i by (auto simp: s' t slot_defs same_pool_def fun_eq_iff)
  from pw(1) have ctl: "same_ctl s s'" "latest_page_number s' = latest_page_number s"
    by (auto simp: s' t slot_defs same_pool_def same_ctl_def)
  have wal: "wal_flushed s \<le> wal_flushed s'" using pw(2) by (simp add: s' t slot_defs)
  have other: "file_page s q = Some x \<Longrightarrow> q \<noteq> ?p \<Longrightarrow> file_page s' q = Some x" for q x
    using pw(4) by (simp add: fs ft)
  have written: "file_page s' ?p = Some (page_buffer s' i) \<and> lsns_flushed s' i" if "r = None"
  proof
    show "file_page s' ?p = Some (page_buffer s' i)" using pw(3) [OF that] unfolding fs buf t by (simp add: slot_defs)
    show "lsns_flushed s' i" using pw(3) [OF that] that by (simp add: s' slot_defs lsns_flushed_def)
  qed
  from inv have d: "distinct_pages s" and ok: "\<And>j. j < num_slots s \<Longrightarrow> slot_ok s j" by (auto simp: slru_inv_def)
  have d': "distinct_pages s'" using d ctl by (simp add: distinct_pages_def num st same_ctl_def)
  have "slot_ok s' j" if j: "j < num_slots s" for j
  proof (cases "j = i")
    case True
    with i written show ?thesis by (auto simp: slot_ok_def dirty holds_page_def st num)
  next
    case False
    have "page_number s j \<noteq> ?p" if "page_status s j = SLRU_PAGE_VALID"
      using d False i j that unfolding distinct_pages_def by fastforce
    with ok [OF j] False other show ?thesis using wal ctl
      by (auto simp: slot_ok_def dirty holds_page_def st num buf lsns_flushed_def lsn same_ctl_def intro: order_trans)
  qed
  then have inv': "slru_inv s'" using inv d' ctl by (simp add: slru_inv_def same_ctl_def)
  have "stored s \<subseteq>\<^sub>m stored s'"
    unfolding map_le_def
  proof
    fix q assume "q \<in> dom (stored s)"
    show "stored s q = stored s' q" using d
    proof (cases rule: stored_cases [of s q])
      case (buffered j)
      then show ?thesis using stored_held [OF d', of j] ctl by (simp add: holds_page_def st num buf same_ctl_def)
    next
      case on_disk
      have "q \<noteq> ?p" using on_disk(1) [of i] i by (auto simp: holds_page_def)
      moreover have "stored s' q = file_page s' q"
        using on_disk(1) ctl by (intro stored_not_held) (auto simp: holds_page_def st num same_ctl_def)
      moreover obtain x where "file_page s q = Some x" using on_disk(2) \<open>q \<in> dom (stored s)\<close> by (metis domD)
      ultimately show ?thesis using on_disk(2) other by simp
    qed
  qed
  moreover have "new_pages_zero s s'"
    unfolding new_pages_zero_def
  proof (intro allI impI)
    fix q assume q: "stored s q = None"
    show "stored s' q = None \<or> stored s' q = Some zeroes" using d
    proof (cases rule: stored_cases [of s q])
      case on_disk
      have "q \<noteq> ?p" using on_disk(1) [of i] i by (auto simp: holds_page_def)
      moreover have "stored s' q = file_page s' q"
        using on_disk(1) ctl by (intro stored_not_held) (auto simp: holds_page_def st num same_ctl_def)
      ultimately show ?thesis using phys_write_new [OF w, of q] q on_disk(2) by (auto simp: fs ft)
    qed (use q in simp)
  qed
  moreover have "lsns_kept s s'"
    using ctl wal by (intro lsns_kept_same) (auto simp: same_ctl_def holds_page_def st num lsn fun_eq_iff)
  moreover have "set (io_outcome s') \<subseteq> set (io_outcome s)" using pw(5) by (simp add: s' t slot_defs)
  ultimately show "keeps s s'" using inv' ctl by (simp add: keeps_def)
  show "r \<noteq> None \<Longrightarrow> \<exists>c t. IO_failed c t \<in> set (io_outcome s)" using pw(6) by (simp add: t slot_defs)
qed

lemma internal_write:
  assumes inv: "slru_inv s" "i < num_slots s" and w: "SlruInternalWritePage s i fd = (s', r)"
  shows "keeps s s'" "page_number s' = page_number s" "page_buffer s' = page_buffer s"
    "page_status s' = page_status (if page_status s i = SLRU_PAGE_WRITE_IN_PROGRESS then SimpleLruWaitIO s i else s)"
    "page_dirty s' = (page_dirty s)(i := isl r)" "isl r \<Longrightarrow> \<exists>c t. IO_failed c t \<in> set (io_outcome s)"
proof -
  let ?s = "if page_status s i = SLRU_PAGE_WRITE_IN_PROGRESS then SimpleLruWaitIO s i else s"
  have inv': "slru_inv ?s" and k: "keeps s ?s" using inv WaitIO_inv keeps_WaitIO keeps_refl by auto
  have n: "num_slots ?s = num_slots s" "page_number ?s = page_number s" "page_buffer ?s = page_buffer s"
    and dj: "page_dirty ?s = (page_dirty s)(i := page_dirty ?s i)"
    by (auto simp: SimpleLruWaitIO_def slot_defs)
  have "keeps s s' \<and> page_number s' = page_number s \<and> page_buffer s' = page_buffer s
     \<and> page_status s' = page_status ?s \<and> page_dirty s' = (page_dirty s)(i := isl r)
     \<and> (isl r \<longrightarrow> (\<exists>c t. IO_failed c t \<in> set (io_outcome s)))"
  proof (cases "page_dirty ?s i \<and> page_status ?s i = SLRU_PAGE_VALID")
    case False
    from inv' inv(2) n have "slot_ok ?s i" by (simp add: slru_inv_def)
    with False have "\<not> page_dirty ?s i"
      by (cases "page_status s i") (auto simp: slot_ok_def holds_page_def SimpleLruWaitIO_def slot_defs)
    moreover from False w have "s' = ?s" "r = Inr fd" by (auto simp: SlruInternalWritePage_def Let_def n split: if_splits)
    ultimately show ?thesis using k n dj by simp
  next
    case True
    let ?t = "set_dirty (set_status ?s i SLRU_PAGE_WRITE_IN_PROGRESS) i False"
    obtain u fd' f where u: "SlruPhysicalWritePage ?t (page_number s i) i fd = (u, fd', f)" by (cases "SlruPhysicalWritePage ?t (page_number s i) i fd")
    with w True n have s': "s' = set_status (if f \<noteq> None then set_dirty u i True else u) i SLRU_PAGE_VALID" and r: "isl r = (f \<noteq> None)"
      by (auto simp: SlruInternalWritePage_def Let_def split: if_splits option.splits)
    note wb = write_back [OF inv', of i, unfolded n, OF inv(2) conjunct2 [OF True] conjunct1 [OF True] u refl s']
    have "keeps s s'" by (rule keeps_trans [OF k wb(1)])
    moreover have "isl r \<longrightarrow> (\<exists>c t. IO_failed c t \<in> set (io_outcome s))" using wb(7) r k by (auto simp: keeps_def)
    ultimately show ?thesis using wb r dj by (auto simp: fun_eq_iff)
  qed
  then show "keeps s s'" "page_number s' = page_number s" "page_buffer s' = page_buffer s"
    "page_status s' = page_status ?s" "page_dirty s' = (page_dirty s)(i := isl r)"
    "isl r \<Longrightarrow> \<exists>c t. IO_failed c t \<in> set (io_outcome s)" by blast+
qed

section \<open>Choosing a slot ends, with the least recently used\<close>

definition age :: "uint32 \<Rightarrow> Slru \<Rightarrow> nat \<Rightarrow> int" where
  "age c s i = max 0 (sint (c - page_lru_count s i))"

definition victim_ok :: "uint32 \<Rightarrow> Slru \<Rightarrow> victim \<Rightarrow> bool" where
  "victim_ok c s v \<longleftrightarrow>
     (0 \<le> best_valid_delta v \<longrightarrow> bestvalidslot v < num_slots s \<and> page_status s (bestvalidslot v) = SLRU_PAGE_VALID
        \<and> page_number s (bestvalidslot v) \<noteq> latest_page_number s \<and> best_valid_delta v = age c s (bestvalidslot v))
     \<and> (0 \<le> best_invalid_delta v \<longrightarrow> bestinvalidslot v < num_slots s
        \<and> page_status s (bestinvalidslot v) \<in> {SLRU_PAGE_READ_IN_PROGRESS, SLRU_PAGE_WRITE_IN_PROGRESS})"

definition covers :: "uint32 \<Rightarrow> Slru \<Rightarrow> victim \<Rightarrow> nat \<Rightarrow> bool" where
  "covers c s v i \<longleftrightarrow> page_status s i \<noteq> SLRU_PAGE_EMPTY
     \<and> (page_number s i \<noteq> latest_page_number s \<longrightarrow>
          (if page_status s i = SLRU_PAGE_VALID then age c s i \<le> best_valid_delta v else 0 \<le> best_invalid_delta v))"

text \<open>The reset of a count that is ahead of the clock changes no age.\<close>

definition clamp :: "uint32 \<Rightarrow> Slru \<Rightarrow> nat \<Rightarrow> Slru" where
  "clamp c s i = (if sint (c - page_lru_count s i) < 0 then s\<lparr>page_lru_count := (page_lru_count s)(i := c)\<rparr> else s)"

lemma clamp_eq: "\<exists>f. clamp c s i = s\<lparr>page_lru_count := f\<rparr>"
proof (cases "sint (c - page_lru_count s i) < 0")
  case False
  then have "clamp c s i = s\<lparr>page_lru_count := page_lru_count s\<rparr>" by (simp add: clamp_def)
  then show ?thesis by blast
qed (auto simp: clamp_def)

lemma clamp_simps [simp]:
  "page_status (clamp c s i) = page_status s" "page_number (clamp c s i) = page_number s" "num_slots (clamp c s i) = num_slots s"
  "latest_page_number (clamp c s i) = latest_page_number s" "PagePrecedes (clamp c s i) = PagePrecedes s"
  using clamp_eq [of c s i] by auto

lemma clamp_age [simp]: "age c (clamp c s i) = age c s"
  by (auto simp: age_def clamp_def fun_eq_iff)

lemma clamp_specs [simp]: "victim_ok c (clamp c s i) = victim_ok c s" "covers c (clamp c s i) = covers c s"
  by (simp_all add: fun_eq_iff victim_ok_def covers_def)

lemma victim_scan_Cons:
  "victim_scan c (i # is) s v =
     (if page_status s i = SLRU_PAGE_EMPTY then (s, Inl i)
      else victim_scan c is (clamp c s i)
             (if page_number s i = latest_page_number s then v else consider_victim (clamp c s i) i (age c s i) v))"
  by (auto simp: Let_def clamp_def age_def max_def)

lemma consider_victim_ok:
  assumes "victim_ok c s v" and "i < num_slots s" and "page_number s i \<noteq> latest_page_number s" and "page_status s i \<noteq> SLRU_PAGE_EMPTY"
  shows "victim_ok c s (consider_victim (clamp c s i) i (age c s i) v)" "covers c s (consider_victim (clamp c s i) i (age c s i) v) i"
    "best_valid_delta v \<le> best_valid_delta (consider_victim (clamp c s i) i (age c s i) v)"
    "best_invalid_delta v \<le> best_invalid_delta (consider_victim (clamp c s i) i (age c s i) v)"
proof -
  have "0 \<le> age c s i" by (simp add: age_def)
  with assms show "victim_ok c s (consider_victim (clamp c s i) i (age c s i) v)"
    "covers c s (consider_victim (clamp c s i) i (age c s i) v) i"
    "best_valid_delta v \<le> best_valid_delta (consider_victim (clamp c s i) i (age c s i) v)"
    "best_invalid_delta v \<le> best_invalid_delta (consider_victim (clamp c s i) i (age c s i) v)"
    by (cases "page_status s i"; auto simp: victim_ok_def covers_def consider_victim_def Let_def)+
qed

lemma victim_scan_spec:
  assumes "victim_scan c is s v = (s', r)" and "\<forall>i \<in> set is. i < num_slots s" and "victim_ok c s v"
  shows "(\<exists>f. s' = s\<lparr>page_lru_count := f\<rparr>) \<and> age c s' = age c s \<and>
    (case r of
       Inl i \<Rightarrow> i \<in> set is \<and> page_status s i = SLRU_PAGE_EMPTY
     | Inr v' \<Rightarrow> victim_ok c s v' \<and> (\<forall>i \<in> set is. covers c s v' i)
         \<and> best_valid_delta v \<le> best_valid_delta v' \<and> best_invalid_delta v \<le> best_invalid_delta v')"
  using assms
proof (induction "is" arbitrary: s v)
  case Nil
  then show ?case by (auto intro: exI [of _ "page_lru_count s"])
next
  case (Cons i "is")
  show ?case
  proof (cases "page_status s i = SLRU_PAGE_EMPTY")
    case True
    with Cons.prems show ?thesis by (auto intro: exI [of _ "page_lru_count s"])
  next
    case False
    let ?v = "if page_number s i = latest_page_number s then v else consider_victim (clamp c s i) i (age c s i) v"
    have v: "victim_ok c s ?v" "covers c s ?v i" "best_valid_delta v \<le> best_valid_delta ?v" "best_invalid_delta v \<le> best_invalid_delta ?v"
      using consider_victim_ok [of c s v i] Cons.prems False by (auto simp: covers_def)
    from Cons.prems(1) False have "victim_scan c is (clamp c s i) ?v = (s', r)" by (simp add: victim_scan_Cons del: victim_scan.simps)
    from Cons.IH [OF this] Cons.prems(2) v(1)
    have IH: "(\<exists>f. s' = (clamp c s i)\<lparr>page_lru_count := f\<rparr>) \<and> age c s' = age c s \<and>
      (case r of
         Inl i \<Rightarrow> i \<in> set is \<and> page_status s i = SLRU_PAGE_EMPTY
       | Inr v' \<Rightarrow> victim_ok c s v' \<and> (\<forall>i \<in> set is. covers c s v' i)
           \<and> best_valid_delta ?v \<le> best_valid_delta v' \<and> best_invalid_delta ?v \<le> best_invalid_delta v')"
      by (cases r) (auto simp only: clamp_simps clamp_specs clamp_age sum.case list.set ball_simps)
    moreover have "\<exists>f. s' = s\<lparr>page_lru_count := f\<rparr>"
    proof -
      from clamp_eq [of c s i] obtain g where g: "clamp c s i = s\<lparr>page_lru_count := g\<rparr>" by blast
      from IH obtain f where "s' = (clamp c s i)\<lparr>page_lru_count := f\<rparr>" by blast
      then have "s' = s\<lparr>page_lru_count := f\<rparr>" by (simp add: g)
      then show ?thesis by blast
    qed
    ultimately show ?thesis using v(2-4) by (cases r) (auto simp: covers_def)
  qed
qed

text \<open>Each round of the selection settles one slot that was busy or dirty.\<close>

definition slot_work :: "Slru \<Rightarrow> nat \<Rightarrow> nat" where
  "slot_work s i = (if page_status s i \<in> {SLRU_PAGE_READ_IN_PROGRESS, SLRU_PAGE_WRITE_IN_PROGRESS} then 2 else if page_dirty s i then 1 else 0)"

definition work :: "Slru \<Rightarrow> nat" where
  "work s = (\<Sum>i < num_slots s. slot_work s i)"

lemma work_less:
  assumes "num_slots s' = num_slots s" and "i < num_slots s" and "slot_work s' i < slot_work s i"
    and "\<And>j. j \<noteq> i \<Longrightarrow> slot_work s' j = slot_work s j"
  shows "work s' < work s"
proof -
  have "slot_work s' j \<le> slot_work s j" for j using assms(3,4) by (cases "j = i") auto
  then show ?thesis unfolding work_def assms(1) using assms(2,3) by (intro sum_strict_mono_ex1) auto
qed

definition io_fine :: "Slru \<Rightarrow> bool" where
  "io_fine s \<longleftrightarrow> (\<forall>r \<in> set (io_outcome s). r = IO_ok)"

lemma io_fine_keeps: "keeps s t \<Longrightarrow> io_fine s \<Longrightarrow> io_fine t"
  by (auto simp: io_fine_def keeps_def)

definition least_recent :: "Slru \<Rightarrow> nat \<Rightarrow> bool" where
  "least_recent s i \<longleftrightarrow> page_number s i \<noteq> latest_page_number s
     \<and> (\<forall>j < num_slots s. page_status s j \<noteq> SLRU_PAGE_EMPTY
          \<and> (page_status s j = SLRU_PAGE_VALID \<and> page_number s j \<noteq> latest_page_number s
               \<longrightarrow> age (cur_lru_count s - 1) s j \<le> age (cur_lru_count s - 1) s i))"

definition select_post :: "Slru \<Rightarrow> nat \<Rightarrow> (Slru \<times> nat result) option \<Rightarrow> bool" where
  "select_post s p res \<longleftrightarrow>
     (case res of
        None \<Rightarrow> False
      | Some (s', Inl e) \<Rightarrow> keeps s s' \<and> \<not> io_fine s
      | Some (s', Inr i) \<Rightarrow> keeps s s' \<and> work s' \<le> work s \<and> i < num_slots s
          \<and> (page_number s' i = p \<and> page_status s' i \<noteq> SLRU_PAGE_EMPTY
             \<or> find_slot s' p = None
               \<and> (page_status s' i = SLRU_PAGE_EMPTY
                  \<or> page_status s' i = SLRU_PAGE_VALID \<and> \<not> page_dirty s' i \<and> least_recent s' i)))"

lemma select_post_trans: "keeps s t \<Longrightarrow> work t \<le> work s \<Longrightarrow> select_post t p res \<Longrightarrow> select_post s p res"
  using io_fine_keeps [of s t]
  by (auto simp: select_post_def split: option.splits sum.splits intro: keeps_trans) (auto simp: keeps_def same_ctl_def)

text \<open>At least one slot does not hold the latest page.\<close>

lemma victim_exists:
  assumes "slru_inv s" and "\<forall>i < num_slots s. covers c s v i" and "victim_ok c s v" and "best_valid_delta v < 0"
  shows "bestinvalidslot v < num_slots s"
    "page_status s (bestinvalidslot v) \<in> {SLRU_PAGE_READ_IN_PROGRESS, SLRU_PAGE_WRITE_IN_PROGRESS}"
proof -
  from assms(1) have n: "0 < num_slots s" "1 < num_slots s" by (auto simp: slru_inv_def)
  with assms(2) have "page_status s 0 \<noteq> SLRU_PAGE_EMPTY" "page_status s 1 \<noteq> SLRU_PAGE_EMPTY" by (auto simp: covers_def)
  moreover from assms(1) have "distinct_pages s" by (simp add: slru_inv_def)
  ultimately have "page_number s 0 \<noteq> page_number s 1"
    using n \<open>distinct_pages s\<close> [unfolded distinct_pages_def, rule_format, of 0 1] by auto
  then obtain i where i: "i < num_slots s" "page_number s i \<noteq> latest_page_number s" using n by metis
  moreover have "0 \<le> age c s i" by (simp add: age_def)
  ultimately have "0 \<le> best_invalid_delta v" using assms(2,4) by (fastforce simp: covers_def split: if_splits)
  with assms(3) show "bestinvalidslot v < num_slots s"
    "page_status s (bestinvalidslot v) \<in> {SLRU_PAGE_READ_IN_PROGRESS, SLRU_PAGE_WRITE_IN_PROGRESS}"
    by (auto simp: victim_ok_def)
qed

lemma WaitIO_work:
  assumes "i < num_slots s" and "page_status s i \<in> {SLRU_PAGE_READ_IN_PROGRESS, SLRU_PAGE_WRITE_IN_PROGRESS}" and "slru_inv s"
  shows "work (SimpleLruWaitIO s i) < work s"
proof (rule work_less)
  from assms(1,3) have "slot_ok s i" by (simp add: slru_inv_def)
  with assms(2) show "slot_work (SimpleLruWaitIO s i) i < slot_work s i"
    by (auto simp: slot_work_def SimpleLruWaitIO_def slot_defs slot_ok_def holds_page_def)
qed (use assms in \<open>auto simp: slot_work_def SimpleLruWaitIO_def slot_defs\<close>)

lemma work_cong: "num_slots t = num_slots s \<Longrightarrow> page_status t = page_status s \<Longrightarrow> page_dirty t = page_dirty s \<Longrightarrow> work t = work s"
  by (simp add: work_def slot_work_def cong: if_cong)

text \<open>One round of the outer loop.\<close>

lemma select_round:
  assumes inv: "slru_inv s" and None: "find_slot s p = None"
  obtains (empty) t i where "keeps s t" "work t = work s" "i < num_slots s" "page_status t i = SLRU_PAGE_EMPTY" "find_slot t p = None"
      "SlruSelectLRUPage s p = Some (t, Inr i)"
  | (wait) t i where "keeps s t" "work t = work s" "i < num_slots t"
      "page_status t i \<in> {SLRU_PAGE_READ_IN_PROGRESS, SLRU_PAGE_WRITE_IN_PROGRESS}"
      "SlruSelectLRUPage s p = SlruSelectLRUPage (SimpleLruWaitIO t i) p"
  | (clean) t i where "keeps s t" "work t = work s" "i < num_slots s" "page_status t i = SLRU_PAGE_VALID" "\<not> page_dirty t i" "least_recent t i"
      "find_slot t p = None" "SlruSelectLRUPage s p = Some (t, Inr i)"
  | (dirty) t i where "keeps s t" "work t = work s" "i < num_slots t" "page_status t i = SLRU_PAGE_VALID" "page_dirty t i"
      "SlruSelectLRUPage s p =
         (case SlruInternalWritePage t i None of (s, Inl e) \<Rightarrow> Some (s, Inl e) | (s, Inr _) \<Rightarrow> SlruSelectLRUPage s p)"
proof -
  let ?c = "cur_lru_count s" and ?t = "s\<lparr>cur_lru_count := cur_lru_count s + 1\<rparr>"
  obtain t r where scan: "victim_scan ?c [0..<num_slots s] ?t no_victim = (t, r)" by fastforce
  have "victim_ok ?c ?t no_victim" by (simp add: victim_ok_def no_victim_def)
  moreover have "\<forall>i \<in> set [0..<num_slots s]. i < num_slots ?t" by simp
  ultimately have spec: "(\<exists>f. t = ?t\<lparr>page_lru_count := f\<rparr>)" "age ?c t = age ?c ?t"
      "case r of Inl i \<Rightarrow> i \<in> set [0..<num_slots s] \<and> page_status ?t i = SLRU_PAGE_EMPTY
         | Inr v' \<Rightarrow> victim_ok ?c ?t v' \<and> (\<forall>i \<in> set [0..<num_slots s]. covers ?c ?t v' i)
            \<and> best_valid_delta no_victim \<le> best_valid_delta v' \<and> best_invalid_delta no_victim \<le> best_invalid_delta v'"
    using victim_scan_spec [OF scan] by blast+
  then obtain f where t: "t = ?t\<lparr>page_lru_count := f\<rparr>" by blast
  have kt: "keeps s t" unfolding t using keeps_lru [OF inv] by simp
  then have inv_t: "slru_inv t" by (simp add: keeps_def)
  have fields: "num_slots t = num_slots s" "page_status t = page_status s" "page_number t = page_number s"
    "latest_page_number t = latest_page_number s" "page_dirty t = page_dirty s" "cur_lru_count t = ?c + 1" by (simp_all add: t)
  have none: "find_slot t p = None" using None by (simp add: find_slot_def fields)
  have wt: "work t = work s" by (rule work_cong) (simp_all add: fields)
  show ?thesis
  proof (cases r)
    case (Inl i)
    with spec(3) have "i < num_slots s" "page_status t i = SLRU_PAGE_EMPTY" by (simp_all add: fields)
    moreover have "SlruSelectLRUPage s p = Some (t, Inr i)"
      by (subst SlruSelectLRUPage.simps) (simp add: None scan Inl Let_def)
    ultimately show ?thesis using empty kt wt none by blast
  next
    case (Inr v)
    have same: "victim_ok ?c t v = victim_ok ?c ?t v" "covers ?c t v = covers ?c ?t v"
      using spec(2) by (simp_all add: victim_ok_def covers_def fun_eq_iff fields)
    from spec(3) Inr same have v: "victim_ok ?c t v" "\<forall>i < num_slots t. covers ?c t v i" by (simp_all add: fields)
    have unfold: "SlruSelectLRUPage s p =
      (if best_valid_delta v < 0 then SlruSelectLRUPage (SimpleLruWaitIO t (bestinvalidslot v)) p
       else if \<not> page_dirty t (bestvalidslot v) then Some (t, Inr (bestvalidslot v))
       else (case SlruInternalWritePage t (bestvalidslot v) None of
               (s, Inl e) \<Rightarrow> Some (s, Inl e) | (s, Inr _) \<Rightarrow> SlruSelectLRUPage s p))"
      by (subst SlruSelectLRUPage.simps) (simp add: None scan Inr Let_def)
    show ?thesis
    proof (cases "best_valid_delta v < 0")
      case True
      with wait [OF kt wt victim_exists [OF inv_t v(2,1) True]] unfold show ?thesis by simp
    next
      case False
      with v have b: "bestvalidslot v < num_slots t" "page_status t (bestvalidslot v) = SLRU_PAGE_VALID"
        "page_number t (bestvalidslot v) \<noteq> latest_page_number t" "best_valid_delta v = age ?c t (bestvalidslot v)"
        by (auto simp: victim_ok_def)
      then have lr: "least_recent t (bestvalidslot v)" using v(2) by (auto simp: least_recent_def covers_def fields)
      show ?thesis
      proof (cases "page_dirty t (bestvalidslot v)")
        case True
        with dirty [OF kt wt b(1,2) True] False unfold show ?thesis by simp
      next
        case clean': False
        have "SlruSelectLRUPage s p = Some (t, Inr (bestvalidslot v))" using clean' False unfold by simp
        with clean [OF kt wt _ b(2) clean' lr none] b(1) show ?thesis by (simp add: fields)
      qed
    qed
  qed
qed

lemma SlruSelectLRUPage_post: "slru_inv s \<Longrightarrow> select_post s p (SlruSelectLRUPage s p)"
proof (induction "work s" arbitrary: s rule: less_induct)
  case less
  note inv = \<open>slru_inv s\<close>
  show ?case
  proof (cases "find_slot s p")
    case (Some i)
    then show ?thesis using find_slot_Some [OF Some] keeps_refl [OF inv]
      by (subst SlruSelectLRUPage.simps) (simp add: select_post_def)
  next
    case None
    show ?thesis using inv None
    proof (cases rule: select_round)
      case (empty t i)
      then show ?thesis by (simp add: select_post_def)
    next
      case (wait t i)
      then have inv_t: "slru_inv t" by (simp add: keeps_def)
      have less_work: "work (SimpleLruWaitIO t i) < work s" using WaitIO_work [OF wait(3,4) inv_t] wait(2) by simp
      from less.hyps [OF this WaitIO_inv [OF inv_t]] less_work show ?thesis
        unfolding wait(5) by (intro select_post_trans [OF keeps_trans [OF wait(1) keeps_WaitIO [OF inv_t]]]) simp_all
    next
      case (clean t i)
      then show ?thesis by (simp add: select_post_def)
    next
      case (dirty t i)
      then have inv_t: "slru_inv t" by (simp add: keeps_def)
      obtain u w where u: "SlruInternalWritePage t i None = (u, w)" by fastforce
      note iw = internal_write [OF inv_t dirty(3) u]
      have ku: "keeps s u" using keeps_trans [OF dirty(1) iw(1)] .
      show ?thesis
      proof (cases w)
        case (Inl e)
        with iw(6) have "\<not> io_fine t" by (auto simp: io_fine_def)
        with io_fine_keeps [OF dirty(1)] ku show ?thesis unfolding dirty(6) u by (auto simp: Inl select_post_def)
      next
        case (Inr fd)
        have "work u < work t"
        proof (rule work_less [OF _ dirty(3)])
          show "num_slots u = num_slots t" using iw(1) by (simp add: keeps_def same_ctl_def)
          show "slot_work u i < slot_work t i" using dirty(4,5) Inr by (simp add: slot_work_def iw(4,5))
          show "j \<noteq> i \<Longrightarrow> slot_work u j = slot_work t j" for j using dirty(4) by (simp add: slot_work_def iw(4,5))
        qed
        then have less_work: "work u < work s" using dirty(2) by simp
        then have "select_post u p (SlruSelectLRUPage u p)" using less.hyps [of u] ku by (simp add: keeps_def)
        then have "select_post s p (SlruSelectLRUPage u p)" using less_work by (intro select_post_trans [OF ku]) simp_all
        then show ?thesis unfolding dirty(6) u Inr by simp
      qed
    qed
  qed
qed

section \<open>Reading and zeroing a page\<close>

text \<open>Slot \<open>i\<close>, which is free or in use for page \<open>p\<close> already, gets to hold \<open>p\<close>.\<close>

definition slot_free_for :: "Slru \<Rightarrow> nat \<Rightarrow> nat \<Rightarrow> bool" where
  "slot_free_for t i p \<longleftrightarrow> i < num_slots t
     \<and> (page_status t i = SLRU_PAGE_EMPTY \<or> page_status t i = SLRU_PAGE_VALID \<and> \<not> page_dirty t i \<or> page_number t i = p)
     \<and> (\<forall>j < num_slots t. j \<noteq> i \<and> page_status t j \<noteq> SLRU_PAGE_EMPTY \<longrightarrow> page_number t j \<noteq> p)"

definition lsns_same :: "Slru \<Rightarrow> Slru \<Rightarrow> nat \<Rightarrow> bool" where
  "lsns_same t s' i \<longleftrightarrow> wal_flushed s' = wal_flushed t
     \<and> (\<forall>j g. j \<noteq> i \<longrightarrow> g < lsn_groups_per_page t \<longrightarrow>
          group_lsn s' (j * lsn_groups_per_page t + g) = group_lsn t (j * lsn_groups_per_page t + g))"

definition slot_replaced :: "Slru \<Rightarrow> Slru \<Rightarrow> nat \<Rightarrow> nat \<Rightarrow> bool \<Rightarrow> bool \<Rightarrow> bool" where
  "slot_replaced t s' i p ok d \<longleftrightarrow> same_ctl t s' \<and> file_page s' = file_page t
     \<and> page_number s' = (page_number t)(i := p)
     \<and> page_status s' = (page_status t)(i := if ok then SLRU_PAGE_VALID else SLRU_PAGE_EMPTY)
     \<and> (\<forall>j. j \<noteq> i \<longrightarrow> page_buffer s' j = page_buffer t j)
     \<and> page_dirty s' = (page_dirty t)(i := d) \<and> (d \<longrightarrow> ok)
     \<and> (ok \<and> \<not> d \<longrightarrow> file_page t p = Some (page_buffer s' i))
     \<and> lsns_same t s' i \<and> lsns_flushed s' i"

lemma slot_replaced_holds: "slot_replaced t s' i p ok d \<Longrightarrow> holds_page s' = (holds_page t)(i := ok)"
  by (auto simp: slot_replaced_def holds_page_def fun_eq_iff)

lemma slot_replaced_distinct:
  assumes "slru_inv t" and "slot_free_for t i p" and "slot_replaced t s' i p ok d"
  shows "distinct_pages s'"
  unfolding distinct_pages_def
proof (intro allI impI, elim conjE)
  fix a b
  from assms(3) have n: "num_slots s' = num_slots t" by (simp add: slot_replaced_def same_ctl_def)
  note defs = assms(3) [unfolded slot_replaced_def]
  assume ab: "a < num_slots s'" "b < num_slots s'" "page_status s' a \<noteq> SLRU_PAGE_EMPTY" "page_status s' b \<noteq> SLRU_PAGE_EMPTY"
    "page_number s' a = page_number s' b"
  consider "a = i" | "b = i" "a \<noteq> i" | "a \<noteq> i" "b \<noteq> i" by blast
  then show "a = b"
  proof cases
    case 1
    with ab assms(2) defs n show ?thesis by (auto simp: slot_free_for_def split: if_splits)
  next
    case 2
    with ab assms(2) defs n show ?thesis by (auto simp: slot_free_for_def)
  next
    case 3
    with assms(1) ab defs n show ?thesis unfolding slru_inv_def distinct_pages_def by simp
  qed
qed

lemma slot_replaced_inv:
  assumes "slru_inv t" and "slot_free_for t i p" and "slot_replaced t s' i p ok d"
  shows "slru_inv s'"
proof -
  note defs = assms(3) [unfolded slot_replaced_def]
  have "slot_ok s' j" if "j < num_slots t" for j
  proof -
    from that assms(1) have "slot_ok t j" by (simp add: slru_inv_def)
    moreover have "lsns_flushed t j \<Longrightarrow> j \<noteq> i \<Longrightarrow> lsns_flushed s' j"
      using defs by (simp add: lsns_flushed_def lsns_same_def same_ctl_def)
    ultimately show ?thesis using defs by (cases "j = i") (auto simp: slot_ok_def holds_page_def)
  qed
  moreover have "num_slots s' = num_slots t" "InRecovery s' = InRecovery t" using defs by (simp_all add: same_ctl_def)
  ultimately show ?thesis using assms(1) slot_replaced_distinct [OF assms] by (simp add: slru_inv_def)
qed

lemma slot_replaced_page:
  assumes "slru_inv t" and "slot_free_for t i p" and "slot_replaced t s' i p ok d"
  shows "stored s' p = (if ok then Some (page_buffer s' i) else file_page t p)"
proof -
  note defs = assms(3) [unfolded slot_replaced_def] and hp = slot_replaced_holds [OF assms(3)]
  show ?thesis
  proof (cases ok)
    case True
    with stored_held [OF slot_replaced_distinct [OF assms], of i] assms(2) defs show ?thesis
      by (simp add: hp slot_free_for_def same_ctl_def)
  next
    case False
    have "stored s' p = file_page s' p"
      using assms(2) defs False by (intro stored_not_held) (auto simp: slot_free_for_def same_ctl_def hp holds_page_def split: if_splits)
    with False defs show ?thesis by simp
  qed
qed

text \<open>The page that slot \<open>i\<close> held before is clean, so its copy on disk takes over.\<close>

lemma slot_replaced_evicted:
  assumes "slru_inv t" and "slot_free_for t i p" and "slot_replaced t s' i p ok d"
    and "holds_page t i" and "page_number t i \<noteq> p"
  shows "stored s' (page_number t i) = Some (page_buffer t i)"
proof -
  note defs = assms(3) [unfolded slot_replaced_def] and hp = slot_replaced_holds [OF assms(3)]
  let ?q = "page_number t i"
  from assms(1,2) have d: "distinct_pages t" and i: "i < num_slots t" "slot_ok t i" by (auto simp: slru_inv_def slot_free_for_def)
  with assms(2,4,5) have "file_page t ?q = Some (page_buffer t i)" by (auto simp: slot_ok_def holds_page_def slot_free_for_def)
  moreover have "stored s' ?q = file_page s' ?q"
  proof (rule stored_not_held)
    fix k assume k: "k < num_slots s'" "holds_page s' k"
    show "page_number s' k \<noteq> ?q"
    proof
      assume kq: "page_number s' k = ?q"
      with assms(5) defs have "k \<noteq> i" by auto
      with k kq assms(4) d i(1) defs show False
        unfolding distinct_pages_def by (auto simp: hp same_ctl_def holds_page_def)
    qed
  qed
  ultimately show ?thesis using defs by simp
qed

lemma slot_replaced_stored:
  assumes "slru_inv t" and "slot_free_for t i p" and "slot_replaced t s' i p ok d"
  shows "stored s' = (stored t)(p := if ok then Some (page_buffer s' i) else file_page t p)"
proof
  fix q
  note defs = assms(3) [unfolded slot_replaced_def] and hp = slot_replaced_holds [OF assms(3)]
  from assms(1) have d: "distinct_pages t" by (simp add: slru_inv_def)
  from defs have n: "num_slots s' = num_slots t" by (simp add: same_ctl_def)
  have "stored s' q = stored t q" if qp: "q \<noteq> p"
    using d
  proof (cases rule: stored_cases [of t q])
    case (buffered j)
    show ?thesis
    proof (cases "j = i")
      case True
      with slot_replaced_evicted [OF assms] buffered qp show ?thesis by auto
    next
      case False
      with buffered stored_held [OF slot_replaced_distinct [OF assms], of j] defs show ?thesis by (simp add: n hp)
    qed
  next
    case on_disk
    have "stored s' q = file_page s' q"
      using on_disk(1) qp defs by (intro stored_not_held) (auto simp: n hp split: if_splits)
    with on_disk defs show ?thesis by simp
  qed
  with slot_replaced_page [OF assms] show "stored s' q = ((stored t)(p := if ok then Some (page_buffer s' i) else file_page t p)) q"
    by simp
qed

text \<open>The LSNs of the evicted page are flushed, those of the other slots stay.\<close>

lemma slot_replaced_covered:
  assumes "slru_inv t" and "slot_free_for t i p" and rep: "slot_replaced t s' i p ok d"
    and g: "g < lsn_groups_per_page t" and "lsn_covered t q g lsn"
    and clean: "q \<noteq> p \<or> page_status t i = SLRU_PAGE_EMPTY \<or> page_status t i = SLRU_PAGE_VALID \<and> \<not> page_dirty t i"
  shows "lsn_covered s' q g lsn"
proof -
  note defs = rep [unfolded slot_replaced_def] and hp = slot_replaced_holds [OF rep]
  from assms(5) consider "lsn \<le> wal_flushed t"
    | j where "j < num_slots t" "holds_page t j" "page_number t j = q" "lsn \<le> group_lsn t (j * lsn_groups_per_page t + g)"
    by (auto simp: lsn_covered_def)
  then show "lsn_covered s' q g lsn"
  proof cases
    case 1
    with defs show ?thesis by (simp add: lsn_covered_def lsns_same_def)
  next
    case (2 j)
    show ?thesis
    proof (cases "j = i")
      case True
      with clean 2 have "lsns_flushed t i" using assms(1,2) by (auto simp: holds_page_def slru_inv_def slot_free_for_def slot_ok_def)
      with 2(4) g True defs show ?thesis by (auto simp: lsn_covered_def lsns_flushed_def lsns_same_def intro: order_trans)
    next
      case False
      then have "holds_page s' j" "page_number s' j = q" "lsn \<le> group_lsn s' (j * lsn_groups_per_page s' + g)" "j < num_slots s'"
        using 2 defs g by (auto simp: hp lsns_same_def same_ctl_def)
      then show ?thesis by (auto simp: lsn_covered_def)
    qed
  qed
qed

lemma slot_replaced_lsns:
  assumes "slru_inv t" and "slot_free_for t i p" and "slot_replaced t s' i p ok d"
    and "page_status t i = SLRU_PAGE_EMPTY \<or> page_status t i = SLRU_PAGE_VALID \<and> \<not> page_dirty t i"
  shows "lsns_kept t s'"
  using slot_replaced_covered [OF assms(1-3)] assms(3,4) by (auto simp: lsns_kept_def slot_replaced_def lsns_same_def)

lemma ZeroLSNs_simps [simp]:
  "num_slots (SimpleLruZeroLSNs s i) = num_slots s" "page_buffer (SimpleLruZeroLSNs s i) = page_buffer s"
  "page_status (SimpleLruZeroLSNs s i) = page_status s" "page_dirty (SimpleLruZeroLSNs s i) = page_dirty s"
  "page_number (SimpleLruZeroLSNs s i) = page_number s" "slru_dir (SimpleLruZeroLSNs s i) = slru_dir s"
  "latest_page_number (SimpleLruZeroLSNs s i) = latest_page_number s" "io_outcome (SimpleLruZeroLSNs s i) = io_outcome s"
  "same_ctl t (SimpleLruZeroLSNs s i) = same_ctl t s"
  by (simp_all add: SimpleLruZeroLSNs_def same_ctl_def)

lemma ZeroLSNs_flushed: "lsns_flushed (SimpleLruZeroLSNs s i) i"
  by (auto simp: lsns_flushed_def SimpleLruZeroLSNs_def)

lemma group_other: "j \<noteq> i \<Longrightarrow> g < n \<Longrightarrow> \<not> (i * n \<le> j * n + g \<and> j * n + g < i * n + (n::nat))"
proof
  assume "j \<noteq> i" "g < n" and r: "i * n \<le> j * n + g \<and> j * n + g < i * n + n"
  from r obtain h where h: "j * n + g = i * n + h" "h < n" by (metis add_less_cancel_left le_Suc_ex)
  have "(j * n + g) div n = j" "(i * n + h) div n = i" using \<open>g < n\<close> h(2) by simp_all
  with h(1) \<open>j \<noteq> i\<close> show False by simp
qed

lemma ZeroLSNs_same: "lsns_same s (SimpleLruZeroLSNs s i) i"
  using group_other by (auto simp: lsns_same_def SimpleLruZeroLSNs_def)

lemma phys_read_eq:
  assumes "SlruPhysicalReadPage t p i = (s', f)" and "\<not> InRecovery t"
  shows "\<exists>io b. s' = t\<lparr>page_buffer := (page_buffer t)(i := b), io_outcome := io\<rparr> \<and> set io \<subseteq> set (io_outcome t)
    \<and> (if f = None then file_page t p = Some b else \<not> io_fine t \<or> file_page t p = None)"
proof -
  obtain r u where n: "next_io t = (r, u)" by fastforce
  then obtain io where u: "u = t\<lparr>io_outcome := io\<rparr>" "set io \<subseteq> set (io_outcome t)" "r \<noteq> IO_ok \<longrightarrow> r \<in> set (io_outcome t)"
    using next_io_eq by blast
  have absent: ?thesis if "s' = u" "f \<noteq> None" "file_page t p = None"
    using that u(1,2) by (intro exI [of _ io] exI [of _ "page_buffer t i"]) simp
  show ?thesis
  proof (cases r)
    case (IO_failed c b)
    with assms n u have "s' = t\<lparr>page_buffer := (page_buffer t)(i := b), io_outcome := io\<rparr>" "f = Some c" "\<not> io_fine t"
      by (auto simp: SlruPhysicalReadPage_def slot_defs io_fine_def)
    with u show ?thesis by auto
  next
    case IO_ok
    let ?pages = "seg_file t (p div SLRU_PAGES_PER_SEGMENT)" and ?r = "p mod SLRU_PAGES_PER_SEGMENT"
    have read: "SlruPhysicalReadPage t p i =
      (case ?pages of None \<Rightarrow> (u, Some SLRU_OPEN_FAILED)
       | Some pages \<Rightarrow> if ?r < length pages then (set_buffer u i (pages ! ?r), None) else (u, Some SLRU_READ_FAILED))"
      using assms(2) n IO_ok by (simp add: SlruPhysicalReadPage_def u(1) seg_file_def split: option.split)
    consider "?pages = None" | pages where "?pages = Some pages" "?r < length pages" | pages where "?pages = Some pages" "\<not> ?r < length pages"
      by (cases ?pages) auto
    then show ?thesis
    proof cases
      case 1
      with read assms(1) absent show ?thesis by (simp add: file_page_def)
    next
      case 2
      with read assms(1) have "s' = t\<lparr>page_buffer := (page_buffer t)(i := pages ! ?r), io_outcome := io\<rparr>" "f = None"
        by (simp_all add: u(1) slot_defs)
      with 2 u(2) show ?thesis by (auto simp: file_page_def)
    next
      case 3
      with read assms(1) absent show ?thesis by (simp add: file_page_def)
    qed
  qed
qed

lemma RecentlyUsed_replaced: "slot_replaced t (SlruRecentlyUsed s k) i p ok d = slot_replaced t s i p ok d"
proof -
  have "file_page (SlruRecentlyUsed s k) = file_page s" "lsns_flushed (SlruRecentlyUsed s k) = lsns_flushed s"
    using SlruRecentlyUsed_eq [of s k] by (auto simp: lsns_flushed_def fun_eq_iff intro: file_page_cong [THEN fun_cong])
  then show ?thesis by (simp add: slot_replaced_def lsns_same_def)
qed

lemma read_into_replaced:
  assumes inv: "slru_inv t" and r: "read_into t i p = (s', r)"
  shows "slot_replaced t s' i p (\<not> isl r) False" "latest_page_number s' = latest_page_number t"
    "set (io_outcome s') \<subseteq> set (io_outcome t)" "isl r \<Longrightarrow> \<not> io_fine t \<or> file_page t p = None" "r = Inr k \<Longrightarrow> k = i"
proof -
  let ?t = "set_dirty (set_status (set_number t i p) i SLRU_PAGE_READ_IN_PROGRESS) i False"
  obtain u f where u: "SlruPhysicalReadPage ?t p i = (u, f)" by fastforce
  from inv have nr: "\<not> InRecovery ?t" by (simp add: slru_inv_def slot_defs)
  have ft: "file_page ?t = file_page t" by (rule file_page_cong) (simp add: slot_defs)
  from phys_read_eq [OF u nr] obtain io b where
    ue: "u = ?t\<lparr>page_buffer := (page_buffer ?t)(i := b), io_outcome := io\<rparr>" and io: "set io \<subseteq> set (io_outcome ?t)"
    and res: "if f = None then file_page ?t p = Some b else \<not> io_fine ?t \<or> file_page ?t p = None" by blast
  have "io_fine ?t = io_fine t" by (simp add: io_fine_def slot_defs)
  note res = res [unfolded ft this]
  let ?w = "set_status (SimpleLruZeroLSNs u i) i (if f = None then SLRU_PAGE_VALID else SLRU_PAGE_EMPTY)"
  from r u have s': "s' = (if f = None then SlruRecentlyUsed ?w i else ?w)" and rf: "isl r = (f \<noteq> None)" "f = None \<longrightarrow> r = Inr i"
    by (auto simp: read_into_def Let_def split: option.splits)
  have fl: "lsns_flushed ?w i" "lsns_same t ?w i"
    using ZeroLSNs_flushed [of u i] ZeroLSNs_same [of u i] by (auto simp: lsns_flushed_def lsns_same_def ue slot_defs)
  have "slot_replaced t ?w i p (\<not> isl r) False"
    unfolding slot_replaced_def
  proof (intro conjI)
    show "file_page ?w = file_page t" by (rule file_page_cong) (simp add: slot_defs ue)
    show "\<not> isl r \<and> \<not> False \<longrightarrow> file_page t p = Some (page_buffer ?w i)"
      using res rf by (auto simp: slot_defs ue)
    show "same_ctl t ?w" by (simp add: same_ctl_def slot_defs ue SimpleLruZeroLSNs_def)
    show "lsns_same t ?w i" "lsns_flushed ?w i" using fl by blast+
  qed (use rf in \<open>simp_all add: slot_defs ue\<close>)
  then show "slot_replaced t s' i p (\<not> isl r) False" by (cases f) (simp_all add: s' RecentlyUsed_replaced)
  show "latest_page_number s' = latest_page_number t" "set (io_outcome s') \<subseteq> set (io_outcome t)"
    using io by (auto simp: s' slot_defs ue)
  show "isl r \<Longrightarrow> \<not> io_fine t \<or> file_page t p = None" using res rf by auto
  show "r = Inr k \<Longrightarrow> k = i" using rf by (cases f) auto
qed

definition read_post :: "Slru \<Rightarrow> nat \<Rightarrow> bool \<Rightarrow> (Slru \<times> nat result) option \<Rightarrow> bool" where
  "read_post s p write_ok res \<longleftrightarrow>
     (case res of
        None \<Rightarrow> False
      | Some (s', Inl e) \<Rightarrow> keeps s s' \<and> (\<not> io_fine s \<or> stored s p = None)
      | Some (s', Inr i) \<Rightarrow> keeps s s' \<and> i < num_slots s \<and> page_number s' i = p \<and> holds_page s' i
          \<and> (page_status s' i = SLRU_PAGE_VALID \<or> write_ok))"

lemma keeps_stored: "keeps s t \<Longrightarrow> stored s p = Some x \<Longrightarrow> stored t p = Some x"
  by (auto simp: keeps_def dest: map_leD)

lemma keeps_stored_None: "keeps s t \<Longrightarrow> stored t p = None \<Longrightarrow> stored s p = None"
  using keeps_stored [of s t p] by (cases "stored s p") auto

lemma read_post_trans:
  assumes k: "keeps s t" and r: "read_post t p w res"
  shows "read_post s p w res"
proof (cases res)
  case None
  with r show ?thesis by (simp add: read_post_def)
next
  case (Some x)
  obtain s' q where x: "x = (s', q)" by fastforce
  from r Some x have "keeps t s'" by (cases q) (auto simp: read_post_def)
  then have ks: "keeps s s'" by (rule keeps_trans [OF k])
  have n: "num_slots t = num_slots s" using k by (simp add: keeps_def same_ctl_def)
  show ?thesis
  proof (cases q)
    case (Inl e)
    with r Some x have "\<not> io_fine t \<or> stored t p = None" by (simp add: read_post_def)
    with io_fine_keeps [OF k] keeps_stored_None [OF k] ks show ?thesis by (auto simp: read_post_def Some x Inl)
  next
    case (Inr i)
    with r Some x ks n show ?thesis by (simp add: read_post_def)
  qed
qed

lemma slot_free_new:
  "i < num_slots t \<Longrightarrow> find_slot t p = None \<Longrightarrow>
    page_status t i = SLRU_PAGE_EMPTY \<or> page_status t i = SLRU_PAGE_VALID \<and> \<not> page_dirty t i \<Longrightarrow> slot_free_for t i p"
  by (auto simp: slot_free_for_def find_slot_None)

lemma read_into_post:
  assumes "slru_inv t" and "slot_free_for t i p" and none: "find_slot t p = None"
  shows "read_post t p w (Some (read_into t i p))"
proof -
  obtain s' r where r: "read_into t i p = (s', r)" by fastforce
  note ri = read_into_replaced [OF assms(1) r]
  note rep = slot_replaced_inv [OF assms(1,2) ri(1)] slot_replaced_stored [OF assms(1,2) ri(1)]
  have on_file: "stored t p = file_page t p"
    using none by (intro stored_not_held) (auto simp: find_slot_None holds_page_def)
  have "stored s' = stored t"
    using rep(2) on_file ri(1) by (auto simp: slot_replaced_def fun_upd_idem_iff)
  moreover have "lsns_kept t s'"
    by (rule slot_replaced_lsns [OF assms(1,2) ri(1)]) (use assms(2) none in \<open>auto simp: slot_free_for_def find_slot_None\<close>)
  ultimately have "keeps t s'" using rep(1) ri by (auto simp: keeps_def slot_replaced_def)
  with ri on_file assms(2) show ?thesis
    by (cases r) (auto simp: read_post_def r slot_replaced_def slot_free_for_def holds_page_def)
qed

lemma SimpleLruReadPage_post: "slru_inv s \<Longrightarrow> read_post s p w (SimpleLruReadPage s p w)"
proof (induction "work s" arbitrary: s rule: less_induct)
  case less
  from SlruSelectLRUPage_post [OF less.prems, of p]
  consider (failed) t e where "SlruSelectLRUPage s p = Some (t, Inl e)" "keeps s t" "\<not> io_fine s"
    | (found) t i where "SlruSelectLRUPage s p = Some (t, Inr i)" "keeps s t" "work t \<le> work s" "i < num_slots s"
        "page_number t i = p" "page_status t i \<noteq> SLRU_PAGE_EMPTY"
    | (new) t i where "SlruSelectLRUPage s p = Some (t, Inr i)" "keeps s t" "i < num_slots t"
        "find_slot t p = None" "slot_free_for t i p"
    using slot_free_new
    by (fastforce simp: select_post_def keeps_def same_ctl_def split: option.splits prod.splits sum.splits)
  then show ?case
  proof cases
    case failed
    then show ?thesis by (subst SimpleLruReadPage.simps) (simp add: read_post_def)
  next
    case (found t i)
    have inv_t: "slru_inv t" and n: "num_slots t = num_slots s" using found(2) by (auto simp: keeps_def same_ctl_def)
    show ?thesis
    proof (cases "page_status t i = SLRU_PAGE_READ_IN_PROGRESS \<or> page_status t i = SLRU_PAGE_WRITE_IN_PROGRESS \<and> \<not> w")
      case True
      then have "work (SimpleLruWaitIO t i) < work s" using WaitIO_work [of i t] inv_t found(3,4) n by auto
      from less.hyps [OF this WaitIO_inv [OF inv_t]] have "read_post s p w (SimpleLruReadPage (SimpleLruWaitIO t i) p w)"
        by (rule read_post_trans [OF keeps_trans [OF found(2) keeps_WaitIO [OF inv_t]]])
      with True found show ?thesis by (subst SimpleLruReadPage.simps) simp
    next
      case False
      have "keeps s (SlruRecentlyUsed t i)" using found(2) by simp
      with False found show ?thesis
        by (subst SimpleLruReadPage.simps) (cases "page_status t i"; simp add: read_post_def holds_page_def)
    qed
  next
    case (new t i)
    have inv_t: "slru_inv t" using new(2) by (simp add: keeps_def)
    have "SimpleLruReadPage s p w = Some (read_into t i p)"
      using new by (subst SimpleLruReadPage.simps) (auto simp: find_slot_None)
    with read_post_trans [OF new(2) read_into_post [OF inv_t new(5,4)]] show ?thesis by simp
  qed
qed

lemma SimpleLruReadPage_ReadOnly_post:
  assumes "slru_inv s"
  shows "read_post s p True (SimpleLruReadPage_ReadOnly s p)"
proof (cases "holder s p")
  case None
  with SimpleLruReadPage_post [OF assms] show ?thesis
    by (simp add: SimpleLruReadPage_ReadOnly_def holder_def holds_page_def)
next
  case (Some i)
  then have "i < num_slots s" "page_number s i = p" "holds_page s i" by (auto simp: holder_def dest: find_upt_Some)
  moreover have "SimpleLruReadPage_ReadOnly s p = Some (SlruRecentlyUsed s i, Inr i)"
    using Some by (simp add: SimpleLruReadPage_ReadOnly_def holder_def holds_page_def)
  moreover have "keeps s (SlruRecentlyUsed s i)" using keeps_refl [OF assms] by simp
  ultimately show ?thesis by (simp add: read_post_def holds_page_def)
qed

definition zero_post :: "Slru \<Rightarrow> nat \<Rightarrow> (Slru \<times> nat result) option \<Rightarrow> bool" where
  "zero_post s p res \<longleftrightarrow>
     (case res of
        None \<Rightarrow> False
      | Some (s', Inl e) \<Rightarrow> keeps s s' \<and> \<not> io_fine s
      | Some (s', Inr i) \<Rightarrow> slru_inv s' \<and> same_ctl s s' \<and> latest_page_number s' = p \<and> i < num_slots s
          \<and> page_number s' i = p \<and> holds_page s' i \<and> (stored s)(p \<mapsto> zeroes) \<subseteq>\<^sub>m stored s' \<and> (io_fine s \<longrightarrow> io_fine s')
          \<and> new_pages_zero s s' \<and> wal_flushed s \<le> wal_flushed s'
          \<and> (\<forall>q g lsn. q \<noteq> p \<longrightarrow> g < lsn_groups_per_page s \<longrightarrow> lsn_covered s q g lsn \<longrightarrow> lsn_covered s' q g lsn))"

lemma slot_free_found:
  "slru_inv t \<Longrightarrow> i < num_slots t \<Longrightarrow> page_number t i = p \<Longrightarrow> page_status t i \<noteq> SLRU_PAGE_EMPTY \<Longrightarrow> slot_free_for t i p"
  unfolding slru_inv_def distinct_pages_def slot_free_for_def by blast

lemma SlruSelectLRUPage_cases:
  assumes "slru_inv s"
  obtains (failed) t e where "SlruSelectLRUPage s p = Some (t, Inl e)" "keeps s t" "\<not> io_fine s"
  | (chosen) t i where "SlruSelectLRUPage s p = Some (t, Inr i)" "keeps s t" "slot_free_for t i p"
proof -
  obtain t r where tr: "SlruSelectLRUPage s p = Some (t, r)"
    using SlruSelectLRUPage_post [OF assms, of p] by (cases "SlruSelectLRUPage s p") (auto simp: select_post_def)
  note post = SlruSelectLRUPage_post [OF assms, of p, unfolded tr select_post_def]
  show ?thesis
  proof (cases r)
    case (Inl e)
    with post tr failed show ?thesis by simp
  next
    case (Inr i)
    with post have k: "keeps s t" and i: "i < num_slots t" by (auto simp: keeps_def same_ctl_def)
    then have "slru_inv t" by (simp add: keeps_def)
    from post Inr slot_free_found [OF this i] slot_free_new [OF i, of p] have "slot_free_for t i p" by auto
    with k tr Inr chosen show ?thesis by simp
  qed
qed

lemma SimpleLruZeroPage_post:
  assumes "slru_inv s"
  shows "zero_post s p (SimpleLruZeroPage s p)"
  using assms
proof (cases rule: SlruSelectLRUPage_cases [of s p])
  case (failed t e)
  then show ?thesis by (simp add: SimpleLruZeroPage_def zero_post_def)
next
  case (chosen t i)
  let ?u = "set_buffer (SlruRecentlyUsed (set_dirty (set_status (set_number t i p) i SLRU_PAGE_VALID) i True) i) i zeroes"
  let ?v = "SimpleLruZeroLSNs ?u i" and ?w = "(SimpleLruZeroLSNs ?u i)\<lparr>latest_page_number := p\<rparr>"
  have z: "SimpleLruZeroPage s p = Some (?w, Inr i)" using chosen by (simp add: SimpleLruZeroPage_def Let_def)
  have inv_t: "slru_inv t" using chosen(2) by (simp add: keeps_def)
  have fl: "lsns_same t ?v i" using ZeroLSNs_same [of ?u i] by (simp add: lsns_same_def slot_defs)
  have ctl: "same_ctl t ?v" by (simp add: same_ctl_def SimpleLruZeroLSNs_def slot_defs SlruRecentlyUsed_def Let_def)
  have "slot_replaced t ?v i p True True"
    unfolding slot_replaced_def
  proof (intro conjI)
    show "file_page ?v = file_page t"
      by (rule file_page_cong) (simp add: slot_defs SlruRecentlyUsed_def Let_def)
    show "lsns_same t ?v i" "lsns_flushed ?v i" using fl ZeroLSNs_flushed by blast+
  qed (use ctl in \<open>simp_all add: slot_defs\<close>)
  note rep = this
  from slot_replaced_inv [OF inv_t chosen(3) rep] slot_replaced_stored [OF inv_t chosen(3) rep]
  have v: "slru_inv ?v" "stored ?v = (stored t)(p \<mapsto> zeroes)" by (simp_all add: slot_defs)
  have "stored ?w = stored ?v" by (rule stored_cong) (simp_all add: fun_eq_iff holds_page_def file_page_def seg_file_def)
  moreover have "slru_inv ?w = slru_inv ?v"
    by (simp add: slru_inv_def distinct_pages_def slot_ok_def lsns_flushed_def holds_page_def file_page_def seg_file_def)
  moreover have "same_ctl s ?w" using chosen(2) ctl by (simp add: keeps_def same_ctl_def)
  moreover have "(stored s)(p \<mapsto> zeroes) \<subseteq>\<^sub>m (stored t)(p \<mapsto> zeroes)"
    using chosen(2) by (auto simp: keeps_def intro: map_le_upd)
  moreover have "new_pages_zero s ?w"
    using chosen(2) \<open>stored ?w = stored ?v\<close> v(2) by (auto simp: keeps_def new_pages_zero_def)
  moreover have "lsn_covered ?w q g lsn" if "q \<noteq> p" "g < lsn_groups_per_page s" "lsn_covered s q g lsn" for q g lsn
  proof -
    from chosen(2) that have "lsn_covered t q g lsn" "g < lsn_groups_per_page t" by (auto simp: keeps_def lsns_kept_def same_ctl_def)
    with slot_replaced_covered [OF inv_t chosen(3) rep] that(1) have "lsn_covered ?v q g lsn" by blast
    then show ?thesis by (simp add: lsn_covered_def holds_page_def)
  qed
  moreover have "wal_flushed s \<le> wal_flushed ?w" using chosen(2) fl by (simp add: keeps_def lsns_kept_def lsns_same_def)
  moreover have "io_outcome ?w = io_outcome t" by (simp add: slot_defs)
  moreover have "i < num_slots s" using chosen(2,3) by (simp add: slot_free_for_def keeps_def same_ctl_def)
  ultimately show ?thesis using v io_fine_keeps [OF chosen(2)]
    by (simp add: zero_post_def z holds_page_def slot_defs io_fine_def)
qed

section \<open>Changing a page in its buffer\<close>

text \<open>What the clients do with a slot: change the buffer, perhaps raise the LSN of one of its groups,
  and mark the slot dirty.\<close>

lemma dirty_slot:
  assumes inv: "slru_inv s" and i: "i < num_slots s" "holds_page s i"
    and s': "s' = s\<lparr>page_buffer := (page_buffer s)(i := b), page_dirty := (page_dirty s)(i := True), group_lsn := g\<rparr>"
    and g: "\<And>j k. j \<noteq> i \<Longrightarrow> k < lsn_groups_per_page s \<Longrightarrow> g (j * lsn_groups_per_page s + k) = group_lsn s (j * lsn_groups_per_page s + k)"
  shows "slru_inv s'" "stored s' = (stored s)(page_number s i \<mapsto> b)"
proof -
  have fp: "file_page s' = file_page s" unfolding s' by (rule file_page_cong) simp
  have hp: "holds_page s' = holds_page s" by (simp add: s' holds_page_def fun_eq_iff)
  from inv have d: "distinct_pages s" and ok: "\<And>j. j < num_slots s \<Longrightarrow> slot_ok s j" by (auto simp: slru_inv_def)
  have d': "distinct_pages s'" using d by (simp add: s' distinct_pages_def)
  have "slot_ok s' j" if "j < num_slots s" for j
    using ok [OF that] i(2) g [of j] by (cases "j = i") (auto simp: slot_ok_def fp hp, auto simp: s' lsns_flushed_def)
  with inv d' show "slru_inv s'" by (simp add: slru_inv_def s')
  show "stored s' = (stored s)(page_number s i \<mapsto> b)"
  proof
    fix q
    show "stored s' q = ((stored s)(page_number s i \<mapsto> b)) q"
    proof (cases "q = page_number s i")
      case True
      with stored_held [OF d', of i] i show ?thesis by (simp add: hp) (simp add: s')
    next
      case False
      show ?thesis using d
      proof (cases rule: stored_cases [of s q])
        case (buffered j)
        with False stored_held [OF d', of j] show ?thesis by (simp add: hp) (auto simp: s')
      next
        case on_disk
        with False stored_not_held [of s' q] show ?thesis by (simp add: hp fp) (simp add: s')
      qed
    qed
  qed
qed

end
