(* ===== verification/SlruStore.thy ===== *)
theory SlruStore
  imports Slru
begin

text \<open>
  The page store that the SLRU pool implements: flushing, truncation, the interface its clients
  rely on, and the properties of the pool.
\<close>

section \<open>Flushing\<close>







lemma WaitIO_sync [simp]: "unsynced (SimpleLruWaitIO s i) = unsynced s" "do_fsync (SimpleLruWaitIO s i) = do_fsync s"
  by (simp_all add: SimpleLruWaitIO_def slot_defs)





section \<open>Truncation\<close>

lemma empty_clean:
  assumes inv: "slru_inv t" and i: "i < num_slots t" "page_status t i = SLRU_PAGE_VALID" "\<not> page_dirty t i"
  shows "keeps t (set_status t i SLRU_PAGE_EMPTY)" "work (set_status t i SLRU_PAGE_EMPTY) = work t"
proof -
  let ?s = "set_status t i SLRU_PAGE_EMPTY" and ?p = "page_number t i"
  have ok: "slot_ok t i" using inv i(1) by (simp add: slru_inv_def)
  have fp: "file_page ?s = file_page t" by (rule file_page_cong) (simp add: slot_defs)
  have fl: "lsns_flushed ?s = lsns_flushed t" by (simp add: lsns_flushed_def fun_eq_iff slot_defs)
  have r: "slot_replaced t ?s i ?p False False"
    using ok i fp fl unfolding slot_replaced_def by (auto simp: same_ctl_def slot_defs slot_ok_def lsns_same_def fun_eq_iff)
  have free: "slot_free_for t i ?p" by (rule slot_free_found [OF inv i(1) refl]) (simp add: i)
  have "stored t ?p = file_page t ?p"
    using stored_held [of t i] inv i ok by (simp add: slru_inv_def slot_ok_def holds_page_def)
  with slot_replaced_stored [OF inv free r] have "stored ?s = stored t" by (simp add: fun_upd_idem_iff)
  moreover have "lsns_kept t ?s" by (rule slot_replaced_lsns [OF inv free r]) (simp add: i)
  ultimately show "keeps t ?s" using slot_replaced_inv [OF inv free r] by (simp add: keeps_def same_ctl_def slot_defs)
  have "slot_work ?s j = slot_work t j" for j using i by (auto simp: slot_work_def slot_defs)
  then show "work ?s = work t" by (simp add: work_def slot_defs)
qed

definition gone :: "Slru \<Rightarrow> nat \<Rightarrow> nat \<Rightarrow> bool" where
  "gone s c i \<longleftrightarrow> page_status s i = SLRU_PAGE_EMPTY \<or> \<not> PagePrecedes s (page_number s i) c"

lemma gone_mono:
  "gone s c i \<Longrightarrow> same_ctl s s' \<Longrightarrow> page_number s' = page_number s \<Longrightarrow>
    page_status s' i = page_status s i \<or> page_status s' i = SLRU_PAGE_EMPTY \<Longrightarrow> gone s' c i"
  by (auto simp: gone_def same_ctl_def)

lemma internal_write_work:
  assumes "slru_inv s" and "i < num_slots s" and "page_status s i = SLRU_PAGE_VALID" and "page_dirty s i"
    and "SlruInternalWritePage s i None = (s', Inr fd)"
  shows "work s' < work s"
proof (rule work_less [OF _ assms(2)])
  note iw = internal_write [OF assms(1,2,5)]
  show "num_slots s' = num_slots s" using iw(1) by (simp add: keeps_def same_ctl_def)
  show "slot_work s' i < slot_work s i" using assms(3,4) by (simp add: slot_work_def iw(4,5))
  show "j \<noteq> i \<Longrightarrow> slot_work s' j = slot_work s j" for j using assms(3) by (simp add: slot_work_def iw(4,5))
qed

lemma truncate_scan_spec:
  assumes "slru_inv s" and "\<forall>i \<in> set is. i < num_slots s" and "truncate_scan c is s = (s', r)"
  shows "keeps s s' \<and>
    (case r of
       Inl e \<Rightarrow> \<not> io_fine s
     | Inr fin \<Rightarrow> if fin then work s' = work s \<and> page_number s' = page_number s
                       \<and> (\<forall>j. page_status s' j = page_status s j \<or> page_status s' j = SLRU_PAGE_EMPTY) \<and> (\<forall>i \<in> set is. gone s' c i)
                else work s' < work s)"
  using assms
proof (induction "is" arbitrary: s)
  case Nil
  then show ?case by (auto simp: keeps_refl)
next
  case (Cons i "is")
  from Cons.prems have i: "i < num_slots s" and is': "\<forall>i \<in> set is. i < num_slots s" by simp_all
  consider (skip) "gone s c i" | (clean) "\<not> gone s c i" "page_status s i = SLRU_PAGE_VALID" "\<not> page_dirty s i"
    | (dirty) "\<not> gone s c i" "page_status s i = SLRU_PAGE_VALID" "page_dirty s i"
    | (busy) "\<not> gone s c i" "page_status s i \<in> {SLRU_PAGE_READ_IN_PROGRESS, SLRU_PAGE_WRITE_IN_PROGRESS}"
    by (cases "page_status s i") (auto simp: gone_def)
  then show ?case
  proof cases
    case skip
    with Cons.prems(3) have "truncate_scan c is s = (s', r)" by (auto simp: gone_def)
    note IH = Cons.IH [OF Cons.prems(1) is' this]
    then have "same_ctl s s'" by (simp add: keeps_def)
    with IH gone_mono [OF skip] show ?thesis by (cases r) (auto split: if_splits)
  next
    case clean
    let ?t = "set_status s i SLRU_PAGE_EMPTY"
    note e = empty_clean [OF Cons.prems(1) i clean(2,3)]
    have t: "slru_inv ?t" "num_slots ?t = num_slots s" using e(1) by (auto simp: keeps_def same_ctl_def)
    from clean Cons.prems(3) have "truncate_scan c is ?t = (s', r)" by (auto simp: gone_def)
    from Cons.IH [OF t(1) _ this] is' t(2)
    have IH: "keeps ?t s'" and R: "case r of
       Inl e \<Rightarrow> \<not> io_fine ?t
     | Inr fin \<Rightarrow> if fin then work s' = work ?t \<and> page_number s' = page_number ?t
                       \<and> (\<forall>j. page_status s' j = page_status ?t j \<or> page_status s' j = SLRU_PAGE_EMPTY) \<and> (\<forall>i \<in> set is. gone s' c i)
                else work s' < work ?t" by auto
    have "io_fine s \<Longrightarrow> io_fine ?t" by (rule io_fine_keeps [OF e(1)])
    moreover have "gone s' c i" if "page_number s' = page_number ?t" "page_status s' i = page_status ?t i \<or> page_status s' i = SLRU_PAGE_EMPTY"
      using that by (auto simp: gone_def slot_defs)
    moreover have "page_number ?t = page_number s" by (simp add: slot_defs)
    moreover have "page_status s' j = page_status s j \<or> page_status s' j = SLRU_PAGE_EMPTY"
      if "page_status s' j = page_status ?t j \<or> page_status s' j = SLRU_PAGE_EMPTY" for j
      using that by (auto simp: slot_defs split: if_splits)
    ultimately show ?thesis using keeps_trans [OF e(1) IH] R e(2) by (cases r) (auto split: if_splits)
  next
    case dirty
    obtain t w where w: "SlruInternalWritePage s i None = (t, w)" by fastforce
    note iw = internal_write [OF Cons.prems(1) i w]
    show ?thesis
    proof (cases w)
      case (Inl e)
      with dirty Cons.prems(3) w iw(1,6) show ?thesis by (auto simp: gone_def io_fine_def)
    next
      case (Inr fd)
      with dirty Cons.prems(3) w have "s' = t" "r = Inr False" by (auto simp: gone_def)
      with iw(1) internal_write_work [OF Cons.prems(1) i dirty(2,3), of t fd] w Inr show ?thesis by simp
    qed
  next
    case busy
    with Cons.prems(3) have "s' = SimpleLruWaitIO s i" "r = Inr False" by (auto simp: gone_def)
    with keeps_WaitIO [OF Cons.prems(1)] WaitIO_work [OF i busy(2) Cons.prems(1)] show ?thesis by simp
  qed
qed

definition truncate_loop_post :: "Slru \<Rightarrow> nat \<Rightarrow> (Slru \<times> bool result) option \<Rightarrow> bool" where
  "truncate_loop_post s c res \<longleftrightarrow>
     (case res of
        None \<Rightarrow> False
      | Some (s', Inl e) \<Rightarrow> keeps s s' \<and> \<not> io_fine s
      | Some (s', Inr fin) \<Rightarrow> keeps s s' \<and> fin = (\<not> PagePrecedes s (latest_page_number s) c)
          \<and> (fin \<longrightarrow> (\<forall>i < num_slots s. gone s' c i)))"

lemma truncate_loop_post_trans:
  assumes k: "keeps s t" and r: "truncate_loop_post t c res"
  shows "truncate_loop_post s c res"
proof -
  from r obtain s' q where q: "res = Some (s', q)" by (cases res) (auto simp: truncate_loop_post_def)
  with r have "keeps t s'" by (cases q) (auto simp: truncate_loop_post_def)
  with k have "keeps s s'" by (rule keeps_trans)
  moreover have "num_slots t = num_slots s" "latest_page_number t = latest_page_number s" "PagePrecedes t = PagePrecedes s"
    using k by (auto simp: keeps_def same_ctl_def)
  ultimately show ?thesis using r q io_fine_keeps [OF k] by (cases q) (auto simp: truncate_loop_post_def)
qed

lemma truncate_loop_ends: "slru_inv s \<Longrightarrow> truncate_loop_post s c (truncate_loop s c)"
proof (induction "work s" arbitrary: s rule: less_induct)
  case less
  show ?case
  proof (cases "PagePrecedes s (latest_page_number s) c")
    case True
    then show ?thesis using keeps_refl [OF less.prems] by (subst truncate_loop.simps) (simp add: truncate_loop_post_def)
  next
    case False
    obtain t r where t: "truncate_scan c [0..<num_slots s] s = (t, r)" by fastforce
    note sc = truncate_scan_spec [OF less.prems _ t]
    show ?thesis
    proof (cases r)
      case (Inl e)
      with sc False show ?thesis by (subst truncate_loop.simps) (auto simp: t truncate_loop_post_def)
    next
      case (Inr fin)
      show ?thesis
      proof (cases fin)
        case True
        with sc Inr False show ?thesis by (subst truncate_loop.simps) (auto simp: t truncate_loop_post_def)
      next
        case no: False
        with sc Inr have kt: "keeps s t" and "work t < work s" by auto
        with less.hyps [of t] have "truncate_loop_post t c (truncate_loop t c)" by (simp add: keeps_def)
        with truncate_loop_post_trans [OF kt] False no Inr show ?thesis by (subst truncate_loop.simps) (simp add: t)
      qed
    qed
  qed
qed

lemma delete_cutoff_scan:
  "\<exists>d. fst (SlruScanDirectory (SlruScanDirCbDeleteCutoff c) s segs) = s\<lparr>slru_dir := d\<rparr>
     \<and> map_of d = (\<lambda>g. if g \<in> set segs \<and> PagePrecedes s (g * SLRU_PAGES_PER_SEGMENT) c then None else map_of (slru_dir s) g)"
proof (induction segs arbitrary: s)
  case Nil
  show ?case by (intro exI [of _ "slru_dir s"]) simp
next
  case (Cons g segs)
  let ?s = "if PagePrecedes s (g * SLRU_PAGES_PER_SEGMENT) c then SlruInternalDeleteSegment s g else s"
  obtain d where d: "fst (SlruScanDirectory (SlruScanDirCbDeleteCutoff c) ?s segs) = ?s\<lparr>slru_dir := d\<rparr>"
    "map_of d = (\<lambda>h. if h \<in> set segs \<and> PagePrecedes ?s (h * SLRU_PAGES_PER_SEGMENT) c then None else map_of (slru_dir ?s) h)"
    using Cons.IH by blast
  have "fst (SlruScanDirectory (SlruScanDirCbDeleteCutoff c) s (g # segs)) = s\<lparr>slru_dir := d\<rparr>"
    using d(1) by (simp add: SlruScanDirCbDeleteCutoff_def SlruInternalDeleteSegment_def split: if_splits)
  moreover have "map_of d = (\<lambda>h. if h \<in> set (g # segs) \<and> PagePrecedes s (h * SLRU_PAGES_PER_SEGMENT) c then None else map_of (slru_dir s) h)"
    using d(2) by (auto simp: SlruInternalDeleteSegment_def fun_eq_iff delete_conv')
  ultimately show ?case by blast
qed

lemma delete_cutoff:
  obtains d where "fst (SlruScanDirectory (SlruScanDirCbDeleteCutoff c) s (map fst (slru_dir s))) = s\<lparr>slru_dir := d\<rparr>"
    "\<And>q. file_page (s\<lparr>slru_dir := d\<rparr>) q =
       (if PagePrecedes s (q div SLRU_PAGES_PER_SEGMENT * SLRU_PAGES_PER_SEGMENT) c then None else file_page s q)"
proof -
  from delete_cutoff_scan [of c s "map fst (slru_dir s)"] obtain d where
    d: "fst (SlruScanDirectory (SlruScanDirCbDeleteCutoff c) s (map fst (slru_dir s))) = s\<lparr>slru_dir := d\<rparr>"
    "map_of d = (\<lambda>g. if g \<in> set (map fst (slru_dir s)) \<and> PagePrecedes s (g * SLRU_PAGES_PER_SEGMENT) c then None else map_of (slru_dir s) g)"
    by blast
  have absent: "g \<notin> fst ` set (slru_dir s) \<Longrightarrow> map_of (slru_dir s) g = None" for g by (simp add: map_of_eq_None_iff)
  show ?thesis by (rule that [OF d(1)]) (auto simp: file_page_def seg_file_def d(2) absent)
qed

text \<open>Deleting the old segments from a pool that no longer holds their pages.\<close>

lemma delete_old:
  assumes inv: "slru_inv s" and gone: "\<forall>i < num_slots s. gone s c i"
    and closed: "\<And>q. PagePrecedes s (q div SLRU_PAGES_PER_SEGMENT * SLRU_PAGES_PER_SEGMENT) c \<Longrightarrow> PagePrecedes s q c"
    and fp: "\<And>q. file_page (s\<lparr>slru_dir := d\<rparr>) q =
       (if PagePrecedes s (q div SLRU_PAGES_PER_SEGMENT * SLRU_PAGES_PER_SEGMENT) c then None else file_page s q)"
  shows "slru_inv (s\<lparr>slru_dir := d\<rparr>)"
    "stored (s\<lparr>slru_dir := d\<rparr>) q =
       (if PagePrecedes s (q div SLRU_PAGES_PER_SEGMENT * SLRU_PAGES_PER_SEGMENT) c then None else stored s q)"
proof -
  let ?s = "s\<lparr>slru_dir := d\<rparr>"
  from inv have d: "distinct_pages s" and ok: "\<And>i. i < num_slots s \<Longrightarrow> slot_ok s i" by (auto simp: slru_inv_def)
  have young: "\<not> PagePrecedes s (page_number s i div SLRU_PAGES_PER_SEGMENT * SLRU_PAGES_PER_SEGMENT) c"
    if "i < num_slots s" "page_status s i \<noteq> SLRU_PAGE_EMPTY" for i
  proof
    assume "PagePrecedes s (page_number s i div SLRU_PAGES_PER_SEGMENT * SLRU_PAGES_PER_SEGMENT) c"
    then have "PagePrecedes s (page_number s i) c" by (rule closed)
    with gone that show False unfolding gone_def by blast
  qed
  have "slot_ok ?s i" if i: "i < num_slots s" for i
  proof -
    have fpi: "file_page ?s (page_number s i) = file_page s (page_number s i)" if "page_status s i = SLRU_PAGE_VALID"
      using fp [of "page_number s i"] young [OF i] that by simp
    have "page_number ?s = page_number s" "page_status ?s = page_status s" "page_dirty ?s = page_dirty s"
      "page_buffer ?s = page_buffer s" "lsns_flushed ?s i = lsns_flushed s i" "holds_page ?s i = holds_page s i"
      by (simp_all add: lsns_flushed_def holds_page_def)
    with ok [OF i] fpi show ?thesis by (simp add: slot_ok_def)
  qed
  with inv show "slru_inv ?s" by (simp add: slru_inv_def distinct_pages_def)
  have d': "distinct_pages ?s" using d by (simp add: distinct_pages_def)
  have same: "num_slots ?s = num_slots s" "page_number ?s = page_number s" "holds_page ?s = holds_page s" "page_buffer ?s = page_buffer s"
    by (simp_all add: holds_page_def fun_eq_iff)
  from d show "stored ?s q = (if PagePrecedes s (q div SLRU_PAGES_PER_SEGMENT * SLRU_PAGES_PER_SEGMENT) c then None else stored s q)"
  proof (cases rule: stored_cases [of s q])
    case (buffered i)
    then have "\<not> PagePrecedes s (q div SLRU_PAGES_PER_SEGMENT * SLRU_PAGES_PER_SEGMENT) c"
      using young [of i] by (simp add: holds_page_def)
    with buffered stored_held [OF d', of i] show ?thesis by (simp only: same if_False)
  next
    case on_disk
    with stored_not_held [of ?s q] fp [of q] show ?thesis by (simp add: same)
  qed
qed

definition truncate_post :: "Slru \<Rightarrow> nat \<Rightarrow> (Slru \<times> bool result) option \<Rightarrow> bool" where
  "truncate_post s c res \<longleftrightarrow>
     (case res of
        None \<Rightarrow> False
      | Some (s', Inl e) \<Rightarrow> keeps s s' \<and> \<not> io_fine s
      | Some (s', Inr fin) \<Rightarrow> slru_inv s' \<and> same_ctl s s' \<and> fin = (\<not> PagePrecedes s (latest_page_number s) c)
          \<and> (\<forall>q. if fin \<and> PagePrecedes s (q div SLRU_PAGES_PER_SEGMENT * SLRU_PAGES_PER_SEGMENT) c
                 then stored s' q = None else \<forall>x. stored s q = Some x \<longrightarrow> stored s' q = Some x))"

lemma SimpleLruTruncate_post:
  assumes inv: "slru_inv s"
    and closed: "\<And>q. PagePrecedes s (q div SLRU_PAGES_PER_SEGMENT * SLRU_PAGES_PER_SEGMENT) (p - p mod SLRU_PAGES_PER_SEGMENT)
       \<Longrightarrow> PagePrecedes s q (p - p mod SLRU_PAGES_PER_SEGMENT)"
  shows "truncate_post s (p - p mod SLRU_PAGES_PER_SEGMENT) (SimpleLruTruncate s p)"
proof -
  let ?c = "p - p mod SLRU_PAGES_PER_SEGMENT"
  note loop = truncate_loop_ends [OF inv, of ?c]
  then obtain t r where t: "truncate_loop s ?c = Some (t, r)" by (cases "truncate_loop s ?c") (auto simp: truncate_loop_post_def)
  note loop = loop [unfolded t truncate_loop_post_def]
  from loop have kt: "keeps s t" by (cases r) auto
  then have tf: "slru_inv t" "same_ctl s t" "PagePrecedes t = PagePrecedes s" "num_slots t = num_slots s" by (auto simp: keeps_def same_ctl_def)
  consider (failed) e where "r = Inl e" | (wrapped) "r = Inr False" | (cleaned) "r = Inr True" by (cases r) auto
  then show ?thesis
  proof cases
    case failed
    with loop show ?thesis by (simp add: SimpleLruTruncate_def Let_def t truncate_post_def)
  next
    case wrapped
    with loop tf keeps_stored [OF kt] show ?thesis by (simp add: SimpleLruTruncate_def Let_def t truncate_post_def)
  next
    case cleaned
    obtain d where d: "fst (SlruScanDirectory (SlruScanDirCbDeleteCutoff ?c) t (map fst (slru_dir t))) = t\<lparr>slru_dir := d\<rparr>"
      "\<And>q. file_page (t\<lparr>slru_dir := d\<rparr>) q =
         (if PagePrecedes t (q div SLRU_PAGES_PER_SEGMENT * SLRU_PAGES_PER_SEGMENT) ?c then None else file_page t q)"
      using delete_cutoff [of ?c t] by blast
    from loop cleaned tf have "\<forall>i < num_slots t. gone t ?c i" by simp
    note old = delete_old [OF tf(1) this _ d(2), unfolded tf(3)]
    have del: "slru_inv (t\<lparr>slru_dir := d\<rparr>)" by (rule old(1)) (rule closed)
    have del_stored: "stored (t\<lparr>slru_dir := d\<rparr>) q =
       (if PagePrecedes s (q div SLRU_PAGES_PER_SEGMENT * SLRU_PAGES_PER_SEGMENT) ?c then None else stored t q)" for q
      by (rule old(2)) (rule closed)
    have ctl: "same_ctl s (t\<lparr>slru_dir := d\<rparr>)" using tf(2) by (simp add: same_ctl_def)
    have fin: "\<not> PagePrecedes s (latest_page_number s) ?c" using loop cleaned by simp
    have res: "SimpleLruTruncate s p = Some (t\<lparr>slru_dir := d\<rparr>, Inr True)"
      using cleaned by (simp add: SimpleLruTruncate_def Let_def t d(1))
    have "if PagePrecedes s (q div SLRU_PAGES_PER_SEGMENT * SLRU_PAGES_PER_SEGMENT) ?c
      then stored (t\<lparr>slru_dir := d\<rparr>) q = None else \<forall>x. stored s q = Some x \<longrightarrow> stored (t\<lparr>slru_dir := d\<rparr>) q = Some x" for q
      unfolding del_stored using keeps_stored [OF kt] by simp
    with del ctl fin show ?thesis unfolding res truncate_post_def by simp
  qed
qed

section \<open>The interface to the clients\<close>

text \<open>A client reads a page into a slot and may then write to the buffer of that slot.\<close>

definition write_slot :: "Slru \<Rightarrow> nat \<Rightarrow> slru_page \<Rightarrow> Slru" where
  "write_slot s slotno b = set_dirty (set_buffer s slotno b) slotno True"

locale page_store =
  fixes inv :: "'s \<Rightarrow> bool"
    and pages :: "'s \<Rightarrow> nat \<Rightarrow> 'page option"
    and read_page :: "'s \<Rightarrow> nat \<Rightarrow> ('s \<times> nat result) option"
    and buffer :: "'s \<Rightarrow> nat \<Rightarrow> 'page"
    and write_page :: "'s \<Rightarrow> nat \<Rightarrow> 'page \<Rightarrow> 's"
  assumes read_ends: "inv s \<Longrightarrow> read_page s p \<noteq> None"
    and read_keeps: "inv s \<Longrightarrow> read_page s p = Some (s', r) \<Longrightarrow> inv s' \<and> pages s \<subseteq>\<^sub>m pages s'"
    and read_finds: "inv s \<Longrightarrow> read_page s p = Some (s', Inr i) \<Longrightarrow> pages s' p = Some (buffer s' i)"
    and write_changes: "inv s \<Longrightarrow> read_page s p = Some (s', Inr i) \<Longrightarrow>
      inv (write_page s' i b) \<and> pages (write_page s' i b) = (pages s')(p \<mapsto> b)"
begin

lemma read_cases:
  assumes "inv s"
  obtains (failed) s' e where "read_page s p = Some (s', Inl e)" "inv s'" "pages s \<subseteq>\<^sub>m pages s'"
  | (found) s' i where "read_page s p = Some (s', Inr i)" "inv s'" "pages s \<subseteq>\<^sub>m pages s'" "pages s' p = Some (buffer s' i)"
proof (cases "read_page s p")
  case None
  with assms read_ends show ?thesis by blast
next
  case (Some x)
  with assms read_keeps read_finds failed found show ?thesis by (cases x; cases "snd x") auto
qed

lemma read_content:
  assumes "inv s" and "read_page s p = Some (s', Inr i)" and "pages s p = Some b"
  shows "buffer s' i = b"
  using map_leD [OF conjunct2 [OF read_keeps [OF assms(1,2)]] assms(3)] read_finds [OF assms(1,2)] by simp

text \<open>A read-modify-write of one page changes that page only.\<close>

lemma update_page:
  assumes "inv s" and "read_page s p = Some (s', Inr i)" and "pages s q = Some b"
  shows "inv (write_page s' i (f (buffer s' i)))
    \<and> pages (write_page s' i (f (buffer s' i))) q = Some (if q = p then f b else b)"
proof -
  have "pages s' q = Some b" using map_leD [OF conjunct2 [OF read_keeps [OF assms(1,2)]] assms(3)] .
  with write_changes [OF assms(1,2)] read_content [OF assms(1,2)] assms(3) show ?thesis by auto
qed

end

lemma read_post_store:
  assumes post: "\<And>s p. slru_inv s \<Longrightarrow> read_post s p w (read s p)"
  shows "page_store slru_inv stored read page_buffer write_slot"
proof
  fix s p s' r
  assume inv: "slru_inv s"
  note post = post [OF inv, of p]
  show "read s p \<noteq> None" using post by (cases "read s p") (auto simp: read_post_def)
  show "read s p = Some (s', r) \<Longrightarrow> slru_inv s' \<and> stored s \<subseteq>\<^sub>m stored s'"
    using post by (cases r) (auto simp: read_post_def keeps_def)
next
  fix s p s' i b
  assume "slru_inv s" and r: "read s p = Some (s', Inr i)"
  then have "read_post s p w (Some (s', Inr i))" using post by metis
  then have p: "slru_inv s'" "i < num_slots s'" "page_number s' i = p" "holds_page s' i"
    by (auto simp: read_post_def keeps_def same_ctl_def)
  then show "stored s' p = Some (page_buffer s' i)" using stored_held [of s' i] by (simp add: slru_inv_def)
  have "write_slot s' i b = s'\<lparr>page_buffer := (page_buffer s')(i := b), page_dirty := (page_dirty s')(i := True), group_lsn := group_lsn s'\<rparr>"
    by (simp add: write_slot_def slot_defs)
  from dirty_slot [OF p(1,2,4) this] p(3) show "slru_inv (write_slot s' i b) \<and> stored (write_slot s' i b) = (stored s')(p \<mapsto> b)" by simp
qed

interpretation slru: page_store slru_inv stored "\<lambda>s p. SimpleLruReadPage s p write_ok" page_buffer write_slot for write_ok
  by (rule read_post_store) (rule SimpleLruReadPage_post)

interpretation slru_ro: page_store slru_inv stored SimpleLruReadPage_ReadOnly page_buffer write_slot
  by (rule read_post_store) (rule SimpleLruReadPage_ReadOnly_post)

section \<open>Properties\<close>

definition one_page_log :: Slru where
  "one_page_log = SimpleLruInit 2 1024 (<) [(0, [zeroes])]"

lemma one_page_log: "slru_inv one_page_log" "stored one_page_log 0 = Some zeroes" "io_fine one_page_log"
proof -
  show "slru_inv one_page_log"
    by (simp add: slru_inv_def one_page_log_def SimpleLruInit_def distinct_pages_def slot_ok_def holds_page_def)
  have "file_page one_page_log 0 = Some zeroes"
    by (simp add: file_page_def seg_file_def one_page_log_def SimpleLruInit_def SLRU_PAGES_PER_SEGMENT_def)
  then show "stored one_page_log 0 = Some zeroes"
    by (subst stored_not_held) (simp_all add: one_page_log_def SimpleLruInit_def holds_page_def)
  show "io_fine one_page_log" by (simp add: io_fine_def one_page_log_def SimpleLruInit_def)
qed

text \<open>C11. The pool is transparent: from any state that satisfies the invariant, reading a page ends,
  whatever has to be evicted and written back for it and whichever physical operation fails; no
  stored page is lost or changed; and the slot returned holds the page.  An error is reported only
  if a physical operation failed or the page does not exist.\<close>

theorem SimpleLruReadPage_transparent:
  assumes "slru_inv s"
  shows "\<exists>s' r. SimpleLruReadPage s p write_ok = Some (s', r) \<and> slru_inv s' \<and> stored s \<subseteq>\<^sub>m stored s'
    \<and> (case r of
         Inr i \<Rightarrow> i < num_slots s \<and> page_number s' i = p \<and> stored s' p = Some (page_buffer s' i)
           \<and> (page_status s' i = SLRU_PAGE_VALID \<or> write_ok)
       | Inl e \<Rightarrow> \<not> io_fine s \<or> stored s p = None)"
proof -
  note post = SimpleLruReadPage_post [OF assms, of p write_ok]
  show ?thesis using assms
  proof (cases rule: slru.read_cases [of s p write_ok])
    case (failed s' e)
    with post show ?thesis by (auto simp: read_post_def)
  next
    case (found s' i)
    with post show ?thesis by (auto simp: read_post_def)
  qed
qed

theorem SimpleLruReadPage_transparent_witness:
  "\<exists>s' i. SimpleLruReadPage one_page_log 0 True = Some (s', Inr i) \<and> page_buffer s' i = zeroes"
  using SimpleLruReadPage_transparent [OF one_page_log(1), of 0 True]
proof (elim exE conjE)
  fix s' r
  assume r: "SimpleLruReadPage one_page_log 0 True = Some (s', r)" and le: "stored one_page_log \<subseteq>\<^sub>m stored s'"
    and c: "case r of Inr i \<Rightarrow> i < num_slots one_page_log \<and> page_number s' i = 0 \<and> stored s' 0 = Some (page_buffer s' i)
       \<and> (page_status s' i = SLRU_PAGE_VALID \<or> True)
     | Inl e \<Rightarrow> \<not> io_fine one_page_log \<or> stored one_page_log 0 = None"
  from map_leD [OF le one_page_log(2)] c one_page_log r show ?thesis by (cases r) auto
qed

text \<open>C12. The choice of a slot ends and follows the policy: it is the slot that holds the page already,
  or an empty one, or a clean one whose page was used least recently of all valid pages; and the
  latest page of the log is never the victim.  Nothing stored is lost by it.\<close>

theorem SlruSelectLRUPage_policy:
  assumes "slru_inv s" and "io_fine s"
  shows "\<exists>s' i. SlruSelectLRUPage s p = Some (s', Inr i) \<and> slru_inv s' \<and> stored s \<subseteq>\<^sub>m stored s' \<and> i < num_slots s
    \<and> (page_number s' i = p \<and> page_status s' i \<noteq> SLRU_PAGE_EMPTY
       \<or> page_status s' i = SLRU_PAGE_EMPTY
       \<or> page_status s' i = SLRU_PAGE_VALID \<and> \<not> page_dirty s' i \<and> page_number s' i \<noteq> latest_page_number s
         \<and> (\<forall>j < num_slots s. page_status s' j = SLRU_PAGE_VALID \<and> page_number s' j \<noteq> latest_page_number s \<longrightarrow>
              age (cur_lru_count s' - 1) s' j \<le> age (cur_lru_count s' - 1) s' i))"
proof -
  note post = SlruSelectLRUPage_post [OF assms(1), of p]
  then obtain s' r where r: "SlruSelectLRUPage s p = Some (s', r)"
    by (cases "SlruSelectLRUPage s p") (auto simp: select_post_def)
  note post = post [unfolded r select_post_def]
  with assms(2) obtain i where i: "r = Inr i" by (cases r) auto
  with post have "keeps s s'" by simp
  then have "slru_inv s'" "stored s \<subseteq>\<^sub>m stored s'" "latest_page_number s' = latest_page_number s" "num_slots s' = num_slots s"
    by (auto simp: keeps_def same_ctl_def)
  with post r i show ?thesis by (auto simp: least_recent_def)
qed

theorem SlruSelectLRUPage_policy_witness:
  "\<exists>s' i. SlruSelectLRUPage one_page_log 7 = Some (s', Inr i) \<and> i < 2 \<and> stored one_page_log \<subseteq>\<^sub>m stored s'"
  using SlruSelectLRUPage_policy [OF one_page_log(1,3), of 7] by (auto simp: one_page_log_def SimpleLruInit_def)



text \<open>C14. Truncation ends and is safe: when the planned cutoff lies beyond the end of the log nothing
  is removed, and otherwise exactly the segments that start before the cutoff segment disappear
  and every other stored page stays, provided that a page of a segment that precedes the cutoff
  precedes it too.\<close>

theorem SimpleLruTruncate_removes_old:
  assumes "slru_inv s" and "io_fine s" and "c = p - p mod SLRU_PAGES_PER_SEGMENT"
    and "\<And>q. PagePrecedes s (q div SLRU_PAGES_PER_SEGMENT * SLRU_PAGES_PER_SEGMENT) c \<Longrightarrow> PagePrecedes s q c"
  shows "\<exists>s'. SimpleLruTruncate s p = Some (s', Inr (\<not> PagePrecedes s (latest_page_number s) c)) \<and> slru_inv s'
    \<and> (\<forall>q. if \<not> PagePrecedes s (latest_page_number s) c \<and> PagePrecedes s (q div SLRU_PAGES_PER_SEGMENT * SLRU_PAGES_PER_SEGMENT) c
           then stored s' q = None else \<forall>x. stored s q = Some x \<longrightarrow> stored s' q = Some x)"
proof -
  from assms(4) have "\<And>q. PagePrecedes s (q div SLRU_PAGES_PER_SEGMENT * SLRU_PAGES_PER_SEGMENT) (p - p mod SLRU_PAGES_PER_SEGMENT)
       \<Longrightarrow> PagePrecedes s q (p - p mod SLRU_PAGES_PER_SEGMENT)" unfolding assms(3) .
  note post = SimpleLruTruncate_post [OF assms(1) this, folded assms(3)]
  then obtain s' r where r: "SimpleLruTruncate s p = Some (s', r)"
    by (cases "SimpleLruTruncate s p") (auto simp: truncate_post_def)
  note post = post [unfolded r truncate_post_def]
  with assms(2) obtain fin where "r = Inr fin" by (cases r) auto
  with post r show ?thesis by simp
qed

theorem SimpleLruTruncate_removes_old_witness:
  "\<exists>s'. SimpleLruTruncate one_page_log 0 = Some (s', Inr True) \<and> stored s' 0 = Some zeroes"
proof -
  have p: "PagePrecedes one_page_log = (<)" by (simp add: one_page_log_def SimpleLruInit_def)
  from SimpleLruTruncate_removes_old [OF one_page_log(1,3), of 0 0]
  show ?thesis using one_page_log(2) by (auto simp: p)
qed

end
