(* ===== verification/SlruTable.thy ===== *)
theory SlruTable
  imports SlruStore
begin

text \<open>
  Logs that keep one fixed-size entry per transaction id in the pages of an SLRU pool: pg_xact,
  pg_subtrans and pg_commit_ts.  The interface \<open>slru_table\<close> says how an entry lies on its page;
  its lemmas say what reading, updating and zeroing pages through the pool of theory Slru does to
  the entries.  Each log interprets it with its own layout.
\<close>

section \<open>Steps of a client on the pool\<close>

lemma read_page_cases:
  assumes inv: "slru_inv s" and post: "read_post s p w res"
  obtains (failed) t e where "res = Some (t, Inl e)" "keeps s t" "\<not> io_fine s \<or> stored s p = None"
  | (found) t i where "res = Some (t, Inr i)" "keeps s t" "i < num_slots t" "page_number t i = p" "holds_page t i"
      "stored t p = Some (page_buffer t i)"
proof -
  from post obtain t r where t: "res = Some (t, r)" by (cases res) (auto simp: read_post_def)
  note post = post [unfolded t read_post_def]
  show ?thesis
  proof (cases r)
    case (Inl e)
    with t post failed show ?thesis by auto
  next
    case (Inr i)
    with post have k: "keeps s t" "i < num_slots s" "page_number t i = p" "holds_page t i" by auto
    then have "stored t p = Some (page_buffer t i)" using stored_held [of t i] by (auto simp: keeps_def slru_inv_def same_ctl_def)
    with t Inr k found show ?thesis by (auto simp: keeps_def same_ctl_def)
  qed
qed

lemma SimpleLruReadPage_cases:
  assumes "slru_inv s"
  obtains (failed) t e where "SimpleLruReadPage s p w = Some (t, Inl e)" "keeps s t" "\<not> io_fine s \<or> stored s p = None"
  | (found) t i where "SimpleLruReadPage s p w = Some (t, Inr i)" "keeps s t" "i < num_slots t" "page_number t i = p" "holds_page t i"
      "stored t p = Some (page_buffer t i)"
  by (rule read_page_cases [OF assms SimpleLruReadPage_post [OF assms]]) (rule that; assumption)+

lemma SimpleLruReadPage_ReadOnly_cases:
  assumes "slru_inv s"
  obtains (failed) t e where "SimpleLruReadPage_ReadOnly s p = Some (t, Inl e)" "keeps s t" "\<not> io_fine s \<or> stored s p = None"
  | (found) t i where "SimpleLruReadPage_ReadOnly s p = Some (t, Inr i)" "keeps s t" "i < num_slots t" "page_number t i = p" "holds_page t i"
      "stored t p = Some (page_buffer t i)"
  by (rule read_page_cases [OF assms SimpleLruReadPage_ReadOnly_post [OF assms]]) (rule that; assumption)+

lemma SimpleLruZeroPage_cases:
  assumes "slru_inv s"
  obtains (failed) t e where "SimpleLruZeroPage s p = Some (t, Inl e)" "keeps s t" "\<not> io_fine s"
  | (zeroed) t i where "SimpleLruZeroPage s p = Some (t, Inr i)" "slru_inv t" "same_ctl s t" "latest_page_number t = p"
      "i < num_slots t" "(stored s)(p \<mapsto> zeroes) \<subseteq>\<^sub>m stored t" "io_fine s \<longrightarrow> io_fine t" "new_pages_zero s t"
proof -
  note post = SimpleLruZeroPage_post [OF assms, of p]
  then obtain t r where t: "SimpleLruZeroPage s p = Some (t, r)"
    by (cases "SimpleLruZeroPage s p") (auto simp: zero_post_def)
  with post failed zeroed show ?thesis by (cases r) (auto simp: zero_post_def same_ctl_def)
qed

lemma write_slot_slru:
  assumes "slru_inv t" and "i < num_slots t" and "holds_page t i"
  shows "slru_inv (write_slot t i b)" "stored (write_slot t i b) = (stored t)(page_number t i \<mapsto> b)"
    "same_ctl t (write_slot t i b)" "io_fine (write_slot t i b) = io_fine t"
    "latest_page_number (write_slot t i b) = latest_page_number t"
proof -
  have s: "write_slot t i b = t\<lparr>page_buffer := (page_buffer t)(i := b), page_dirty := (page_dirty t)(i := True), group_lsn := group_lsn t\<rparr>"
    by (simp add: write_slot_def slot_defs)
  show "slru_inv (write_slot t i b)" "stored (write_slot t i b) = (stored t)(page_number t i \<mapsto> b)"
    using dirty_slot [OF assms s refl] by blast+
  show "same_ctl t (write_slot t i b)" "io_fine (write_slot t i b) = io_fine t"
    "latest_page_number (write_slot t i b) = latest_page_number t" by (simp_all add: s same_ctl_def io_fine_def)
qed

section \<open>Entries\<close>

text \<open>The entry of a key, as a reader of the log finds it.\<close>

definition entry_of :: "('k \<Rightarrow> nat) \<Rightarrow> (slru_page \<Rightarrow> 'k \<Rightarrow> 'v) \<Rightarrow> Slru \<Rightarrow> 'k \<Rightarrow> 'v option" where
  "entry_of page_of get s k = map_option (\<lambda>b. get b k) (stored s (page_of k))"

locale slru_table =
  fixes page_of :: "'k \<Rightarrow> nat"
    and get :: "slru_page \<Rightarrow> 'k \<Rightarrow> 'v"
    and put :: "slru_page \<Rightarrow> 'k \<Rightarrow> 'v \<Rightarrow> slru_page"
    and fits :: "'v \<Rightarrow> bool"
    and none :: 'v
  assumes get_put: "page_of k = page_of k' \<Longrightarrow> fits v \<Longrightarrow> get (put b k v) k' = (if k = k' then v else get b k')"
    and get_zeroes: "get zeroes k = none"
begin

lemma keeps_entry: "keeps s t \<Longrightarrow> entry_of page_of get s k = Some v \<Longrightarrow> entry_of page_of get t k = Some v"
  using keeps_stored [of s t "page_of k"] by (auto simp: entry_of_def)

lemma keeps_entry_new:
  assumes "keeps s t" and "entry_of page_of get t k = Some v"
  shows "entry_of page_of get s k = Some v \<or> v = none"
proof (cases "stored s (page_of k)")
  case None
  with assms(1) have "stored t (page_of k) = None \<or> stored t (page_of k) = Some zeroes" by (simp add: keeps_def new_pages_zero_def)
  with assms(2) show ?thesis by (auto simp: entry_of_def get_zeroes)
next
  case (Some b)
  with keeps_stored [OF assms(1)] assms(2) show ?thesis by (simp add: entry_of_def)
qed

lemma entry_stored: "stored t (page_of k) = Some b \<Longrightarrow> entry_of page_of get t k = Some (get b k)"
  by (simp add: entry_of_def)

lemma entry_None: "stored s (page_of k) = None \<Longrightarrow> entry_of page_of get s k = None"
  by (simp add: entry_of_def)

text \<open>Updating the entry of \<open>k\<close> in the slot of its page changes that entry only.\<close>

lemma put_entry:
  assumes "slru_inv t" and "i < num_slots t" and "holds_page t i" and "page_number t i = page_of k" and "fits v"
  shows "entry_of page_of get (write_slot t i (put (page_buffer t i) k v)) k' =
    (if k' = k then Some v else entry_of page_of get t k')"
proof (cases "page_of k' = page_of k")
  case True
  have "stored t (page_of k) = Some (page_buffer t i)" using stored_held [of t i] assms by (simp add: slru_inv_def)
  with True show ?thesis
    by (simp add: entry_of_def write_slot_slru(2) [OF assms(1-3)] assms(4) get_put [OF True [symmetric] assms(5)])
next
  case False
  then show ?thesis by (auto simp: entry_of_def write_slot_slru(2) [OF assms(1-3)] assms(4))
qed

text \<open>The same for several entries of one page.\<close>

lemma get_puts:
  assumes "\<forall>k \<in> set ks. page_of k = page_of k'" and "fits v"
  shows "get (fold (\<lambda>k b. put b k v) ks b) k' = (if k' \<in> set ks then v else get b k')"
  using assms(1) by (induction ks arbitrary: b) (auto simp: get_put assms(2))

lemma put_entries:
  assumes "slru_inv t" and "i < num_slots t" and "holds_page t i" and "\<forall>k \<in> set ks. page_of k = page_number t i" and "fits v"
  shows "entry_of page_of get (write_slot t i (fold (\<lambda>k b. put b k v) ks (page_buffer t i))) k' =
    (if k' \<in> set ks then Some v else entry_of page_of get t k')"
proof (cases "page_of k' = page_number t i")
  case True
  have "stored t (page_number t i) = Some (page_buffer t i)" using stored_held [of t i] assms by (simp add: slru_inv_def)
  moreover have "\<forall>k \<in> set ks. page_of k = page_of k'" using True assms(4) by simp
  ultimately show ?thesis
    using True by (simp add: entry_of_def write_slot_slru(2) [OF assms(1-3)] get_puts [OF _ assms(5)])
next
  case False
  with assms(4) show ?thesis by (auto simp: entry_of_def write_slot_slru(2) [OF assms(1-3)])
qed

lemma zero_entry:
  assumes "(stored s)(p \<mapsto> zeroes) \<subseteq>\<^sub>m stored t"
  shows "page_of k = p \<Longrightarrow> entry_of page_of get t k = Some none"
    and "page_of k \<noteq> p \<Longrightarrow> entry_of page_of get s k = Some v \<Longrightarrow> entry_of page_of get t k = Some v"
proof -
  have le: "((stored s)(p \<mapsto> zeroes)) q = Some b \<Longrightarrow> stored t q = Some b" for q b using assms by (rule map_leD)
  show "page_of k = p \<Longrightarrow> entry_of page_of get t k = Some none" using le [of p] by (simp add: entry_of_def get_zeroes)
  show "page_of k \<noteq> p \<Longrightarrow> entry_of page_of get s k = Some v \<Longrightarrow> entry_of page_of get t k = Some v"
    using le [of "page_of k"] by (auto simp: entry_of_def)
qed

end

section \<open>Integers in a page\<close>

text \<open>An array of 32-bit integers in a page, as a little-endian machine lays it out.\<close>

definition get_uint32 :: "slru_page \<Rightarrow> nat \<Rightarrow> uint32" where
  "get_uint32 page off =
     ucast (page off) OR push_bit 8 (ucast (page (off + 1))) OR push_bit 16 (ucast (page (off + 2))) OR push_bit 24 (ucast (page (off + 3)))"

definition put_uint32 :: "slru_page \<Rightarrow> nat \<Rightarrow> uint32 \<Rightarrow> slru_page" where
  "put_uint32 page off v =
     page(off := ucast v, off + 1 := ucast (drop_bit 8 v), off + 2 := ucast (drop_bit 16 v), off + 3 := ucast (drop_bit 24 v))"

lemma get_put_uint32: "get_uint32 (put_uint32 page off v) off = v"
proof (rule bit_word_eqI)
  fix n assume n: "n < LENGTH(32)"
  then consider "n < 8" | "8 \<le> n" "n < 16" | "16 \<le> n" "n < 24" | "24 \<le> n" by linarith
  then show "bit (get_uint32 (put_uint32 page off v) off) n = bit v n"
    using n by cases (auto simp: get_uint32_def put_uint32_def bit_simps)
qed

lemma get_put_uint32_other: "off' + 4 \<le> off \<or> off + 4 \<le> off' \<Longrightarrow> get_uint32 (put_uint32 page off v) off' = get_uint32 page off'"
  by (auto simp: get_uint32_def put_uint32_def)

lemma get_zeroes_uint32: "get_uint32 zeroes off = 0"
  by (simp add: get_uint32_def zeroes_def)

text \<open>The low bytes of an integer, copied to and from a page.\<close>

primrec get_bytes :: "nat \<Rightarrow> slru_page \<Rightarrow> nat \<Rightarrow> 'a::len word" where
  "get_bytes 0 page off = 0"
| "get_bytes (Suc n) page off = ucast (page off) OR push_bit 8 (get_bytes n page (off + 1))"

primrec put_bytes :: "nat \<Rightarrow> slru_page \<Rightarrow> nat \<Rightarrow> 'a::len word \<Rightarrow> slru_page" where
  "put_bytes 0 page off v = page"
| "put_bytes (Suc n) page off v = put_bytes n (page(off := ucast v)) (off + 1) (drop_bit 8 v)"

lemma bit_get_bytes:
  "bit (get_bytes n page off :: 'a::len word) k \<longleftrightarrow> k < LENGTH('a) \<and> k < 8 * n \<and> bit (page (off + k div 8)) (k mod 8)"
proof (induction n arbitrary: off k)
  case (Suc n)
  show ?case
  proof (cases "k < 8")
    case True
    then show ?thesis by (auto simp: bit_simps)
  next
    case False
    then obtain m where m: "k = m + 8" by (metis add.commute le_Suc_ex not_less)
    have "bit (page off) k = False" using False by (auto dest: bit_imp_le_length)
    moreover have "off + (m + 8) div 8 = off + 1 + m div 8" by simp
    ultimately show ?thesis using Suc [of "off + 1" m] by (auto simp: m bit_simps)
  qed
qed simp

lemma put_bytes_at: "put_bytes n page off v i = (if off \<le> i \<and> i < off + n then ucast (drop_bit (8 * (i - off)) v) else page i)"
proof (induction n arbitrary: page off v)
  case (Suc n)
  show ?case
  proof (cases "off < i")
    case True
    then have "8 * (i - off) = 8 * (i - (off + 1)) + 8" by simp
    then show ?thesis using True by (simp add: Suc drop_bit_drop_bit ac_simps)
  qed (auto simp: Suc)
qed auto

lemma get_put_bytes:
  assumes "LENGTH('a) \<le> 8 * n"
  shows "get_bytes n (put_bytes n page off v) off = (v :: 'a::len word)"
proof (rule bit_word_eqI)
  fix k assume k: "k < LENGTH('a)"
  have "off + k div 8 < off + n" using k assms by auto
  then have "put_bytes n page off v (off + k div 8) = ucast (drop_bit (8 * (k div 8)) v)" by (simp add: put_bytes_at)
  then show "bit (get_bytes n (put_bytes n page off v) off :: 'a word) k = bit v k"
    using k assms by (auto simp: bit_get_bytes bit_simps)
qed

lemma get_put_bytes_other:
  assumes "off' + m \<le> off \<or> off + n \<le> off'"
  shows "get_bytes m (put_bytes n page off v) off' = (get_bytes m page off' :: 'a::len word)"
proof (rule bit_word_eqI)
  fix k
  have "put_bytes n page off v (off' + k div 8) = page (off' + k div 8)" if "k < 8 * m"
  proof -
    have "k div 8 < m" using that by auto
    then show ?thesis using assms by (auto simp: put_bytes_at)
  qed
  then show "bit (get_bytes m (put_bytes n page off v) off' :: 'a word) k = bit (get_bytes m page off' :: 'a word) k"
    by (auto simp: bit_get_bytes)
qed

lemma get_zeroes_bytes: "get_bytes n zeroes off = 0"
  by (rule bit_word_eqI) (simp add: bit_get_bytes zeroes_def)

end
