(* ===== verification/Clog.thy ===== *)
theory Clog
  imports SlruTable "HOL-Library.Sublist"
begin

text \<open>
  The commit log pg_xact, \<open>src/backend/access/transam/clog.c\<close>: two bits of status per transaction,
  kept in pages of the SLRU pool of theory Slru.  The functions of clog.c take and return the state
  of that pool; a function that reads pages can fail with the error of a physical operation.
  Acquiring and releasing CLogControlLock has no counterpart: the lock is free when it is requested,
  so that the conditional acquire of TransactionIdSetPageStatus succeeds and the group update, in
  which one backend makes the updates of several, is not reached.  The order in which status bits
  are set, on which the atomicity of a commit rests, is that of the code.
\<close>

section \<open>Layout\<close>

definition CLOG_BITS_PER_XACT :: nat where
  "CLOG_BITS_PER_XACT = 2"

definition CLOG_XACTS_PER_BYTE :: nat where
  "CLOG_XACTS_PER_BYTE = 4"

definition CLOG_XACTS_PER_PAGE :: nat where
  "CLOG_XACTS_PER_PAGE = BLCKSZ * CLOG_XACTS_PER_BYTE"

definition CLOG_XACT_BITMASK :: uint8 where
  "CLOG_XACT_BITMASK = push_bit CLOG_BITS_PER_XACT 1 - 1"

definition TransactionIdToPage :: "TransactionId \<Rightarrow> nat" where
  "TransactionIdToPage xid = unat xid div CLOG_XACTS_PER_PAGE"

definition TransactionIdToPgIndex :: "TransactionId \<Rightarrow> nat" where
  "TransactionIdToPgIndex xid = unat xid mod CLOG_XACTS_PER_PAGE"

definition TransactionIdToByte :: "TransactionId \<Rightarrow> nat" where
  "TransactionIdToByte xid = TransactionIdToPgIndex xid div CLOG_XACTS_PER_BYTE"

definition TransactionIdToBIndex :: "TransactionId \<Rightarrow> nat" where
  "TransactionIdToBIndex xid = unat xid mod CLOG_XACTS_PER_BYTE"

definition CLOG_XACTS_PER_LSN_GROUP :: nat where
  "CLOG_XACTS_PER_LSN_GROUP = 32"

definition CLOG_LSNS_PER_PAGE :: nat where
  "CLOG_LSNS_PER_PAGE = CLOG_XACTS_PER_PAGE div CLOG_XACTS_PER_LSN_GROUP"

definition GetLSNIndex :: "nat \<Rightarrow> TransactionId \<Rightarrow> nat" where
  "GetLSNIndex slotno xid = slotno * CLOG_LSNS_PER_PAGE + (unat xid mod CLOG_XACTS_PER_PAGE) div CLOG_XACTS_PER_LSN_GROUP"

lemmas clog_layout = CLOG_BITS_PER_XACT_def CLOG_XACTS_PER_BYTE_def CLOG_XACTS_PER_PAGE_def CLOG_XACTS_PER_LSN_GROUP_def
  CLOG_LSNS_PER_PAGE_def BLCKSZ_def

type_synonym XidStatus = uint8

definition TRANSACTION_STATUS_IN_PROGRESS :: XidStatus where
  "TRANSACTION_STATUS_IN_PROGRESS = 0"

definition TRANSACTION_STATUS_COMMITTED :: XidStatus where
  "TRANSACTION_STATUS_COMMITTED = 1"

definition TRANSACTION_STATUS_ABORTED :: XidStatus where
  "TRANSACTION_STATUS_ABORTED = 2"

definition TRANSACTION_STATUS_SUB_COMMITTED :: XidStatus where
  "TRANSACTION_STATUS_SUB_COMMITTED = 3"

lemmas status_defs = TRANSACTION_STATUS_IN_PROGRESS_def TRANSACTION_STATUS_COMMITTED_def
  TRANSACTION_STATUS_ABORTED_def TRANSACTION_STATUS_SUB_COMMITTED_def

section \<open>Setting and getting status bits\<close>

definition TransactionIdSetStatusBit :: "Slru \<Rightarrow> TransactionId \<Rightarrow> XidStatus \<Rightarrow> XLogRecPtr \<Rightarrow> nat \<Rightarrow> Slru" where
  "TransactionIdSetStatusBit s xid status lsn slotno =
     (let byteno = TransactionIdToByte xid;
          bshift = TransactionIdToBIndex xid * CLOG_BITS_PER_XACT;
          byteval = page_buffer s slotno byteno;
          curval = drop_bit bshift byteval AND CLOG_XACT_BITMASK
      in if InRecovery s \<and> status = TRANSACTION_STATUS_SUB_COMMITTED \<and> curval = TRANSACTION_STATUS_COMMITTED then s
         else
           let byteval = byteval AND NOT (push_bit bshift (push_bit CLOG_BITS_PER_XACT 1 - 1));
               byteval = byteval OR push_bit bshift status;
               s = set_buffer s slotno ((page_buffer s slotno)(byteno := byteval))
           in if lsn \<noteq> 0 then
                let lsnindex = GetLSNIndex slotno xid
                in if group_lsn s lsnindex < lsn then s\<lparr>group_lsn := (group_lsn s)(lsnindex := lsn)\<rparr> else s
              else s)"

text \<open>The updates on the page in the slot, in the order the code makes them; \<open>xid\<close> may be invalid.\<close>

definition set_page_bits :: "Slru \<Rightarrow> TransactionId \<Rightarrow> TransactionId list \<Rightarrow> XidStatus \<Rightarrow> XLogRecPtr \<Rightarrow> nat \<Rightarrow> Slru" where
  "set_page_bits s xid subxids status lsn slotno =
     (let s = (if TransactionIdIsValid xid then
                 let s = (if status = TRANSACTION_STATUS_COMMITTED then
                            fold (\<lambda>subxid s. TransactionIdSetStatusBit s subxid TRANSACTION_STATUS_SUB_COMMITTED lsn slotno) subxids s
                          else s)
                 in TransactionIdSetStatusBit s xid status lsn slotno
               else s)
      in fold (\<lambda>subxid s. TransactionIdSetStatusBit s subxid status lsn slotno) subxids s)"

definition TransactionIdSetPageStatusInternal :: "Slru \<Rightarrow> TransactionId \<Rightarrow> TransactionId list \<Rightarrow> XidStatus \<Rightarrow> XLogRecPtr \<Rightarrow> nat
    \<Rightarrow> (Slru \<times> unit result) option" where
  "TransactionIdSetPageStatusInternal s xid subxids status lsn pageno =
     (case SimpleLruReadPage s pageno (lsn = 0) of
        None \<Rightarrow> None
      | Some (s, Inl e) \<Rightarrow> Some (s, Inl e)
      | Some (s, Inr slotno) \<Rightarrow>
          let s = set_page_bits s xid subxids status lsn slotno
          in Some (set_dirty s slotno True, Inr ()))"

definition TransactionIdSetPageStatus :: "Slru \<Rightarrow> TransactionId \<Rightarrow> TransactionId list \<Rightarrow> XidStatus \<Rightarrow> XLogRecPtr \<Rightarrow> nat
    \<Rightarrow> (Slru \<times> unit result) option" where
  "TransactionIdSetPageStatus s xid subxids status lsn pageno =
     TransactionIdSetPageStatusInternal s xid subxids status lsn pageno"

text \<open>Sequencing: an error leaves the function.\<close>

definition and_then :: "(Slru \<times> unit result) option \<Rightarrow> (Slru \<Rightarrow> (Slru \<times> unit result) option) \<Rightarrow> (Slru \<times> unit result) option" where
  "and_then res f = (case res of None \<Rightarrow> None | Some (s, Inl e) \<Rightarrow> Some (s, Inl e) | Some (s, Inr _) \<Rightarrow> f s)"

function set_status_by_pages :: "Slru \<Rightarrow> TransactionId list \<Rightarrow> XidStatus \<Rightarrow> XLogRecPtr \<Rightarrow> (Slru \<times> unit result) option" where
  "set_status_by_pages s [] status lsn = Some (s, Inr ())"
| "set_status_by_pages s (x # xs) status lsn =
     (let pageno = TransactionIdToPage x;
          on_page = takeWhile (\<lambda>y. TransactionIdToPage y = pageno) (x # xs);
          rest = dropWhile (\<lambda>y. TransactionIdToPage y = pageno) (x # xs)
      in and_then (TransactionIdSetPageStatus s InvalidTransactionId on_page status lsn pageno)
           (\<lambda>s. set_status_by_pages s rest status lsn))"
  by pat_completeness auto
termination
  by (relation "measure (\<lambda>(s, xs, status, lsn). length xs)") (auto simp: le_imp_less_Suc length_dropWhile_le)

definition TransactionIdSetTreeStatus :: "Slru \<Rightarrow> TransactionId \<Rightarrow> TransactionId list \<Rightarrow> XidStatus \<Rightarrow> XLogRecPtr
    \<Rightarrow> (Slru \<times> unit result) option" where
  "TransactionIdSetTreeStatus s xid subxids status lsn =
     (let pageno = TransactionIdToPage xid;
          i = length (takeWhile (\<lambda>y. TransactionIdToPage y = pageno) subxids)
      in if i = length subxids then TransactionIdSetPageStatus s xid subxids status lsn pageno
         else
           and_then (if status = TRANSACTION_STATUS_COMMITTED
                     then set_status_by_pages s (drop i subxids) TRANSACTION_STATUS_SUB_COMMITTED lsn
                     else Some (s, Inr ()))
             (\<lambda>s. and_then (TransactionIdSetPageStatus s xid (take i subxids) status lsn pageno)
               (\<lambda>s. set_status_by_pages s (drop i subxids) status lsn)))"

definition TransactionIdGetStatus :: "Slru \<Rightarrow> TransactionId \<Rightarrow> (Slru \<times> (XidStatus \<times> XLogRecPtr) result) option" where
  "TransactionIdGetStatus s xid =
     (let pageno = TransactionIdToPage xid;
          byteno = TransactionIdToByte xid;
          bshift = TransactionIdToBIndex xid * CLOG_BITS_PER_XACT
      in case SimpleLruReadPage_ReadOnly s pageno of
           None \<Rightarrow> None
         | Some (s, Inl e) \<Rightarrow> Some (s, Inl e)
         | Some (s, Inr slotno) \<Rightarrow>
             let status = drop_bit bshift (page_buffer s slotno byteno) AND CLOG_XACT_BITMASK
             in Some (s, Inr (status, group_lsn s (GetLSNIndex slotno xid))))"

section \<open>Life of the log\<close>

definition CLOGPagePrecedes :: "nat \<Rightarrow> nat \<Rightarrow> bool" where
  "CLOGPagePrecedes page1 page2 =
     (let xid1 = of_nat page1 * of_nat CLOG_XACTS_PER_PAGE + FirstNormalTransactionId;
          xid2 = of_nat page2 * of_nat CLOG_XACTS_PER_PAGE + FirstNormalTransactionId
      in TransactionIdPrecedes xid1 xid2)"

definition CLOGShmemBuffers :: "nat \<Rightarrow> nat" where
  "CLOGShmemBuffers NBuffers = min 128 (max 4 (NBuffers div 512))"

definition CLOGShmemInit :: "nat \<Rightarrow> (nat \<times> slru_page list) list \<Rightarrow> Slru" where
  "CLOGShmemInit NBuffers dir = SimpleLruInit (CLOGShmemBuffers NBuffers) CLOG_LSNS_PER_PAGE CLOGPagePrecedes dir"

text \<open>The WAL records of clog.c, in the order they are written.\<close>

datatype clog_record = CLOG_ZEROPAGE nat | CLOG_TRUNCATE nat TransactionId Oid

record Clog =
  ClogCtl :: Slru
  oldestClogXid :: TransactionId
  clog_wal :: "clog_record list"
  clog_wal_flushed :: nat

definition WriteZeroPageXlogRec :: "Clog \<Rightarrow> nat \<Rightarrow> Clog" where
  "WriteZeroPageXlogRec c pageno = c\<lparr>clog_wal := clog_wal c @ [CLOG_ZEROPAGE pageno]\<rparr>"

definition WriteTruncateXlogRec :: "Clog \<Rightarrow> nat \<Rightarrow> TransactionId \<Rightarrow> Oid \<Rightarrow> Clog" where
  "WriteTruncateXlogRec c pageno oldestXact oldestXactDb =
     (let c = c\<lparr>clog_wal := clog_wal c @ [CLOG_TRUNCATE pageno oldestXact oldestXactDb]\<rparr>
      in c\<lparr>clog_wal_flushed := length (clog_wal c)\<rparr>)"

definition ZeroCLOGPage :: "Clog \<Rightarrow> nat \<Rightarrow> bool \<Rightarrow> (Clog \<times> nat result) option" where
  "ZeroCLOGPage c pageno writeXlog =
     (case SimpleLruZeroPage (ClogCtl c) pageno of
        None \<Rightarrow> None
      | Some (s, Inl e) \<Rightarrow> Some (c\<lparr>ClogCtl := s\<rparr>, Inl e)
      | Some (s, Inr slotno) \<Rightarrow>
          let c = c\<lparr>ClogCtl := s\<rparr>
          in Some (if writeXlog then WriteZeroPageXlogRec c pageno else c, Inr slotno))"

text \<open>Zero a page and write it out, as BootStrapCLOG and the replay of CLOG_ZEROPAGE do.\<close>

definition zero_and_write :: "Clog \<Rightarrow> nat \<Rightarrow> (Clog \<times> unit result) option" where
  "zero_and_write c pageno =
     (case ZeroCLOGPage c pageno False of
        None \<Rightarrow> None
      | Some (c, Inl e) \<Rightarrow> Some (c, Inl e)
      | Some (c, Inr slotno) \<Rightarrow>
          (case SimpleLruWritePage (ClogCtl c) slotno of (s, r) \<Rightarrow> Some (c\<lparr>ClogCtl := s\<rparr>, r)))"

definition BootStrapCLOG :: "Clog \<Rightarrow> (Clog \<times> unit result) option" where
  "BootStrapCLOG c = zero_and_write c 0"

definition StartupCLOG :: "Clog \<Rightarrow> FullTransactionId \<Rightarrow> Clog" where
  "StartupCLOG c nextFullXid =
     (let pageno = TransactionIdToPage (XidFromFullTransactionId nextFullXid)
      in c\<lparr>ClogCtl := (ClogCtl c)\<lparr>latest_page_number := pageno\<rparr>\<rparr>)"

text \<open>The page with the positions from that of \<open>xid\<close> on cleared.\<close>

definition trim_page :: "slru_page \<Rightarrow> TransactionId \<Rightarrow> slru_page" where
  "trim_page page xid =
     (let byteno = TransactionIdToByte xid;
          bshift = TransactionIdToBIndex xid * CLOG_BITS_PER_XACT
      in (\<lambda>i. if i = byteno then page i AND (push_bit bshift 1 - 1)
              else if byteno < i \<and> i < BLCKSZ then 0
              else page i))"

definition TrimCLOG :: "Clog \<Rightarrow> FullTransactionId \<Rightarrow> (Clog \<times> unit result) option" where
  "TrimCLOG c nextFullXid =
     (let xid = XidFromFullTransactionId nextFullXid;
          pageno = TransactionIdToPage xid;
          s = (ClogCtl c)\<lparr>latest_page_number := pageno\<rparr>
      in if TransactionIdToPgIndex xid \<noteq> 0 then
           (case SimpleLruReadPage s pageno False of
              None \<Rightarrow> None
            | Some (s, Inl e) \<Rightarrow> Some (c\<lparr>ClogCtl := s\<rparr>, Inl e)
            | Some (s, Inr slotno) \<Rightarrow>
                Some (c\<lparr>ClogCtl := write_slot s slotno (trim_page (page_buffer s slotno) xid)\<rparr>, Inr ()))
         else Some (c\<lparr>ClogCtl := s\<rparr>, Inr ()))"

definition flush_clog :: "Clog \<Rightarrow> Clog \<times> unit result" where
  "flush_clog c = (case SimpleLruFlush (ClogCtl c) of (s, r) \<Rightarrow> (c\<lparr>ClogCtl := s\<rparr>, r))"

definition ShutdownCLOG :: "Clog \<Rightarrow> Clog \<times> unit result" where
  "ShutdownCLOG c = flush_clog c"

definition CheckPointCLOG :: "Clog \<Rightarrow> Clog \<times> unit result" where
  "CheckPointCLOG c = flush_clog c"

definition ExtendCLOG :: "Clog \<Rightarrow> TransactionId \<Rightarrow> (Clog \<times> unit result) option" where
  "ExtendCLOG c newestXact =
     (if TransactionIdToPgIndex newestXact \<noteq> 0 \<and> newestXact \<noteq> FirstNormalTransactionId then Some (c, Inr ())
      else case ZeroCLOGPage c (TransactionIdToPage newestXact) True of
             None \<Rightarrow> None
           | Some (c, Inl e) \<Rightarrow> Some (c, Inl e)
           | Some (c, Inr slotno) \<Rightarrow> Some (c, Inr ()))"

definition AdvanceOldestClogXid :: "Clog \<Rightarrow> TransactionId \<Rightarrow> Clog" where
  "AdvanceOldestClogXid c oldest_datfrozenxid =
     (if TransactionIdPrecedes (oldestClogXid c) oldest_datfrozenxid then c\<lparr>oldestClogXid := oldest_datfrozenxid\<rparr> else c)"

definition truncate_clog_slru :: "Clog \<Rightarrow> nat \<Rightarrow> (Clog \<times> unit result) option" where
  "truncate_clog_slru c cutoffPage =
     (case SimpleLruTruncate (ClogCtl c) cutoffPage of
        None \<Rightarrow> None
      | Some (s, Inl e) \<Rightarrow> Some (c\<lparr>ClogCtl := s\<rparr>, Inl e)
      | Some (s, Inr _) \<Rightarrow> Some (c\<lparr>ClogCtl := s\<rparr>, Inr ()))"

definition TruncateCLOG :: "Clog \<Rightarrow> TransactionId \<Rightarrow> Oid \<Rightarrow> (Clog \<times> unit result) option" where
  "TruncateCLOG c oldestXact oldestxid_datoid =
     (let cutoffPage = TransactionIdToPage oldestXact;
          s = ClogCtl c
      in if \<not> snd (SlruScanDirectory (SlruScanDirCbReportPresence cutoffPage) s (map fst (slru_dir s))) then Some (c, Inr ())
         else
           let c = AdvanceOldestClogXid c oldestXact;
               c = WriteTruncateXlogRec c cutoffPage oldestXact oldestxid_datoid
           in truncate_clog_slru c cutoffPage)"

definition clog_redo :: "Clog \<Rightarrow> clog_record \<Rightarrow> (Clog \<times> unit result) option" where
  "clog_redo c rec =
     (case rec of
        CLOG_ZEROPAGE pageno \<Rightarrow> zero_and_write c pageno
      | CLOG_TRUNCATE pageno oldestXact oldestXactDb \<Rightarrow>
          let c = c\<lparr>ClogCtl := (ClogCtl c)\<lparr>latest_page_number := pageno\<rparr>\<rparr>;
              c = AdvanceOldestClogXid c oldestXact
          in truncate_clog_slru c pageno)"

section \<open>Bits of a page\<close>

definition status_on :: "slru_page \<Rightarrow> TransactionId \<Rightarrow> XidStatus" where
  "status_on page xid = drop_bit (TransactionIdToBIndex xid * CLOG_BITS_PER_XACT) (page (TransactionIdToByte xid)) AND CLOG_XACT_BITMASK"

definition set_status_on :: "slru_page \<Rightarrow> TransactionId \<Rightarrow> XidStatus \<Rightarrow> slru_page" where
  "set_status_on page xid status =
     (let byteno = TransactionIdToByte xid; bshift = TransactionIdToBIndex xid * CLOG_BITS_PER_XACT
      in page(byteno := (page byteno AND NOT (push_bit bshift CLOG_XACT_BITMASK)) OR push_bit bshift status))"

lemma bitmask_eq: "CLOG_XACT_BITMASK = mask 2"
  by (simp add: CLOG_XACT_BITMASK_def CLOG_BITS_PER_XACT_def mask_eq_exp_minus_1)

lemma status_bit_bound:
  fixes st :: uint8
  assumes "st < 4" and "bit st n"
  shows "n < 2"
proof -
  have "unat st < 4" using assms(1) by (simp add: word_less_nat_alt)
  then have "take_bit 2 st = st" by (simp add: word_unat_eq_iff unsigned_take_bit_eq take_bit_nat_eq_self)
  with assms(2) show ?thesis by (metis bit_take_bit_iff)
qed

lemma byte_bits_same:
  fixes w st :: uint8
  assumes "i < 4" and "st < 4"
  shows "drop_bit (i * 2) ((w AND NOT (push_bit (i * 2) (mask 2))) OR push_bit (i * 2) st) AND mask 2 = st"
proof (rule bit_word_eqI)
  fix n assume "n < LENGTH(8)"
  with assms(1) status_bit_bound [OF assms(2), of n]
  show "bit (drop_bit (i * 2) ((w AND NOT (push_bit (i * 2) (mask 2))) OR push_bit (i * 2) st) AND mask 2) n = bit st n"
    by (auto simp: bit_simps)
qed

lemma byte_bits_other:
  fixes w st :: uint8
  assumes "i < 4" and "j < 4" and "i \<noteq> j" and "st < 4"
  shows "drop_bit (j * 2) ((w AND NOT (push_bit (i * 2) (mask 2))) OR push_bit (i * 2) st) AND mask 2 = drop_bit (j * 2) w AND mask 2"
proof (rule bit_word_eqI)
  fix n assume n: "n < LENGTH(8)"
  have "n < 2 \<Longrightarrow> \<not> (i * 2 \<le> j * 2 + n \<and> j * 2 + n - i * 2 < 2) \<and> j * 2 + n < 8" using assms(2,3) by linarith
  with n status_bit_bound [OF assms(4), of "j * 2 + n - i * 2"]
  show "bit (drop_bit (j * 2) ((w AND NOT (push_bit (i * 2) (mask 2))) OR push_bit (i * 2) st) AND mask 2) n =
      bit (drop_bit (j * 2) w AND mask 2) n"
    by (auto simp: bit_simps)
qed

lemma position_eq:
  "TransactionIdToPage x = TransactionIdToPage y \<Longrightarrow> TransactionIdToByte x = TransactionIdToByte y \<Longrightarrow>
    TransactionIdToBIndex x = TransactionIdToBIndex y \<Longrightarrow> x = y"
proof -
  assume "TransactionIdToPage x = TransactionIdToPage y" "TransactionIdToByte x = TransactionIdToByte y"
    "TransactionIdToBIndex x = TransactionIdToBIndex y"
  then have p: "unat x div 32768 = unat y div 32768" and b: "unat x mod 32768 div 4 = unat y mod 32768 div 4"
    and i: "unat x mod 4 = unat y mod 4"
    by (simp_all add: TransactionIdToPage_def TransactionIdToByte_def TransactionIdToPgIndex_def TransactionIdToBIndex_def clog_layout)
  have "unat z mod 32768 mod 4 = unat z mod 4" for z :: TransactionId by (simp add: mod_mod_cancel)
  then have "unat x mod 32768 = unat y mod 32768" using b i by (metis div_mult_mod_eq)
  with p have "unat x = unat y" by (metis div_mult_mod_eq)
  then show "x = y" by (simp add: word_unat_eq_iff)
qed

lemma status_on_set:
  assumes "TransactionIdToPage x = TransactionIdToPage y" and "status < 4"
  shows "status_on (set_status_on page x status) y = (if x = y then status else status_on page y)"
proof -
  have i: "TransactionIdToBIndex x < 4" "TransactionIdToBIndex y < 4" by (simp_all add: TransactionIdToBIndex_def CLOG_XACTS_PER_BYTE_def)
  show ?thesis
  proof (cases "x = y")
    case True
    then show ?thesis using byte_bits_same [OF i(1) assms(2)]
      by (simp add: status_on_def set_status_on_def Let_def bitmask_eq CLOG_BITS_PER_XACT_def)
  next
    case False
    show ?thesis
    proof (cases "TransactionIdToByte x = TransactionIdToByte y")
      case True
      with False position_eq assms(1) have "TransactionIdToBIndex x \<noteq> TransactionIdToBIndex y" by blast
      from byte_bits_other [OF i this assms(2)] True False show ?thesis
        by (simp add: status_on_def set_status_on_def Let_def bitmask_eq CLOG_BITS_PER_XACT_def)
    next
      case neq: False
      with False show ?thesis by (simp add: status_on_def set_status_on_def Let_def)
    qed
  qed
qed

section \<open>Set-status as a sequence of writes\<close>

text \<open>The status of a transaction as a reader finds it, and a sequence of writes to it.\<close>

definition clog_status :: "Slru \<Rightarrow> TransactionId \<Rightarrow> XidStatus option" where
  "clog_status s xid = map_option (\<lambda>page. status_on page xid) (stored s (TransactionIdToPage xid))"

type_synonym status_write = "TransactionId \<times> XidStatus"

definition page_writes :: "TransactionId \<Rightarrow> TransactionId list \<Rightarrow> XidStatus \<Rightarrow> status_write list" where
  "page_writes xid subxids status =
     (if TransactionIdIsValid xid then
        (if status = TRANSACTION_STATUS_COMMITTED then map (\<lambda>x. (x, TRANSACTION_STATUS_SUB_COMMITTED)) subxids else [])
        @ [(xid, status)]
      else [])
     @ map (\<lambda>x. (x, status)) subxids"

definition clog_inv :: "Slru \<Rightarrow> bool" where
  "clog_inv s \<longleftrightarrow> slru_inv s \<and> lsn_groups_per_page s = CLOG_LSNS_PER_PAGE \<and> PagePrecedes s = CLOGPagePrecedes"

text \<open>Outside recovery a status bit is set in the buffer, and only the LSN of its group may rise.\<close>

lemma SetStatusBit_eq:
  assumes "\<not> InRecovery s"
  shows "\<exists>g. TransactionIdSetStatusBit s xid status lsn i =
      s\<lparr>page_buffer := (page_buffer s)(i := set_status_on (page_buffer s i) xid status), group_lsn := g\<rparr>
    \<and> (\<forall>k. k \<noteq> GetLSNIndex i xid \<longrightarrow> g k = group_lsn s k) \<and> (\<forall>k. group_lsn s k \<le> g k) \<and> lsn \<le> g (GetLSNIndex i xid)"
proof -
  let ?b = "(page_buffer s)(i := set_status_on (page_buffer s i) xid status)"
  let ?g = "if lsn \<noteq> 0 \<and> group_lsn s (GetLSNIndex i xid) < lsn then (group_lsn s)(GetLSNIndex i xid := lsn) else group_lsn s"
  have "TransactionIdSetStatusBit s xid status lsn i = s\<lparr>page_buffer := ?b, group_lsn := ?g\<rparr>"
    using assms by (simp add: TransactionIdSetStatusBit_def set_status_on_def Let_def slot_defs CLOG_XACT_BITMASK_def)
  moreover have "(\<forall>k. k \<noteq> GetLSNIndex i xid \<longrightarrow> ?g k = group_lsn s k) \<and> (\<forall>k. group_lsn s k \<le> ?g k) \<and> lsn \<le> ?g (GetLSNIndex i xid)"
    by auto
  ultimately show ?thesis by blast
qed

lemma fold_SetStatusBit:
  assumes "\<not> InRecovery s"
  shows "\<exists>g. fold (\<lambda>(x, st) s. TransactionIdSetStatusBit s x st lsn i) ws s =
      s\<lparr>page_buffer := (page_buffer s)(i := fold (\<lambda>(x, st) p. set_status_on p x st) ws (page_buffer s i)), group_lsn := g\<rparr>
    \<and> (\<forall>k. (\<forall>x. k \<noteq> GetLSNIndex i x) \<longrightarrow> g k = group_lsn s k) \<and> (\<forall>k. group_lsn s k \<le> g k)
    \<and> (\<forall>x \<in> fst ` set ws. lsn \<le> g (GetLSNIndex i x))"
  using assms
proof (induction ws arbitrary: s)
  case Nil
  show ?case by (intro exI [of _ "group_lsn s"]) simp
next
  case (Cons w ws)
  obtain x st where w: "w = (x, st)" by fastforce
  from SetStatusBit_eq [OF Cons.prems, of x st lsn i] obtain g where
    g: "TransactionIdSetStatusBit s x st lsn i = s\<lparr>page_buffer := (page_buffer s)(i := set_status_on (page_buffer s i) x st), group_lsn := g\<rparr>"
    "\<forall>k. k \<noteq> GetLSNIndex i x \<longrightarrow> g k = group_lsn s k" "\<forall>k. group_lsn s k \<le> g k" "lsn \<le> g (GetLSNIndex i x)" by blast
  from Cons.prems have "\<not> InRecovery (TransactionIdSetStatusBit s x st lsn i)" by (simp add: g(1))
  from Cons.IH [OF this] obtain h where
    "fold (\<lambda>(x, st) s. TransactionIdSetStatusBit s x st lsn i) ws (TransactionIdSetStatusBit s x st lsn i) =
      (TransactionIdSetStatusBit s x st lsn i)\<lparr>page_buffer := (page_buffer (TransactionIdSetStatusBit s x st lsn i))
         (i := fold (\<lambda>(x, st) p. set_status_on p x st) ws (page_buffer (TransactionIdSetStatusBit s x st lsn i) i)), group_lsn := h\<rparr>"
    "\<forall>k. (\<forall>x. k \<noteq> GetLSNIndex i x) \<longrightarrow> h k = group_lsn (TransactionIdSetStatusBit s x st lsn i) k"
    "\<forall>k. group_lsn (TransactionIdSetStatusBit s x st lsn i) k \<le> h k" "\<forall>x \<in> fst ` set ws. lsn \<le> h (GetLSNIndex i x)" by blast
  then have "fold (\<lambda>(x, st) s. TransactionIdSetStatusBit s x st lsn i) (w # ws) s =
      s\<lparr>page_buffer := (page_buffer s)(i := fold (\<lambda>(x, st) p. set_status_on p x st) (w # ws) (page_buffer s i)), group_lsn := h\<rparr>"
    "\<forall>k. (\<forall>x. k \<noteq> GetLSNIndex i x) \<longrightarrow> h k = group_lsn s k" "\<forall>k. group_lsn s k \<le> h k"
    "\<forall>x \<in> fst ` set (w # ws). lsn \<le> h (GetLSNIndex i x)"
    using g(2-4) by (auto simp: w g(1) intro: order_trans)
  then show ?case by blast
qed

lemma set_page_bits_eq:
  "set_page_bits s xid subxids status lsn i = fold (\<lambda>(x, st) s. TransactionIdSetStatusBit s x st lsn i) (page_writes xid subxids status) s"
  by (simp add: set_page_bits_def page_writes_def Let_def fold_map comp_def)

text \<open>What a sequence of writes makes of the status \<open>v\<close> of transaction \<open>y\<close>.\<close>

definition wrote :: "status_write list \<Rightarrow> TransactionId \<Rightarrow> XidStatus \<Rightarrow> XidStatus" where
  "wrote ws y v = fold (\<lambda>(x, st) v. if x = y then st else v) ws v"

lemma wrote_simps [simp]: "wrote [] y v = v" "wrote ((x, st) # ws) y v = wrote ws y (if x = y then st else v)"
    "wrote (ws @ ws') y v = wrote ws' y (wrote ws y v)"
  by (simp_all add: wrote_def)

lemma wrote_other: "y \<notin> fst ` set ws \<Longrightarrow> wrote ws y v = v"
  by (induction ws arbitrary: v) auto

lemma wrote_map: "wrote (map (\<lambda>x. (x, st)) xs) y v = (if y \<in> set xs then st else v)"
  by (induction xs arbitrary: v) auto

lemma status_on_writes:
  assumes "\<forall>(x, st) \<in> set ws. TransactionIdToPage x = TransactionIdToPage y \<and> st < 4"
  shows "status_on (fold (\<lambda>(x, st) p. set_status_on p x st) ws page) y = wrote ws y (status_on page y)"
  using assms
proof (induction ws arbitrary: page)
  case (Cons w ws)
  then show ?case by (cases w) (simp add: status_on_set)
qed simp

text \<open>A step that makes the writes \<open>ws\<close>, of transactions whose commit record ends at \<open>lsn\<close>: the statuses
  change accordingly, and before a changed page is written the WAL will be flushed up to \<open>lsn\<close>.\<close>

definition lsn_group :: "TransactionId \<Rightarrow> nat" where
  "lsn_group xid = TransactionIdToPgIndex xid div CLOG_XACTS_PER_LSN_GROUP"

lemma GetLSNIndex_group: "GetLSNIndex i x = i * CLOG_LSNS_PER_PAGE + lsn_group x" "lsn_group x < CLOG_LSNS_PER_PAGE"
  by (simp_all add: GetLSNIndex_def lsn_group_def TransactionIdToPgIndex_def clog_layout)

definition clog_step :: "Slru \<Rightarrow> XLogRecPtr \<Rightarrow> status_write list \<Rightarrow> Slru \<Rightarrow> bool" where
  "clog_step s lsn ws s' \<longleftrightarrow> clog_inv s' \<and> same_ctl s s' \<and> lsns_kept s s'
     \<and> (\<forall>x \<in> fst ` set ws. lsn_covered s' (TransactionIdToPage x) (lsn_group x) lsn)
     \<and> (\<forall>y v. clog_status s y = Some v \<longrightarrow> clog_status s' y = Some (wrote ws y v))
     \<and> (io_fine s \<longrightarrow> io_fine s')"

lemma clog_step_refl: "clog_inv s \<Longrightarrow> clog_step s lsn [] s"
  by (simp add: clog_step_def same_ctl_refl)

lemma clog_step_trans:
  assumes "clog_step s lsn ws t" and "clog_step t lsn ws' u"
  shows "clog_step s lsn (ws @ ws') u"
proof -
  have t: "lsn_groups_per_page t = CLOG_LSNS_PER_PAGE" using assms(1) by (simp add: clog_step_def clog_inv_def)
  have "lsn_covered u (TransactionIdToPage x) (lsn_group x) lsn" if "x \<in> fst ` set ws" for x
  proof -
    have "lsn_covered t (TransactionIdToPage x) (lsn_group x) lsn" "lsns_kept t u"
      using assms that unfolding clog_step_def by blast+
    then show ?thesis using GetLSNIndex_group(2) [of x] by (simp add: lsns_kept_def t)
  qed
  moreover have "lsns_kept s u" using assms by (intro lsns_kept_trans [of s t u]) (auto simp: clog_step_def)
  moreover have "same_ctl s u" using assms by (intro same_ctl_trans [of s t u]) (auto simp: clog_step_def)
  ultimately show ?thesis using assms unfolding clog_step_def set_append image_Un wrote_simps(3) by blast
qed

lemma clog_step_status: "clog_step s lsn ws t \<Longrightarrow> clog_status s x \<noteq> None \<Longrightarrow> clog_status t x \<noteq> None"
  by (cases "clog_status s x") (auto simp: clog_step_def)

lemma keeps_clog_step:
  assumes "clog_inv s" and "keeps s t"
  shows "clog_step s lsn [] t"
proof -
  have "clog_inv t" using assms by (simp add: clog_inv_def keeps_def same_ctl_def)
  moreover have "clog_status s y = Some v \<Longrightarrow> clog_status t y = Some v" for y v
    using keeps_stored [OF assms(2)] by (auto simp: clog_status_def)
  ultimately show ?thesis using io_fine_keeps [OF assms(2)] assms(2) by (simp add: clog_step_def keeps_def)
qed

lemma GetLSNIndex_other:
  assumes "j \<noteq> i" and "k < CLOG_LSNS_PER_PAGE"
  shows "j * CLOG_LSNS_PER_PAGE + k \<noteq> GetLSNIndex i x"
proof
  assume eq: "j * CLOG_LSNS_PER_PAGE + k = GetLSNIndex i x"
  have "(unat x mod CLOG_XACTS_PER_PAGE) div CLOG_XACTS_PER_LSN_GROUP < CLOG_LSNS_PER_PAGE" by (simp add: clog_layout)
  then have "GetLSNIndex i x div CLOG_LSNS_PER_PAGE = i" by (simp add: GetLSNIndex_def)
  moreover have "(j * CLOG_LSNS_PER_PAGE + k) div CLOG_LSNS_PER_PAGE = j" using assms(2) by simp
  ultimately show False using eq assms(1) by simp
qed

text \<open>The writes on one page.\<close>

lemma set_bits_step:
  assumes inv: "clog_inv t" and i: "i < num_slots t" "page_number t i = pageno" "holds_page t i"
    and on: "\<forall>(x, st) \<in> set ws. TransactionIdToPage x = pageno \<and> st < 4"
  shows "clog_step t lsn ws (set_dirty (fold (\<lambda>(x, st) s. TransactionIdSetStatusBit s x st lsn i) ws t) i True)"
proof -
  let ?b = "fold (\<lambda>(x, st) p. set_status_on p x st) ws (page_buffer t i)"
  from inv have "slru_inv t" and lsns: "lsn_groups_per_page t = CLOG_LSNS_PER_PAGE" "PagePrecedes t = CLOGPagePrecedes"
    by (auto simp: clog_inv_def)
  then have "\<not> InRecovery t" by (simp add: slru_inv_def)
  from fold_SetStatusBit [OF this, of lsn i ws] obtain g where
    g: "fold (\<lambda>(x, st) s. TransactionIdSetStatusBit s x st lsn i) ws t = t\<lparr>page_buffer := (page_buffer t)(i := ?b), group_lsn := g\<rparr>"
    "\<And>k. (\<forall>x. k \<noteq> GetLSNIndex i x) \<Longrightarrow> g k = group_lsn t k" "\<And>k. group_lsn t k \<le> g k"
    "\<And>x. x \<in> fst ` set ws \<Longrightarrow> lsn \<le> g (GetLSNIndex i x)" by blast
  let ?s = "t\<lparr>page_buffer := (page_buffer t)(i := ?b), page_dirty := (page_dirty t)(i := True), group_lsn := g\<rparr>"
  have s: "set_dirty (fold (\<lambda>(x, st) s. TransactionIdSetStatusBit s x st lsn i) ws t) i True = ?s"
    unfolding g(1) by (simp add: slot_defs)
  have "g (j * lsn_groups_per_page t + k) = group_lsn t (j * lsn_groups_per_page t + k)"
    if "j \<noteq> i" "k < lsn_groups_per_page t" for j k
    using g(2) GetLSNIndex_other that by (simp add: lsns)
  note d = dirty_slot [OF \<open>slru_inv t\<close> i(1,3) refl this, where b = ?b]
  have "clog_status ?s y = Some (wrote ws y v)" if v: "clog_status t y = Some v" for y v
  proof (cases "TransactionIdToPage y = pageno")
    case True
    have "stored t pageno = Some (page_buffer t i)"
      using stored_held [of t i] \<open>slru_inv t\<close> i by (simp add: slru_inv_def)
    with v True have "v = status_on (page_buffer t i) y" by (simp add: clog_status_def)
    moreover have "status_on ?b y = wrote ws y (status_on (page_buffer t i) y)"
      using on True by (intro status_on_writes) auto
    ultimately show ?thesis using True by (simp add: clog_status_def d(2) i(2))
  next
    case False
    then have "y \<notin> fst ` set ws" using on by auto
    with False v show ?thesis by (simp add: clog_status_def d(2) i(2) wrote_other)
  qed
  moreover have "clog_inv ?s" using d(1) lsns by (simp add: clog_inv_def)
  moreover have "io_fine ?s = io_fine t" by (simp add: io_fine_def)
  moreover have "same_ctl t ?s" by (simp add: same_ctl_def)
  moreover have "lsns_kept t ?s"
    using g(3) by (auto simp: lsns_kept_def lsn_covered_def holds_page_def intro: order_trans)
  moreover have "lsn_covered ?s (TransactionIdToPage x) (lsn_group x) lsn" if "x \<in> fst ` set ws" for x
  proof -
    have "TransactionIdToPage x = pageno" using on that by auto
    then show ?thesis using g(4) [OF that] i by (auto simp: lsn_covered_def holds_page_def lsns GetLSNIndex_group(1))
  qed
  ultimately show ?thesis unfolding s by (simp add: clog_step_def)
qed

text \<open>An operation that means to make the writes \<open>ws\<close> makes a prefix of them, and all of them
  unless it reports an error.\<close>

definition writes_post :: "Slru \<Rightarrow> XLogRecPtr \<Rightarrow> status_write list \<Rightarrow> (Slru \<times> unit result) option \<Rightarrow> bool" where
  "writes_post s lsn ws res \<longleftrightarrow> (\<exists>s' r ws'. res = Some (s', r) \<and> prefix ws' ws \<and> clog_step s lsn ws' s'
     \<and> (r = Inr () \<longrightarrow> ws' = ws) \<and> (io_fine s \<and> (\<forall>x \<in> fst ` set ws. clog_status s x \<noteq> None) \<longrightarrow> r = Inr ()))"

lemma writes_post_and_then:
  assumes 1: "writes_post s lsn ws1 res" and 2: "\<And>t. clog_step s lsn ws1 t \<Longrightarrow> writes_post t lsn ws2 (f t)"
  shows "writes_post s lsn (ws1 @ ws2) (and_then res f)"
proof -
  from 1 obtain t r ws1' where t: "res = Some (t, r)" "prefix ws1' ws1" "clog_step s lsn ws1' t" "r = Inr () \<longrightarrow> ws1' = ws1"
    "io_fine s \<and> (\<forall>x \<in> fst ` set ws1. clog_status s x \<noteq> None) \<longrightarrow> r = Inr ()" unfolding writes_post_def by blast
  show ?thesis
  proof (cases r)
    case (Inl e)
    then have "and_then res f = Some (t, Inl e)" by (simp add: and_then_def t)
    moreover have "prefix ws1' (ws1 @ ws2)" using t(2) by (rule prefix_prefix)
    ultimately show ?thesis unfolding writes_post_def
      using t Inl by (intro exI [of _ t] exI [of _ r] exI [of _ ws1']) auto
  next
    case (Inr u)
    with t have step: "clog_step s lsn ws1 t" by simp
    from 2 [OF step] obtain s' r' ws2' where f: "f t = Some (s', r')" "prefix ws2' ws2" "clog_step t lsn ws2' s'" "r' = Inr () \<longrightarrow> ws2' = ws2"
      "io_fine t \<and> (\<forall>x \<in> fst ` set ws2. clog_status t x \<noteq> None) \<longrightarrow> r' = Inr ()" unfolding writes_post_def by blast
    have "and_then res f = Some (s', r')" using Inr by (simp add: and_then_def t f)
    moreover have "clog_step s lsn (ws1 @ ws2') s'" by (rule clog_step_trans [OF step f(3)])
    moreover have "io_fine s \<and> (\<forall>x \<in> fst ` set (ws1 @ ws2). clog_status s x \<noteq> None) \<longrightarrow>
        io_fine t \<and> (\<forall>x \<in> fst ` set ws2. clog_status t x \<noteq> None)"
      using step clog_step_status [OF step] unfolding clog_step_def set_append image_Un by blast
    ultimately show ?thesis unfolding writes_post_def using f
      by (intro exI [of _ s'] exI [of _ r'] exI [of _ "ws1 @ ws2'"]) auto
  qed
qed

lemma SetPageStatus_post:
  assumes inv: "clog_inv s" and ne: "ws \<noteq> []"
    and on: "\<forall>(x, st) \<in> set ws. TransactionIdToPage x = pageno \<and> st < 4"
    and ws: "ws = page_writes xid subxids status"
  shows "writes_post s lsn ws (TransactionIdSetPageStatus s xid subxids status lsn pageno)"
proof -
  from inv have "slru_inv s" by (simp add: clog_inv_def)
  note post = SimpleLruReadPage_post [OF this, of pageno "lsn = 0"]
  then obtain t r where r: "SimpleLruReadPage s pageno (lsn = 0) = Some (t, r)"
    by (cases "SimpleLruReadPage s pageno (lsn = 0)") (auto simp: read_post_def)
  note post = post [unfolded r read_post_def]
  then have k: "keeps s t" by (cases r) auto
  note step = keeps_clog_step [OF inv k, of lsn]
  show ?thesis
  proof (cases r)
    case (Inl e)
    have res: "TransactionIdSetPageStatus s xid subxids status lsn pageno = Some (t, Inl e)"
      by (simp add: TransactionIdSetPageStatus_def TransactionIdSetPageStatusInternal_def r Inl)
    obtain x st where "(x, st) \<in> set ws" using ne by (cases ws) auto
    then have "x \<in> fst ` set ws" "TransactionIdToPage x = pageno" using on by (auto intro: image_eqI [of x fst "(x, st)"])
    then have "\<not> (io_fine s \<and> (\<forall>x \<in> fst ` set ws. clog_status s x \<noteq> None))"
      using post Inl by (auto simp: clog_status_def)
    then show ?thesis unfolding writes_post_def res
      using step by (intro exI [of _ t] exI [of _ "Inl e"] exI [of _ "[]"]) auto
  next
    case (Inr i)
    let ?s = "set_dirty (fold (\<lambda>(x, st) s. TransactionIdSetStatusBit s x st lsn i) ws t) i True"
    have res: "TransactionIdSetPageStatus s xid subxids status lsn pageno = Some (?s, Inr ())"
      by (simp add: TransactionIdSetPageStatus_def TransactionIdSetPageStatusInternal_def r Inr set_page_bits_eq ws Let_def)
    have "clog_inv t" using step by (simp add: clog_step_def)
    moreover have "i < num_slots t" "page_number t i = pageno" "holds_page t i"
      using post Inr k by (auto simp: keeps_def same_ctl_def)
    ultimately have "clog_step t lsn ws ?s" using on by (intro set_bits_step)
    from clog_step_trans [OF step this] show ?thesis unfolding writes_post_def res
      by (intro exI [of _ ?s] exI [of _ "Inr ()"] exI [of _ ws]) auto
  qed
qed

lemma set_status_by_pages_post:
  assumes "clog_inv s" and "status < 4"
  shows "writes_post s lsn (map (\<lambda>x. (x, status)) xs) (set_status_by_pages s xs status lsn)"
  using assms
proof (induction s xs status lsn rule: set_status_by_pages.induct)
  case (1 s status lsn)
  then show ?case using clog_step_refl by (auto simp: writes_post_def)
next
  case (2 s x xs status lsn)
  let ?P = "\<lambda>y. TransactionIdToPage y = TransactionIdToPage x"
  let ?on = "takeWhile ?P (x # xs)" and ?rest = "dropWhile ?P (x # xs)"
  have ws: "map (\<lambda>x. (x, status)) ?on = page_writes InvalidTransactionId ?on status"
    by (simp add: page_writes_def TransactionIdIsValid_def)
  have "\<forall>(y, st) \<in> set (map (\<lambda>x. (x, status)) ?on). TransactionIdToPage y = TransactionIdToPage x \<and> st < 4"
    using 2(3) by (auto dest: set_takeWhileD)
  moreover have "map (\<lambda>x. (x, status)) ?on \<noteq> []" by simp
  ultimately have first: "writes_post s lsn (map (\<lambda>x. (x, status)) ?on)
      (TransactionIdSetPageStatus s InvalidTransactionId ?on status lsn (TransactionIdToPage x))"
    using SetPageStatus_post [OF 2(2) _ _ ws] by blast
  have rest: "writes_post t lsn (map (\<lambda>x. (x, status)) ?rest) (set_status_by_pages t ?rest status lsn)"
    if "clog_step s lsn (map (\<lambda>x. (x, status)) ?on) t" for t
    using 2(1) [OF refl refl refl] that 2(3) by (simp add: clog_step_def)
  have "map (\<lambda>x. (x, status)) (x # xs) = map (\<lambda>x. (x, status)) ?on @ map (\<lambda>x. (x, status)) ?rest"
    by (simp only: map_append [symmetric] takeWhile_dropWhile_id)
  moreover note writes_post_and_then [OF first rest]
  ultimately show ?case by (simp only: set_status_by_pages.simps Let_def)
qed

section \<open>A transaction tree\<close>

text \<open>The status writes of TransactionIdSetTreeStatus, in their order.\<close>

definition tree_writes :: "TransactionId \<Rightarrow> TransactionId list \<Rightarrow> XidStatus \<Rightarrow> status_write list" where
  "tree_writes xid subxids status =
     (let i = length (takeWhile (\<lambda>y. TransactionIdToPage y = TransactionIdToPage xid) subxids)
      in if i = length subxids then page_writes xid subxids status
         else (if status = TRANSACTION_STATUS_COMMITTED then map (\<lambda>x. (x, TRANSACTION_STATUS_SUB_COMMITTED)) (drop i subxids) else [])
              @ page_writes xid (take i subxids) status @ map (\<lambda>x. (x, status)) (drop i subxids))"

lemma page_writes_on:
  assumes "TransactionIdIsValid xid" and "\<forall>y \<in> set subxids. TransactionIdToPage y = TransactionIdToPage xid" and "status < 4"
  shows "page_writes xid subxids status \<noteq> []"
    "\<forall>(x, st) \<in> set (page_writes xid subxids status). TransactionIdToPage x = TransactionIdToPage xid \<and> st < 4"
  using assms by (auto simp: page_writes_def status_defs)

lemma SetTreeStatus_post:
  assumes inv: "clog_inv s" and valid: "TransactionIdIsValid xid" and st: "status < 4"
  shows "writes_post s lsn (tree_writes xid subxids status) (TransactionIdSetTreeStatus s xid subxids status lsn)"
proof -
  let ?P = "\<lambda>y. TransactionIdToPage y = TransactionIdToPage xid"
  let ?i = "length (takeWhile ?P subxids)"
  have take: "take ?i subxids = takeWhile ?P subxids" by (metis takeWhile_eq_take)
  then have on: "\<forall>y \<in> set (take ?i subxids). ?P y" by (auto dest: set_takeWhileD)
  note page = page_writes_on [OF valid on st]
  have page_post: "writes_post t lsn (page_writes xid (take ?i subxids) status)
      (TransactionIdSetPageStatus t xid (take ?i subxids) status lsn (TransactionIdToPage xid))" if "clog_inv t" for t
    by (rule SetPageStatus_post [OF that page refl])
  show ?thesis
  proof (cases "?i = length subxids")
    case True
    with page_post [OF inv] show ?thesis by (simp add: tree_writes_def TransactionIdSetTreeStatus_def Let_def)
  next
    case False
    let ?sub = "if status = TRANSACTION_STATUS_COMMITTED then map (\<lambda>x. (x, TRANSACTION_STATUS_SUB_COMMITTED)) (drop ?i subxids) else []"
    have first: "writes_post s lsn ?sub (if status = TRANSACTION_STATUS_COMMITTED
        then set_status_by_pages s (drop ?i subxids) TRANSACTION_STATUS_SUB_COMMITTED lsn else Some (s, Inr ()))"
    proof (cases "status = TRANSACTION_STATUS_COMMITTED")
      case True
      have "TRANSACTION_STATUS_SUB_COMMITTED < 4" by (simp add: status_defs)
      from set_status_by_pages_post [OF inv this] True show ?thesis by simp
    next
      case False
      with clog_step_refl [OF inv] show ?thesis by (simp add: writes_post_def)
    qed
    have rest: "writes_post t lsn (map (\<lambda>x. (x, status)) (drop ?i subxids)) (set_status_by_pages t (drop ?i subxids) status lsn)"
      if "clog_inv t" for t
      by (rule set_status_by_pages_post [OF that st])
    have tail: "writes_post t lsn (page_writes xid (take ?i subxids) status @ map (\<lambda>x. (x, status)) (drop ?i subxids))
      (and_then (TransactionIdSetPageStatus t xid (take ?i subxids) status lsn (TransactionIdToPage xid))
         (\<lambda>s. set_status_by_pages s (drop ?i subxids) status lsn))" if "clog_inv t" for t
      by (rule writes_post_and_then [OF page_post [OF that]], rule rest) (simp add: clog_step_def)
    have "writes_post s lsn (?sub @ page_writes xid (take ?i subxids) status @ map (\<lambda>x. (x, status)) (drop ?i subxids))
      (and_then (if status = TRANSACTION_STATUS_COMMITTED
          then set_status_by_pages s (drop ?i subxids) TRANSACTION_STATUS_SUB_COMMITTED lsn else Some (s, Inr ()))
        (\<lambda>s. and_then (TransactionIdSetPageStatus s xid (take ?i subxids) status lsn (TransactionIdToPage xid))
           (\<lambda>s. set_status_by_pages s (drop ?i subxids) status lsn)))"
      by (rule writes_post_and_then [OF first]) (rule tail, simp add: clog_step_def)
    with False show ?thesis unfolding tree_writes_def TransactionIdSetTreeStatus_def Let_def by (simp only: if_False)
  qed
qed

text \<open>A commit marks every subtransaction before the main transaction, and completes them after it.\<close>

lemma take_drop_set: "set (drop i xs) \<union> set (take i xs) = set xs"
  using set_append [of "take i xs" "drop i xs"] by (simp only: append_take_drop_id Un_commute)

lemma map_take_drop [simp]: "map f (take i xs) @ map f (drop i xs) = map f xs"
  by (simp only: map_append [symmetric] append_take_drop_id)

lemma tree_writes_split:
  obtains i where "tree_writes xid subxids status =
      (if status = TRANSACTION_STATUS_COMMITTED then map (\<lambda>x. (x, TRANSACTION_STATUS_SUB_COMMITTED)) (drop i subxids) else [])
      @ page_writes xid (take i subxids) status @ map (\<lambda>x. (x, status)) (drop i subxids)"
proof (cases "length (takeWhile (\<lambda>y. TransactionIdToPage y = TransactionIdToPage xid) subxids) = length subxids")
  case True
  then show ?thesis by (intro that [of "length subxids"]) (simp add: tree_writes_def)
next
  case False
  then show ?thesis
    by (intro that [of "length (takeWhile (\<lambda>y. TransactionIdToPage y = TransactionIdToPage xid) subxids)"])
      (simp only: tree_writes_def Let_def if_False)
qed

lemma tree_writes_commit:
  assumes "TransactionIdIsValid xid"
  obtains xs ys where "tree_writes xid subxids TRANSACTION_STATUS_COMMITTED =
      map (\<lambda>x. (x, TRANSACTION_STATUS_SUB_COMMITTED)) xs @ (xid, TRANSACTION_STATUS_COMMITTED) # map (\<lambda>x. (x, TRANSACTION_STATUS_COMMITTED)) ys"
    "set xs = set subxids" "set ys = set subxids"
proof (rule tree_writes_split [of xid subxids TRANSACTION_STATUS_COMMITTED])
  fix i
  assume split: "tree_writes xid subxids TRANSACTION_STATUS_COMMITTED =
      (if TRANSACTION_STATUS_COMMITTED = TRANSACTION_STATUS_COMMITTED
       then map (\<lambda>x. (x, TRANSACTION_STATUS_SUB_COMMITTED)) (drop i subxids) else [])
      @ page_writes xid (take i subxids) TRANSACTION_STATUS_COMMITTED @ map (\<lambda>x. (x, TRANSACTION_STATUS_COMMITTED)) (drop i subxids)"
  show thesis
    by (rule that [of "drop i subxids @ take i subxids" "take i subxids @ drop i subxids"])
      (use assms split take_drop_set [of i subxids] in \<open>simp_all add: page_writes_def Un_commute\<close>)
qed

lemma tree_writes_abort:
  assumes "TransactionIdIsValid xid"
  obtains xs where "tree_writes xid subxids TRANSACTION_STATUS_ABORTED = map (\<lambda>x. (x, TRANSACTION_STATUS_ABORTED)) xs"
    "set xs = insert xid (set subxids)"
proof (rule tree_writes_split [of xid subxids TRANSACTION_STATUS_ABORTED])
  fix i
  assume split: "tree_writes xid subxids TRANSACTION_STATUS_ABORTED =
      (if TRANSACTION_STATUS_ABORTED = TRANSACTION_STATUS_COMMITTED
       then map (\<lambda>x. (x, TRANSACTION_STATUS_SUB_COMMITTED)) (drop i subxids) else [])
      @ page_writes xid (take i subxids) TRANSACTION_STATUS_ABORTED @ map (\<lambda>x. (x, TRANSACTION_STATUS_ABORTED)) (drop i subxids)"
  have ne: "TRANSACTION_STATUS_ABORTED \<noteq> TRANSACTION_STATUS_COMMITTED" by (simp add: status_defs)
  show thesis
    by (rule that [of "xid # take i subxids @ drop i subxids"])
      (use assms split ne take_drop_set [of i subxids] in \<open>simp_all add: page_writes_def Un_commute\<close>)
qed

end
