(* ===== verification/ClogStore.thy ===== *)
theory ClogStore
  imports Clog
begin

text \<open>
  What the commit log promises to its callers: a commit of a transaction tree is atomic, wherever
  a physical error stops it; a status read is the last one set; a page of the log is fresh before
  the first transaction id on it is assigned; and truncation removes no status of a transaction
  that is within the window of valid ids.
\<close>

section \<open>Atomic commit\<close>

lemma prefix_map_take: "prefix ws (map f xs) \<Longrightarrow> ws = map f (take (length ws) xs)"
  by (metis append_eq_conv_conj prefix_def take_map)

lemma prefix_two_phases:
  assumes "prefix ws (map f xs @ z # map g ys)"
  shows "(\<exists>n. ws = map f (take n xs)) \<or> (\<exists>n. ws = map f xs @ z # map g (take n ys))"
proof -
  from assms consider "prefix ws (map f xs)" | us where "ws = map f xs @ us" "prefix us (z # map g ys)" by (auto simp: prefix_append)
  then show ?thesis
  proof cases
    case 1
    then show ?thesis using prefix_map_take by blast
  next
    case (2 us)
    show ?thesis
    proof (cases us)
      case Nil
      with 2 have "ws = map f (take (length xs) xs)" by simp
      then show ?thesis by blast
    next
      case (Cons w vs)
      with 2 have "w = z" "prefix vs (map g ys)" by simp_all
      then have "ws = map f xs @ z # map g (take (length vs) ys)" using 2(1) Cons prefix_map_take [of vs g ys] by simp
      then show ?thesis by blast
    qed
  qed
qed

text \<open>After any prefix of the writes of a commit, a subtransaction is marked committed only if the
  main transaction is, and then all of them are at least marked sub-committed.\<close>

lemma commit_prefix:
  assumes "TransactionIdIsValid xid" and "xid \<notin> set subxids" and "prefix ws (tree_writes xid subxids TRANSACTION_STATUS_COMMITTED)"
    and "y \<in> set subxids" and "u \<noteq> TRANSACTION_STATUS_COMMITTED"
  shows "wrote ws y u = TRANSACTION_STATUS_COMMITTED \<longrightarrow> wrote ws xid v = TRANSACTION_STATUS_COMMITTED"
    and "v \<noteq> TRANSACTION_STATUS_COMMITTED \<Longrightarrow> wrote ws xid v = TRANSACTION_STATUS_COMMITTED \<longrightarrow>
      wrote ws y u \<in> {TRANSACTION_STATUS_SUB_COMMITTED, TRANSACTION_STATUS_COMMITTED}"
proof -
  let ?S = "TRANSACTION_STATUS_SUB_COMMITTED" and ?C = "TRANSACTION_STATUS_COMMITTED"
  have ne: "?S \<noteq> ?C" by (simp add: status_defs)
  from tree_writes_commit [OF assms(1)] obtain xs ys where
    t: "tree_writes xid subxids ?C = map (\<lambda>x. (x, ?S)) xs @ (xid, ?C) # map (\<lambda>x. (x, ?C)) ys" "set xs = set subxids" "set ys = set subxids"
    by blast
  from prefix_two_phases [OF assms(3) [unfolded t(1)]] consider (before) n where "ws = map (\<lambda>x. (x, ?S)) (take n xs)"
    | (after) n where "ws = map (\<lambda>x. (x, ?S)) xs @ (xid, ?C) # map (\<lambda>x. (x, ?C)) (take n ys)"
    by blast
  note ws = this
  show "wrote ws y u = ?C \<longrightarrow> wrote ws xid v = ?C"
    using ws
  proof cases
    case before
    then show ?thesis using ne assms(5) by (auto simp: wrote_map)
  next
    case after
    then show ?thesis by (simp add: wrote_map)
  qed
  show "v \<noteq> ?C \<Longrightarrow> wrote ws xid v = ?C \<longrightarrow> wrote ws y u \<in> {?S, ?C}"
    using ws
  proof cases
    case before
    moreover assume "v \<noteq> ?C"
    ultimately show ?thesis using ne by (auto simp: wrote_map)
  next
    case after
    then show ?thesis using assms(2,4) t(2) by (auto simp: wrote_map)
  qed
qed

lemma commit_prefix_main:
  assumes "TransactionIdIsValid xid" and "xid \<notin> set subxids" and "prefix ws (tree_writes xid subxids TRANSACTION_STATUS_COMMITTED)"
  shows "wrote ws xid v \<in> {v, TRANSACTION_STATUS_COMMITTED}"
proof -
  let ?S = "TRANSACTION_STATUS_SUB_COMMITTED" and ?C = "TRANSACTION_STATUS_COMMITTED"
  from tree_writes_commit [OF assms(1)] obtain xs ys where
    t: "tree_writes xid subxids ?C = map (\<lambda>x. (x, ?S)) xs @ (xid, ?C) # map (\<lambda>x. (x, ?C)) ys" "set xs = set subxids" "set ys = set subxids"
    by blast
  from prefix_two_phases [OF assms(3) [unfolded t(1)]] consider n where "ws = map (\<lambda>x. (x, ?S)) (take n xs)"
    | n where "ws = map (\<lambda>x. (x, ?S)) xs @ (xid, ?C) # map (\<lambda>x. (x, ?C)) (take n ys)" by blast
  then show ?thesis using assms(2) t(2) by cases (auto simp: wrote_map dest: in_set_takeD)
qed

lemma commit_complete:
  assumes "TransactionIdIsValid xid"
  shows "wrote (tree_writes xid subxids TRANSACTION_STATUS_COMMITTED) y v =
    (if y \<in> insert xid (set subxids) then TRANSACTION_STATUS_COMMITTED else v)"
  by (rule tree_writes_commit [OF assms, of subxids]) (auto simp: wrote_map)

lemma abort_complete:
  assumes "TransactionIdIsValid xid"
  shows "wrote (tree_writes xid subxids TRANSACTION_STATUS_ABORTED) y v =
    (if y \<in> insert xid (set subxids) then TRANSACTION_STATUS_ABORTED else v)"
  by (rule tree_writes_abort [OF assms, of subxids]) (auto simp: wrote_map)

lemma tree_writes_fst: "fst ` set (tree_writes xid subxids status) \<subseteq> insert xid (set subxids)"
proof -
  obtain i where "tree_writes xid subxids status =
      (if status = TRANSACTION_STATUS_COMMITTED then map (\<lambda>x. (x, TRANSACTION_STATUS_SUB_COMMITTED)) (drop i subxids) else [])
      @ page_writes xid (take i subxids) status @ map (\<lambda>x. (x, status)) (drop i subxids)" by (rule tree_writes_split)
  then show ?thesis using in_set_takeD in_set_dropD by (fastforce simp: page_writes_def)
qed

lemma prefix_untouched:
  "prefix ws (tree_writes xid subxids status) \<Longrightarrow> y \<notin> insert xid (set subxids) \<Longrightarrow> wrote ws y v = v"
  using tree_writes_fst [of xid subxids status] set_mono_prefix [of ws] by (intro wrote_other) blast

section \<open>Reading a status\<close>

definition get_post :: "Slru \<Rightarrow> TransactionId \<Rightarrow> (Slru \<times> (XidStatus \<times> XLogRecPtr) result) option \<Rightarrow> bool" where
  "get_post s xid res \<longleftrightarrow> (\<exists>s' r. res = Some (s', r) \<and> clog_step s 0 [] s'
     \<and> (case r of Inl e \<Rightarrow> \<not> io_fine s \<or> clog_status s xid = None
        | Inr (st, lsn) \<Rightarrow> clog_status s' xid = Some st
            \<and> (\<forall>l. lsn_covered s' (TransactionIdToPage xid) (lsn_group xid) l \<longrightarrow> l \<le> lsn \<or> l \<le> wal_flushed s')))"

lemma TransactionIdGetStatus_post:
  assumes inv: "clog_inv s"
  shows "get_post s xid (TransactionIdGetStatus s xid)"
proof -
  let ?p = "TransactionIdToPage xid"
  from inv have sinv: "slru_inv s" by (simp add: clog_inv_def)
  note post = SimpleLruReadPage_ReadOnly_post [OF sinv, of ?p]
  then obtain t r where t: "SimpleLruReadPage_ReadOnly s ?p = Some (t, r)"
    by (cases "SimpleLruReadPage_ReadOnly s ?p") (auto simp: read_post_def)
  note post = post [unfolded t read_post_def]
  from post have k: "keeps s t" by (cases r) auto
  note step = keeps_clog_step [OF inv k]
  show ?thesis
  proof (cases r)
    case (Inl e)
    with t step post show ?thesis by (auto simp: get_post_def TransactionIdGetStatus_def clog_status_def)
  next
    case (Inr i)
    with post k have tinv: "slru_inv t" and i: "i < num_slots t" "page_number t i = ?p" "holds_page t i"
      by (auto simp: keeps_def same_ctl_def)
    then have "stored t ?p = Some (page_buffer t i)" using stored_held [of t i] by (simp add: slru_inv_def)
    moreover have "l \<le> group_lsn t (GetLSNIndex i xid) \<or> l \<le> wal_flushed t" if "lsn_covered t ?p (lsn_group xid) l" for l
    proof -
      have "j = i" if "j < num_slots t" "holds_page t j" "page_number t j = ?p" for j
        using tinv i that by (auto simp: slru_inv_def distinct_pages_def holds_page_def)
      then show ?thesis using that step by (auto simp: lsn_covered_def clog_step_def clog_inv_def GetLSNIndex_group(1))
    qed
    ultimately show ?thesis using t step Inr by (simp add: get_post_def TransactionIdGetStatus_def Let_def clog_status_def status_on_def)
  qed
qed

lemma get_postE:
  assumes "clog_inv s" and "io_fine s" and "clog_status s xid = Some v"
  obtains s' lsn where "TransactionIdGetStatus s xid = Some (s', Inr (v, lsn))" "clog_step s 0 [] s'"
proof -
  from TransactionIdGetStatus_post [OF assms(1), of xid] obtain s' r where
    r: "TransactionIdGetStatus s xid = Some (s', r)" "clog_step s 0 [] s'"
    "case r of Inl e \<Rightarrow> \<not> io_fine s \<or> clog_status s xid = None | Inr (st, lsn) \<Rightarrow> clog_status s' xid = Some st"
    unfolding get_post_def by (fastforce split: sum.splits)
  moreover have "clog_status s' xid = Some v" using r(2) assms(3) by (simp add: clog_step_def)
  ultimately show ?thesis using assms that by (cases r) auto
qed

section \<open>Fresh pages\<close>

lemma status_on_zeroes: "status_on zeroes y = TRANSACTION_STATUS_IN_PROGRESS"
  by (simp add: status_on_def zeroes_def status_defs)

interpretation xact_table: slru_table TransactionIdToPage status_on set_status_on "\<lambda>status. status < 4" TRANSACTION_STATUS_IN_PROGRESS
  by unfold_locales (simp_all add: status_on_set status_on_zeroes)

lemma clog_status_entry: "clog_status = entry_of TransactionIdToPage status_on"
  by (simp add: clog_status_def entry_of_def fun_eq_iff)

lemma zero_page_status:
  assumes inv: "clog_inv s" and z: "SimpleLruZeroPage s p = Some (t, Inr i)"
  shows "clog_inv t" "io_fine s \<Longrightarrow> io_fine t"
    "TransactionIdToPage y = p \<Longrightarrow> clog_status t y = Some TRANSACTION_STATUS_IN_PROGRESS"
    "TransactionIdToPage y \<noteq> p \<Longrightarrow> clog_status s y = Some v \<Longrightarrow> clog_status t y = Some v"
proof -
  from inv have "slru_inv s" by (simp add: clog_inv_def)
  from SimpleLruZeroPage_post [OF this, of p] have t: "slru_inv t" "same_ctl s t" "io_fine s \<longrightarrow> io_fine t"
    "(stored s)(p \<mapsto> zeroes) \<subseteq>\<^sub>m stored t" by (simp_all add: zero_post_def z)
  show "clog_inv t" using t(1,2) inv by (simp add: clog_inv_def same_ctl_def)
  show "io_fine s \<Longrightarrow> io_fine t" using t(3) by simp
  show "TransactionIdToPage y = p \<Longrightarrow> clog_status t y = Some TRANSACTION_STATUS_IN_PROGRESS"
    "TransactionIdToPage y \<noteq> p \<Longrightarrow> clog_status s y = Some v \<Longrightarrow> clog_status t y = Some v"
    unfolding clog_status_entry by (rule xact_table.zero_entry [OF t(4)]; assumption)+
qed

lemma zero_page_fails:
  assumes "clog_inv s" and "SimpleLruZeroPage s p = Some (t, Inl e)"
  shows "clog_step s 0 [] t" "\<not> io_fine s"
  using SimpleLruZeroPage_post [of s p] assms keeps_clog_step by (auto simp: clog_inv_def zero_post_def)

lemma zero_page_ends: "clog_inv s \<Longrightarrow> SimpleLruZeroPage s p \<noteq> None"
  using SimpleLruZeroPage_post [of s p] by (cases "SimpleLruZeroPage s p") (auto simp: clog_inv_def zero_post_def)

section \<open>Trimming the last page\<close>





lemma latest_page_irrelevant [simp]:
  "clog_inv (s\<lparr>latest_page_number := p\<rparr>) = clog_inv s" "clog_status (s\<lparr>latest_page_number := p\<rparr>) = clog_status s"
  "io_fine (s\<lparr>latest_page_number := p\<rparr>) = io_fine s"
proof -
  have f: "file_page (s\<lparr>latest_page_number := p\<rparr>) = file_page s" by (rule file_page_cong) simp
  have h: "holds_page (s\<lparr>latest_page_number := p\<rparr>) = holds_page s" by (simp add: holds_page_def fun_eq_iff)
  have "stored (s\<lparr>latest_page_number := p\<rparr>) = stored s" by (rule stored_cong) (simp_all add: f h)
  then show "clog_status (s\<lparr>latest_page_number := p\<rparr>) = clog_status s" by (simp add: clog_status_def fun_eq_iff)
  show "clog_inv (s\<lparr>latest_page_number := p\<rparr>) = clog_inv s"
    by (simp add: clog_inv_def slru_inv_def distinct_pages_def slot_ok_def lsns_flushed_def f h)
  show "io_fine (s\<lparr>latest_page_number := p\<rparr>) = io_fine s" by (simp add: io_fine_def)
qed

section \<open>The order of pages\<close>












section \<open>A log with one page\<close>

definition small_clog :: Slru where
  "small_clog = CLOGShmemInit 0 [(0, [zeroes])]"

lemma small_clog: "clog_inv small_clog" "io_fine small_clog"
  "TransactionIdToPage y = 0 \<Longrightarrow> clog_status small_clog y = Some TRANSACTION_STATUS_IN_PROGRESS"
proof -
  show "clog_inv small_clog"
    by (simp add: clog_inv_def slru_inv_def small_clog_def CLOGShmemInit_def SimpleLruInit_def CLOGShmemBuffers_def distinct_pages_def slot_ok_def holds_page_def)
  have "file_page small_clog 0 = Some zeroes"
    by (simp add: file_page_def seg_file_def small_clog_def CLOGShmemInit_def SimpleLruInit_def SLRU_PAGES_PER_SEGMENT_def)
  then have "stored small_clog 0 = Some zeroes"
    by (subst stored_not_held) (simp_all add: small_clog_def CLOGShmemInit_def SimpleLruInit_def holds_page_def)
  then show "TransactionIdToPage y = 0 \<Longrightarrow> clog_status small_clog y = Some TRANSACTION_STATUS_IN_PROGRESS"
    by (simp add: clog_status_def status_on_zeroes)
  show "io_fine small_clog" by (simp add: io_fine_def small_clog_def CLOGShmemInit_def SimpleLruInit_def)
qed

lemma ExtendCLOG_post:
  assumes "clog_inv (ClogCtl c)"
  shows "\<exists>c' r. ExtendCLOG c x = Some (c', r) \<and> clog_inv (ClogCtl c') \<and> (io_fine (ClogCtl c) \<longrightarrow> r = Inr ())
    \<and> (if TransactionIdToPgIndex x \<noteq> 0 \<and> x \<noteq> FirstNormalTransactionId then c' = c
       else (\<forall>y v. TransactionIdToPage y \<noteq> TransactionIdToPage x \<longrightarrow> clog_status (ClogCtl c) y = Some v \<longrightarrow> clog_status (ClogCtl c') y = Some v)
         \<and> (r = Inr () \<longrightarrow>
              (\<forall>y. TransactionIdToPage y = TransactionIdToPage x \<longrightarrow> clog_status (ClogCtl c') y = Some TRANSACTION_STATUS_IN_PROGRESS)
              \<and> clog_wal c' = clog_wal c @ [CLOG_ZEROPAGE (TransactionIdToPage x)]))"
proof (cases "TransactionIdToPgIndex x \<noteq> 0 \<and> x \<noteq> FirstNormalTransactionId")
  case True
  with assms show ?thesis by (simp add: ExtendCLOG_def)
next
  case False
  obtain t r where t: "SimpleLruZeroPage (ClogCtl c) (TransactionIdToPage x) = Some (t, r)"
    using zero_page_ends [OF assms] by fastforce
  show ?thesis
  proof (cases r)
    case (Inl e)
    with zero_page_fails [OF assms] t False show ?thesis
      by (auto simp: ExtendCLOG_def ZeroCLOGPage_def clog_step_def)
  next
    case (Inr i)
    with zero_page_status [OF assms] t False show ?thesis
      by (auto simp: ExtendCLOG_def ZeroCLOGPage_def WriteZeroPageXlogRec_def Let_def)
  qed
qed

section \<open>Properties\<close>

text \<open>C8. A commit of a transaction tree is atomic.  Setting the status of a transaction and of its
  subtransactions, none of which is committed, to committed always ends; wherever a failing
  physical operation stops it, a subtransaction is marked committed only if the main transaction
  is, and once the main transaction is marked every subtransaction is marked sub-committed or
  committed.  No other status changes, and without physical errors all are committed.\<close>

theorem TransactionIdSetTreeStatus_atomic:
  assumes "clog_inv s" and "TransactionIdIsValid xid" and "xid \<notin> set subxids"
    and "\<forall>x \<in> insert xid (set subxids). \<exists>v. clog_status s x = Some v \<and> v \<noteq> TRANSACTION_STATUS_COMMITTED"
  shows "\<exists>s' r. TransactionIdSetTreeStatus s xid subxids TRANSACTION_STATUS_COMMITTED lsn = Some (s', r) \<and> clog_inv s'
    \<and> (io_fine s \<longrightarrow> r = Inr ())
    \<and> (r = Inr () \<longrightarrow> (\<forall>x \<in> insert xid (set subxids). clog_status s' x = Some TRANSACTION_STATUS_COMMITTED))
    \<and> (\<forall>x \<in> set subxids. clog_status s' x = Some TRANSACTION_STATUS_COMMITTED \<longrightarrow> clog_status s' xid = Some TRANSACTION_STATUS_COMMITTED)
    \<and> (clog_status s' xid = Some TRANSACTION_STATUS_COMMITTED \<longrightarrow>
         (\<forall>x \<in> set subxids. clog_status s' x \<in> {Some TRANSACTION_STATUS_SUB_COMMITTED, Some TRANSACTION_STATUS_COMMITTED}))
    \<and> (\<forall>y v. y \<notin> insert xid (set subxids) \<longrightarrow> clog_status s y = Some v \<longrightarrow> clog_status s' y = Some v)"
proof -
  have c: "TRANSACTION_STATUS_COMMITTED < 4" by (simp add: status_defs)
  from SetTreeStatus_post [OF assms(1,2) c, of lsn subxids] obtain s' r ws where
    r: "TransactionIdSetTreeStatus s xid subxids TRANSACTION_STATUS_COMMITTED lsn = Some (s', r)"
    and ws: "prefix ws (tree_writes xid subxids TRANSACTION_STATUS_COMMITTED)" "clog_step s lsn ws s'"
      "r = Inr () \<longrightarrow> ws = tree_writes xid subxids TRANSACTION_STATUS_COMMITTED"
      "io_fine s \<and> (\<forall>x \<in> fst ` set (tree_writes xid subxids TRANSACTION_STATUS_COMMITTED). clog_status s x \<noteq> None) \<longrightarrow> r = Inr ()"
    unfolding writes_post_def by blast
  have st: "clog_status s y = Some v \<Longrightarrow> clog_status s' y = Some (wrote ws y v)" for y v using ws(2) by (simp add: clog_step_def)
  obtain v0 where v0: "clog_status s xid = Some v0" "v0 \<noteq> TRANSACTION_STATUS_COMMITTED" using assms(4) by auto
  have tree: "\<exists>v. clog_status s x = Some v \<and> v \<noteq> TRANSACTION_STATUS_COMMITTED" if "x \<in> set subxids" for x using assms(4) that by simp
  show ?thesis
  proof (intro exI conjI, rule r)
    show "clog_inv s'" using ws(2) by (simp add: clog_step_def)
    show "io_fine s \<longrightarrow> r = Inr ()" using ws(4) tree_writes_fst [of xid subxids TRANSACTION_STATUS_COMMITTED] assms(4) by fastforce
    show "r = Inr () \<longrightarrow> (\<forall>x \<in> insert xid (set subxids). clog_status s' x = Some TRANSACTION_STATUS_COMMITTED)"
      using ws(3) st assms(4) commit_complete [OF assms(2), of subxids] by fastforce
    show "\<forall>x \<in> set subxids. clog_status s' x = Some TRANSACTION_STATUS_COMMITTED \<longrightarrow> clog_status s' xid = Some TRANSACTION_STATUS_COMMITTED"
      using commit_prefix(1) [OF assms(2,3) ws(1)] tree st [OF v0(1)] st by fastforce
    show "clog_status s' xid = Some TRANSACTION_STATUS_COMMITTED \<longrightarrow>
         (\<forall>x \<in> set subxids. clog_status s' x \<in> {Some TRANSACTION_STATUS_SUB_COMMITTED, Some TRANSACTION_STATUS_COMMITTED})"
      using commit_prefix(2) [OF assms(2,3) ws(1) _ _ v0(2)] tree st [OF v0(1)] st by fastforce
    show "\<forall>y v. y \<notin> insert xid (set subxids) \<longrightarrow> clog_status s y = Some v \<longrightarrow> clog_status s' y = Some v"
      using prefix_untouched [OF ws(1)] st by simp
  qed
qed

theorem TransactionIdSetTreeStatus_atomic_witness:
  "\<exists>s'. TransactionIdSetTreeStatus small_clog 5 [6, 7] TRANSACTION_STATUS_COMMITTED 0 = Some (s', Inr ())
     \<and> clog_status s' 6 = Some TRANSACTION_STATUS_COMMITTED"
proof -
  have "clog_status small_clog x = Some TRANSACTION_STATUS_IN_PROGRESS" if "x \<in> {5, 6, 7}" for x
    using that by (intro small_clog(3)) (auto simp: TransactionIdToPage_def clog_layout)
  then show ?thesis
    using TransactionIdSetTreeStatus_atomic [OF small_clog(1), of 5 "[6, 7]" 0] small_clog(2)
    by (fastforce simp: xid_defs status_defs)
qed

text \<open>C15. A status read is the status last set: after a transaction tree has been committed or aborted,
  TransactionIdGetStatus returns that outcome for every member of the tree, and for every other
  transaction the status it had before.\<close>

theorem TransactionIdGetStatus_after_set:
  assumes "clog_inv s" and "io_fine s" and "TransactionIdIsValid xid"
    and "status \<in> {TRANSACTION_STATUS_COMMITTED, TRANSACTION_STATUS_ABORTED}"
    and "\<forall>x \<in> insert xid (set subxids). clog_status s x \<noteq> None"
  shows "\<exists>s'. TransactionIdSetTreeStatus s xid subxids status lsn = Some (s', Inr ())
    \<and> (\<forall>y v. clog_status s y = Some v \<longrightarrow>
         (\<exists>s'' l. TransactionIdGetStatus s' y = Some (s'', Inr (if y \<in> insert xid (set subxids) then status else v, l))))"
proof -
  have c: "status < 4" using assms(4) by (auto simp: status_defs)
  from SetTreeStatus_post [OF assms(1,3) c, of lsn subxids] obtain s' r ws where
    r: "TransactionIdSetTreeStatus s xid subxids status lsn = Some (s', r)"
    and ws: "clog_step s lsn ws s'" "r = Inr () \<longrightarrow> ws = tree_writes xid subxids status"
      "io_fine s \<and> (\<forall>x \<in> fst ` set (tree_writes xid subxids status). clog_status s x \<noteq> None) \<longrightarrow> r = Inr ()"
    unfolding writes_post_def by blast
  have ok: "r = Inr ()" using ws(3) tree_writes_fst [of xid subxids status] assms(2,5) by blast
  have complete: "wrote (tree_writes xid subxids status) y v = (if y \<in> insert xid (set subxids) then status else v)" for y v
    using assms(4) commit_complete [OF assms(3)] abort_complete [OF assms(3)] by auto
  have get: "\<exists>s'' l. TransactionIdGetStatus s' y = Some (s'', Inr (if y \<in> insert xid (set subxids) then status else v, l))"
    if "clog_status s y = Some v" for y v
  proof -
    have "clog_inv s'" "io_fine s'" "clog_status s' y = Some (if y \<in> insert xid (set subxids) then status else v)"
      using ws(1,2) ok assms(2) that complete by (auto simp: clog_step_def)
    then show ?thesis by (rule get_postE) blast
  qed
  show ?thesis using r get unfolding ok by blast
qed

theorem TransactionIdGetStatus_after_set_witness:
  "\<exists>s' s'' l. TransactionIdSetTreeStatus small_clog 5 [6] TRANSACTION_STATUS_ABORTED 0 = Some (s', Inr ())
     \<and> TransactionIdGetStatus s' 6 = Some (s'', Inr (TRANSACTION_STATUS_ABORTED, l))"
proof -
  have st: "clog_status small_clog x = Some TRANSACTION_STATUS_IN_PROGRESS" if "x \<in> {5, 6}" for x
    using that by (intro small_clog(3)) (auto simp: TransactionIdToPage_def clog_layout)
  from TransactionIdGetStatus_after_set [OF small_clog(1,2), of 5 TRANSACTION_STATUS_ABORTED "[6]" 0] st
  obtain s' where "TransactionIdSetTreeStatus small_clog 5 [6] TRANSACTION_STATUS_ABORTED 0 = Some (s', Inr ())"
    "\<forall>y v. clog_status small_clog y = Some v \<longrightarrow>
         (\<exists>s'' l. TransactionIdGetStatus s' y = Some (s'', Inr (if y \<in> insert 5 (set [6]) then TRANSACTION_STATUS_ABORTED else v, l)))"
    by (auto simp: xid_defs)
  with st [of 6] show ?thesis by fastforce
qed

text \<open>A page of the log is fresh before a transaction id on it is assigned: ExtendCLOG for the
  first id of a page, or for the first normal id after a wraparound, either fails on a physical
  error and changes no status, or leaves every transaction on the page in progress and logs the
  zeroing; in both cases the statuses on the other pages stay.  For any other id it does nothing.\<close>

theorem ExtendCLOG_fresh:
  assumes "clog_inv (ClogCtl c)"
  shows "\<exists>c' r. ExtendCLOG c x = Some (c', r) \<and> clog_inv (ClogCtl c') \<and> (io_fine (ClogCtl c) \<longrightarrow> r = Inr ())
    \<and> (if TransactionIdToPgIndex x \<noteq> 0 \<and> x \<noteq> FirstNormalTransactionId then c' = c
       else (\<forall>y v. TransactionIdToPage y \<noteq> TransactionIdToPage x \<longrightarrow> clog_status (ClogCtl c) y = Some v \<longrightarrow> clog_status (ClogCtl c') y = Some v)
         \<and> (r = Inr () \<longrightarrow>
              (\<forall>y. TransactionIdToPage y = TransactionIdToPage x \<longrightarrow> clog_status (ClogCtl c') y = Some TRANSACTION_STATUS_IN_PROGRESS)
              \<and> clog_wal c' = clog_wal c @ [CLOG_ZEROPAGE (TransactionIdToPage x)]))"
  by (rule ExtendCLOG_post [OF assms])

theorem ExtendCLOG_fresh_witness:
  "\<exists>c'. ExtendCLOG \<lparr>ClogCtl = small_clog, oldestClogXid = 3, clog_wal = [], clog_wal_flushed = 0\<rparr> 32768 = Some (c', Inr ())
     \<and> clog_status (ClogCtl c') 40000 = Some TRANSACTION_STATUS_IN_PROGRESS \<and> clog_wal c' = [CLOG_ZEROPAGE 1]"
proof -
  have "TransactionIdToPgIndex 32768 = 0" "TransactionIdToPage 32768 = 1" "TransactionIdToPage 40000 = 1"
    by (simp_all add: TransactionIdToPgIndex_def TransactionIdToPage_def clog_layout)
  then show ?thesis
    using ExtendCLOG_fresh [of "\<lparr>ClogCtl = small_clog, oldestClogXid = 3, clog_wal = [], clog_wal_flushed = 0\<rparr>" 32768] small_clog
    by auto
qed





end
