(* ===== verification/Subtrans.thy ===== *)
theory Subtrans
  imports SlruTable
begin

text \<open>
  The subtransaction log pg_subtrans, \<open>src/backend/access/transam/subtrans.c\<close>: the parent
  transaction of every subtransaction, four bytes per transaction id, in pages of an SLRU pool.
  A reader follows the links to the topmost transaction, but not past its own TransactionXmin.
\<close>

section \<open>Layout\<close>

definition SUBTRANS_XACTS_PER_PAGE :: nat where
  "SUBTRANS_XACTS_PER_PAGE = BLCKSZ div 4"

text \<open>The macro has the name TransactionIdToPage in the source, as that of clog.c.\<close>

definition SUBTRANS_TransactionIdToPage :: "TransactionId \<Rightarrow> nat" where
  "SUBTRANS_TransactionIdToPage xid = unat xid div SUBTRANS_XACTS_PER_PAGE"

definition TransactionIdToEntry :: "TransactionId \<Rightarrow> nat" where
  "TransactionIdToEntry xid = unat xid mod SUBTRANS_XACTS_PER_PAGE"

lemmas subtrans_layout = SUBTRANS_XACTS_PER_PAGE_def BLCKSZ_def

section \<open>Parents\<close>

definition SubTransSetParent :: "Slru \<Rightarrow> TransactionId \<Rightarrow> TransactionId \<Rightarrow> (Slru \<times> unit result) option" where
  "SubTransSetParent s xid parent =
     (let pageno = SUBTRANS_TransactionIdToPage xid; entryno = TransactionIdToEntry xid
      in case SimpleLruReadPage s pageno True of
           None \<Rightarrow> None
         | Some (s, Inl e) \<Rightarrow> Some (s, Inl e)
         | Some (s, Inr slotno) \<Rightarrow>
             Some (if get_uint32 (page_buffer s slotno) (4 * entryno) \<noteq> parent
                   then write_slot s slotno (put_uint32 (page_buffer s slotno) (4 * entryno) parent)
                   else s, Inr ()))"

definition SubTransGetParent :: "Slru \<Rightarrow> TransactionId \<Rightarrow> (Slru \<times> TransactionId result) option" where
  "SubTransGetParent s xid =
     (let pageno = SUBTRANS_TransactionIdToPage xid; entryno = TransactionIdToEntry xid
      in if \<not> TransactionIdIsNormal xid then Some (s, Inr InvalidTransactionId)
         else case SimpleLruReadPage_ReadOnly s pageno of
                None \<Rightarrow> None
              | Some (s, Inl e) \<Rightarrow> Some (s, Inl e)
              | Some (s, Inr slotno) \<Rightarrow> Some (s, Inr (get_uint32 (page_buffer s slotno) (4 * entryno))))"

definition invalid_entry :: pg_error where
  "invalid_entry = ERROR ''pg_subtrans contains invalid entry''"

text \<open>The loop of SubTransGetTopmostTransaction.\<close>

partial_function (option) topmost_loop :: "Slru \<Rightarrow> TransactionId \<Rightarrow> TransactionId \<Rightarrow> TransactionId \<Rightarrow> (Slru \<times> TransactionId result) option" where
  "topmost_loop s TransactionXmin parentXid previousXid =
     (if TransactionIdIsValid parentXid then
        let previousXid = parentXid
        in if TransactionIdPrecedes parentXid TransactionXmin then Some (s, Inr previousXid)
           else case SubTransGetParent s parentXid of
                  None \<Rightarrow> None
                | Some (s, Inl e) \<Rightarrow> Some (s, Inl e)
                | Some (s, Inr parentXid) \<Rightarrow>
                    if \<not> TransactionIdPrecedes parentXid previousXid then Some (s, Inl invalid_entry)
                    else topmost_loop s TransactionXmin parentXid previousXid
      else Some (s, Inr previousXid))"

definition SubTransGetTopmostTransaction :: "Slru \<Rightarrow> TransactionId \<Rightarrow> TransactionId \<Rightarrow> (Slru \<times> TransactionId result) option" where
  "SubTransGetTopmostTransaction s TransactionXmin xid = topmost_loop s TransactionXmin xid xid"

section \<open>Life of the log\<close>

definition SubTransPagePrecedes :: "nat \<Rightarrow> nat \<Rightarrow> bool" where
  "SubTransPagePrecedes page1 page2 =
     (let xid1 = of_nat page1 * of_nat SUBTRANS_XACTS_PER_PAGE + FirstNormalTransactionId;
          xid2 = of_nat page2 * of_nat SUBTRANS_XACTS_PER_PAGE + FirstNormalTransactionId
      in TransactionIdPrecedes xid1 xid2)"

definition NUM_SUBTRANS_BUFFERS :: nat where
  "NUM_SUBTRANS_BUFFERS = 32"

definition SUBTRANSShmemInit :: "(nat \<times> slru_page list) list \<Rightarrow> Slru" where
  "SUBTRANSShmemInit dir = (SimpleLruInit NUM_SUBTRANS_BUFFERS 0 SubTransPagePrecedes dir)\<lparr>do_fsync := False\<rparr>"

definition ZeroSUBTRANSPage :: "Slru \<Rightarrow> nat \<Rightarrow> (Slru \<times> nat result) option" where
  "ZeroSUBTRANSPage s pageno = SimpleLruZeroPage s pageno"

definition BootStrapSUBTRANS :: "Slru \<Rightarrow> (Slru \<times> unit result) option" where
  "BootStrapSUBTRANS s =
     (case ZeroSUBTRANSPage s 0 of
        None \<Rightarrow> None
      | Some (s, Inl e) \<Rightarrow> Some (s, Inl e)
      | Some (s, Inr slotno) \<Rightarrow> Some (SimpleLruWritePage s slotno))"

text \<open>The loop of StartupSUBTRANS and the last page after it.\<close>

partial_function (option) startup_pages :: "Slru \<Rightarrow> nat \<Rightarrow> nat \<Rightarrow> (Slru \<times> unit result) option" where
  "startup_pages s startPage endPage =
     (if startPage \<noteq> endPage then
        case ZeroSUBTRANSPage s startPage of
          None \<Rightarrow> None
        | Some (s, Inl e) \<Rightarrow> Some (s, Inl e)
        | Some (s, Inr _) \<Rightarrow>
            let startPage = startPage + 1;
                startPage = (if startPage > SUBTRANS_TransactionIdToPage MaxTransactionId then 0 else startPage)
            in startup_pages s startPage endPage
      else
        case ZeroSUBTRANSPage s startPage of
          None \<Rightarrow> None
        | Some (s, Inl e) \<Rightarrow> Some (s, Inl e)
        | Some (s, Inr _) \<Rightarrow> Some (s, Inr ()))"

definition StartupSUBTRANS :: "Slru \<Rightarrow> FullTransactionId \<Rightarrow> TransactionId \<Rightarrow> (Slru \<times> unit result) option" where
  "StartupSUBTRANS s nextFullXid oldestActiveXID =
     (let startPage = SUBTRANS_TransactionIdToPage oldestActiveXID;
          endPage = SUBTRANS_TransactionIdToPage (XidFromFullTransactionId nextFullXid)
      in startup_pages s startPage endPage)"

definition ShutdownSUBTRANS :: "Slru \<Rightarrow> Slru \<times> unit result" where
  "ShutdownSUBTRANS s = SimpleLruFlush s"

definition CheckPointSUBTRANS :: "Slru \<Rightarrow> Slru \<times> unit result" where
  "CheckPointSUBTRANS s = SimpleLruFlush s"

definition ExtendSUBTRANS :: "Slru \<Rightarrow> TransactionId \<Rightarrow> (Slru \<times> unit result) option" where
  "ExtendSUBTRANS s newestXact =
     (if TransactionIdToEntry newestXact \<noteq> 0 \<and> newestXact \<noteq> FirstNormalTransactionId then Some (s, Inr ())
      else case ZeroSUBTRANSPage s (SUBTRANS_TransactionIdToPage newestXact) of
             None \<Rightarrow> None
           | Some (s, Inl e) \<Rightarrow> Some (s, Inl e)
           | Some (s, Inr _) \<Rightarrow> Some (s, Inr ()))"

definition TruncateSUBTRANS :: "Slru \<Rightarrow> TransactionId \<Rightarrow> (Slru \<times> bool result) option" where
  "TruncateSUBTRANS s oldestXact =
     (let oldestXact = TransactionIdRetreat oldestXact; cutoffPage = SUBTRANS_TransactionIdToPage oldestXact
      in SimpleLruTruncate s cutoffPage)"

section \<open>Entries\<close>

definition parent_on :: "slru_page \<Rightarrow> TransactionId \<Rightarrow> TransactionId" where
  "parent_on page xid = get_uint32 page (4 * TransactionIdToEntry xid)"

definition set_parent_on :: "slru_page \<Rightarrow> TransactionId \<Rightarrow> TransactionId \<Rightarrow> slru_page" where
  "set_parent_on page xid parent = put_uint32 page (4 * TransactionIdToEntry xid) parent"

lemma subtrans_position:
  assumes "SUBTRANS_TransactionIdToPage x = SUBTRANS_TransactionIdToPage y" and "TransactionIdToEntry x = TransactionIdToEntry y"
  shows "x = y"
proof -
  from assms have "unat x = unat y"
    unfolding SUBTRANS_TransactionIdToPage_def TransactionIdToEntry_def by (metis div_mult_mod_eq)
  then show ?thesis by (simp add: word_unat_eq_iff)
qed

interpretation sub_table: slru_table SUBTRANS_TransactionIdToPage parent_on set_parent_on "\<lambda>_. True" InvalidTransactionId
proof
  fix x y v b
  assume p: "SUBTRANS_TransactionIdToPage x = SUBTRANS_TransactionIdToPage y"
  show "parent_on (set_parent_on b x v) y = (if x = y then v else parent_on b y)"
  proof (cases "x = y")
    case False
    then have "TransactionIdToEntry x < TransactionIdToEntry y \<or> TransactionIdToEntry y < TransactionIdToEntry x"
      using subtrans_position [OF p] by linarith
    then have "4 * TransactionIdToEntry y + 4 \<le> 4 * TransactionIdToEntry x \<or> 4 * TransactionIdToEntry x + 4 \<le> 4 * TransactionIdToEntry y"
      by linarith
    with False show ?thesis by (simp add: parent_on_def set_parent_on_def get_put_uint32_other)
  qed (simp add: parent_on_def set_parent_on_def get_put_uint32)
next
  show "parent_on zeroes x = InvalidTransactionId" for x
    by (simp add: parent_on_def get_zeroes_uint32 InvalidTransactionId_def)
qed

text \<open>The parent of a transaction as a reader finds it.\<close>

definition subtrans_parent :: "Slru \<Rightarrow> TransactionId \<Rightarrow> TransactionId option" where
  "subtrans_parent = entry_of SUBTRANS_TransactionIdToPage parent_on"

lemma keeps_parent: "keeps s t \<Longrightarrow> subtrans_parent s x = Some p \<Longrightarrow> subtrans_parent t x = Some p"
  unfolding subtrans_parent_def by (rule sub_table.keeps_entry)

lemma SubTransGetParent_cases:
  assumes "slru_inv s" and "TransactionIdIsNormal x"
  obtains (failed) t e where "SubTransGetParent s x = Some (t, Inl e)" "keeps s t" "\<not> io_fine s \<or> subtrans_parent s x = None"
  | (found) t p where "SubTransGetParent s x = Some (t, Inr p)" "keeps s t" "subtrans_parent t x = Some p"
  using assms(1)
proof (cases rule: SimpleLruReadPage_ReadOnly_cases [of s "SUBTRANS_TransactionIdToPage x"])
  case (failed t e)
  then have "\<not> io_fine s \<or> subtrans_parent s x = None" using sub_table.entry_None [of s x] by (auto simp: subtrans_parent_def)
  with failed that(1) show ?thesis using assms(2) by (simp add: SubTransGetParent_def)
next
  case (found t i)
  then have "subtrans_parent t x = Some (parent_on (page_buffer t i) x)"
    unfolding subtrans_parent_def by (intro sub_table.entry_stored)
  with found that(2) show ?thesis using assms(2) by (simp add: SubTransGetParent_def parent_on_def)
qed

lemma SubTransSetParent_cases:
  assumes "slru_inv s"
  obtains (failed) t e where "SubTransSetParent s x p = Some (t, Inl e)" "keeps s t" "\<not> io_fine s \<or> subtrans_parent s x = None"
  | (recorded) t where "SubTransSetParent s x p = Some (t, Inr ())" "slru_inv t" "same_ctl s t" "subtrans_parent t x = Some p"
      "io_fine s \<longrightarrow> io_fine t" "\<And>y q. y \<noteq> x \<Longrightarrow> subtrans_parent s y = Some q \<Longrightarrow> subtrans_parent t y = Some q"
  using assms
proof (cases rule: SimpleLruReadPage_cases [of s "SUBTRANS_TransactionIdToPage x" True])
  case (failed t e)
  then have "\<not> io_fine s \<or> subtrans_parent s x = None" using sub_table.entry_None [of s x] by (auto simp: subtrans_parent_def)
  with failed that(1) show ?thesis by (simp add: SubTransSetParent_def)
next
  case (found t i)
  note keep = keeps_parent [OF found(2)] io_fine_keeps [OF found(2)]
  have tinv: "slru_inv t" "same_ctl s t" using found(2) by (simp_all add: keeps_def)
  let ?u = "if parent_on (page_buffer t i) x \<noteq> p then write_slot t i (set_parent_on (page_buffer t i) x p) else t"
  have eq: "SubTransSetParent s x p = Some (?u, Inr ())"
    using found(1) by (simp add: SubTransSetParent_def parent_on_def set_parent_on_def)
  note w = write_slot_slru [OF tinv(1) found(3,5)]
  have px: "subtrans_parent t x = Some (parent_on (page_buffer t i) x)"
    unfolding subtrans_parent_def by (rule sub_table.entry_stored [OF found(6)])
  have parents: "subtrans_parent ?u y = (if y = x then Some p else subtrans_parent t y)" for y
    using sub_table.put_entry [OF tinv(1) found(3,5,4), of p y] px by (auto simp: subtrans_parent_def)
  have sc: "slru_inv ?u" "same_ctl s ?u"
    using w(1) [of "set_parent_on (page_buffer t i) x p"] same_ctl_trans [OF tinv(2) w(3)] tinv by auto
  show ?thesis
    by (rule that(2) [OF eq]) (use sc parents keep w(4) in auto)
qed

lemma ExtendSUBTRANS_post:
  assumes "slru_inv s"
  shows "\<exists>t r. ExtendSUBTRANS s x = Some (t, r) \<and> slru_inv t \<and> (io_fine s \<longrightarrow> io_fine t \<and> r = Inr ())
    \<and> (if TransactionIdToEntry x \<noteq> 0 \<and> x \<noteq> FirstNormalTransactionId then t = s \<and> r = Inr ()
       else (\<forall>y p. SUBTRANS_TransactionIdToPage y \<noteq> SUBTRANS_TransactionIdToPage x \<longrightarrow> subtrans_parent s y = Some p \<longrightarrow> subtrans_parent t y = Some p)
         \<and> (r = Inr () \<longrightarrow> (\<forall>y. SUBTRANS_TransactionIdToPage y = SUBTRANS_TransactionIdToPage x \<longrightarrow> subtrans_parent t y = Some InvalidTransactionId)))"
proof (cases "TransactionIdToEntry x \<noteq> 0 \<and> x \<noteq> FirstNormalTransactionId")
  case True
  with assms show ?thesis by (simp add: ExtendSUBTRANS_def)
next
  case False
  show ?thesis using assms
  proof (cases rule: SimpleLruZeroPage_cases [of s "SUBTRANS_TransactionIdToPage x"])
    case (failed t e)
    then have "slru_inv t" by (simp add: keeps_def)
    with failed False keeps_parent [OF failed(2)] show ?thesis by (auto simp: ExtendSUBTRANS_def ZeroSUBTRANSPage_def)
  next
    case (zeroed t i)
    with False sub_table.zero_entry [OF zeroed(6)] show ?thesis
      by (auto simp: ExtendSUBTRANS_def ZeroSUBTRANSPage_def subtrans_parent_def)
  qed
qed

section \<open>Ancestors\<close>

text \<open>The transactions on the way from a transaction to its topmost one.\<close>

inductive ancestor :: "Slru \<Rightarrow> TransactionId \<Rightarrow> TransactionId \<Rightarrow> bool" for s x where
  self: "ancestor s x x"
| parent: "ancestor s x y \<Longrightarrow> TransactionIdIsNormal y \<Longrightarrow> subtrans_parent s y = Some z \<Longrightarrow> ancestor s x z"

lemma keeps_ancestor: "ancestor s x y \<Longrightarrow> keeps s t \<Longrightarrow> ancestor t x y"
  by (induction rule: ancestor.induct) (auto intro: ancestor.intros keeps_parent)

lemma ancestor_first:
  assumes "ancestor s y z" and "TransactionIdIsNormal x" and "subtrans_parent s x = Some y"
  shows "ancestor s x z"
  using assms by (induction rule: ancestor.induct) (auto intro: ancestor.intros)

text \<open>Going to an earlier transaction that is not before \<open>xmin\<close> comes closer to \<open>xmin\<close>.\<close>

lemma not_precedes_normal:
  assumes "TransactionIdIsNormal xmin" and "TransactionIdIsValid p" and "\<not> TransactionIdPrecedes p xmin"
  shows "TransactionIdIsNormal p" "0 \<le> sint (p - xmin)"
proof -
  show n: "TransactionIdIsNormal p"
  proof (rule ccontr)
    assume "\<not> TransactionIdIsNormal p"
    moreover from this have "p < xmin" using assms(1) by (simp add: xid_defs)
    ultimately show False using assms(3) by (simp add: TransactionIdPrecedes_def)
  qed
  show "0 \<le> sint (p - xmin)" using assms n by (simp add: TransactionIdPrecedes_def)
qed

lemma precedes_distance:
  assumes "TransactionIdIsNormal xmin" and "TransactionIdIsNormal x" and "\<not> TransactionIdPrecedes x xmin"
    and "TransactionIdIsValid p" and "\<not> TransactionIdPrecedes p xmin" and "TransactionIdPrecedes p x"
  shows "unat (p - xmin) < unat (x - xmin)"
proof -
  note p = not_precedes_normal [OF assms(1,4,5)]
  have x: "0 \<le> sint (x - xmin)" using assms(1-3) by (simp add: TransactionIdPrecedes_def)
  have "sint (p - x) < 0" using p(1) assms(2,6) by (simp add: TransactionIdPrecedes_def)
  moreover have "p - x = word_of_int (sint (p - xmin)) - word_of_int (sint (x - xmin))" by simp
  moreover have "sint (word_of_int (sint (p - xmin)) - word_of_int (sint (x - xmin)) :: TransactionId) = sint (p - xmin) - sint (x - xmin)"
    using p(2) x sint_lt [of "p - xmin"] sint_lt [of "x - xmin"] by (intro sint_diff_window) auto
  ultimately have "sint (p - xmin) < sint (x - xmin)" by (metis diff_less_0_iff_less)
  then show ?thesis using sint_nonneg_uint [OF p(2)] sint_nonneg_uint [OF x] by (simp add: word_less_nat_alt [symmetric] word_less_def)
qed

section \<open>The topmost transaction\<close>

definition topmost_post :: "Slru \<Rightarrow> TransactionId \<Rightarrow> TransactionId \<Rightarrow> (Slru \<times> TransactionId result) option \<Rightarrow> bool" where
  "topmost_post s xmin x res \<longleftrightarrow> (\<exists>s' r. res = Some (s', r) \<and> keeps s s'
     \<and> (case r of
          Inr y \<Rightarrow> ancestor s' x y \<and> TransactionIdIsValid y
            \<and> (TransactionIdPrecedes y xmin \<or> subtrans_parent s' y = Some InvalidTransactionId)
        | Inl e \<Rightarrow> \<exists>y. ancestor s' x y \<and> TransactionIdIsNormal y \<and> \<not> TransactionIdPrecedes y xmin
            \<and> (\<not> io_fine s \<or> subtrans_parent s y = None
               \<or> (\<exists>z. subtrans_parent s' y = Some z \<and> \<not> TransactionIdPrecedes z y))))"

lemma topmost_post_parent:
  assumes "topmost_post t xmin p res" and "keeps s t" and "TransactionIdIsNormal x" and "subtrans_parent t x = Some p"
  shows "topmost_post s xmin x res"
proof -
  from assms(1) obtain s' r where r: "res = Some (s', r)" "keeps t s'"
    "case r of
          Inr y \<Rightarrow> ancestor s' p y \<and> TransactionIdIsValid y
            \<and> (TransactionIdPrecedes y xmin \<or> subtrans_parent s' y = Some InvalidTransactionId)
        | Inl e \<Rightarrow> \<exists>y. ancestor s' p y \<and> TransactionIdIsNormal y \<and> \<not> TransactionIdPrecedes y xmin
            \<and> (\<not> io_fine t \<or> subtrans_parent t y = None
               \<or> (\<exists>z. subtrans_parent s' y = Some z \<and> \<not> TransactionIdPrecedes z y))"
    unfolding topmost_post_def by blast
  have step: "ancestor s' p y \<Longrightarrow> ancestor s' x y" for y
    using ancestor_first [OF _ assms(3) keeps_parent [OF r(2) assms(4)]] by blast
  have none: "subtrans_parent t y = None \<Longrightarrow> subtrans_parent s y = None" for y
    using keeps_parent [OF assms(2), of y] by (cases "subtrans_parent s y") auto
  note fine = io_fine_keeps [OF assms(2)]
  show ?thesis unfolding topmost_post_def
    by (intro exI [of _ s'] exI [of _ r] conjI r(1) keeps_trans [OF assms(2) r(2)])
      (use r(3) step none fine in \<open>cases r; fastforce\<close>)
qed

lemma topmost_loop_post:
  assumes "TransactionIdIsNormal xmin" and "slru_inv s" and "TransactionIdIsValid x"
  shows "topmost_post s xmin x (topmost_loop s xmin x prev)"
  using assms(2,3)
proof (induction "unat (x - xmin)" arbitrary: s x prev rule: less_induct)
  case less
  note inv = less.prems(1) and valid = less.prems(2)
  show ?case
  proof (cases "TransactionIdPrecedes x xmin")
    case True
    then show ?thesis using valid keeps_refl [OF inv]
      by (subst topmost_loop.simps) (auto simp: topmost_post_def intro: ancestor.self)
  next
    case False
    note normal = not_precedes_normal(1) [OF assms(1) valid False]
    show ?thesis using inv normal
    proof (cases rule: SubTransGetParent_cases)
      case (failed t e)
      then show ?thesis using valid False normal
        by (subst topmost_loop.simps) (auto simp: topmost_post_def intro: ancestor.self)
    next
      case (found t p)
      from found(2) have tinv: "slru_inv t" by (simp add: keeps_def)
      consider (invalid) "p = InvalidTransactionId" | (corrupt) "\<not> TransactionIdPrecedes p x" "TransactionIdIsValid p"
        | (before) "TransactionIdPrecedes p x" "TransactionIdIsValid p" "TransactionIdPrecedes p xmin"
        | (onward) "TransactionIdPrecedes p x" "TransactionIdIsValid p" "\<not> TransactionIdPrecedes p xmin"
        by (auto simp: TransactionIdIsValid_def)
      then show ?thesis
      proof cases
        case invalid
        have "TransactionIdPrecedes InvalidTransactionId x" using valid by (simp add: TransactionIdPrecedes_def xid_defs word_neq_0_conv)
        with found invalid valid False normal show ?thesis
          by (subst topmost_loop.simps, subst topmost_loop.simps)
            (auto simp: topmost_post_def TransactionIdIsValid_def intro: ancestor.self)
      next
        case corrupt
        with found valid False normal show ?thesis
          by (subst topmost_loop.simps) (auto simp: topmost_post_def intro: ancestor.self)
      next
        case before
        then have "topmost_post t xmin p (topmost_loop t xmin p x)"
          using keeps_refl [OF tinv] by (subst topmost_loop.simps) (auto simp: topmost_post_def intro: ancestor.self)
        from topmost_post_parent [OF this found(2) normal found(3)] before found(1) valid False
        show ?thesis by (subst topmost_loop.simps) simp
      next
        case onward
        have "topmost_post t xmin p (topmost_loop t xmin p x)"
          by (rule less.hyps [OF precedes_distance [OF assms(1) normal False onward(2,3,1)] tinv onward(2)])
        from topmost_post_parent [OF this found(2) normal found(3)] onward found(1) valid False
        show ?thesis by (subst topmost_loop.simps) simp
      qed
    qed
  qed
qed

section \<open>Properties\<close>

text \<open>C18. Looking up the topmost transaction ends for every content of pg_subtrans, also a corrupted one,
  as long as TransactionXmin is a normal transaction id, and does not change the log.  The result
  is an ancestor that either precedes TransactionXmin or has no parent; an error is reported only
  at an ancestor whose entry cannot be read or does not precede it.\<close>

theorem SubTransGetTopmostTransaction_ends:
  assumes "slru_inv s" and "TransactionIdIsNormal xmin" and "TransactionIdIsValid x"
  shows "\<exists>s' r. SubTransGetTopmostTransaction s xmin x = Some (s', r) \<and> slru_inv s' \<and> stored s \<subseteq>\<^sub>m stored s'
    \<and> (case r of
         Inr y \<Rightarrow> ancestor s' x y \<and> TransactionIdIsValid y
           \<and> (TransactionIdPrecedes y xmin \<or> subtrans_parent s' y = Some InvalidTransactionId)
       | Inl e \<Rightarrow> \<exists>y. ancestor s' x y \<and> \<not> TransactionIdPrecedes y xmin
           \<and> (\<not> io_fine s \<or> subtrans_parent s y = None
              \<or> (\<exists>z. subtrans_parent s' y = Some z \<and> \<not> TransactionIdPrecedes z y)))"
proof -
  from topmost_loop_post [OF assms(2,1,3), of x] obtain s' r where
    r: "topmost_loop s xmin x x = Some (s', r)" "keeps s s'"
    "case r of
         Inr y \<Rightarrow> ancestor s' x y \<and> TransactionIdIsValid y
           \<and> (TransactionIdPrecedes y xmin \<or> subtrans_parent s' y = Some InvalidTransactionId)
       | Inl e \<Rightarrow> \<exists>y. ancestor s' x y \<and> TransactionIdIsNormal y \<and> \<not> TransactionIdPrecedes y xmin
           \<and> (\<not> io_fine s \<or> subtrans_parent s y = None
              \<or> (\<exists>z. subtrans_parent s' y = Some z \<and> \<not> TransactionIdPrecedes z y))"
    unfolding topmost_post_def by blast
  show ?thesis unfolding SubTransGetTopmostTransaction_def
    by (intro exI [of _ s'] exI [of _ r] conjI r(1)) (use r(2,3) in \<open>auto simp: keeps_def split: sum.splits\<close>)
qed

definition small_subtrans :: Slru where
  "small_subtrans = SUBTRANSShmemInit [(0, [set_parent_on zeroes 7 5])]"

lemma small_subtrans: "slru_inv small_subtrans" "io_fine small_subtrans"
  "SUBTRANS_TransactionIdToPage x = 0 \<Longrightarrow> subtrans_parent small_subtrans x = Some (if x = 7 then 5 else InvalidTransactionId)"
proof -
  show "slru_inv small_subtrans"
    by (simp add: slru_inv_def small_subtrans_def SUBTRANSShmemInit_def SimpleLruInit_def NUM_SUBTRANS_BUFFERS_def
        distinct_pages_def slot_ok_def holds_page_def)
  show "io_fine small_subtrans" by (simp add: io_fine_def small_subtrans_def SUBTRANSShmemInit_def SimpleLruInit_def)
  have "file_page small_subtrans 0 = Some (set_parent_on zeroes 7 5)"
    by (simp add: file_page_def seg_file_def small_subtrans_def SUBTRANSShmemInit_def SimpleLruInit_def SLRU_PAGES_PER_SEGMENT_def)
  then have "stored small_subtrans 0 = Some (set_parent_on zeroes 7 5)"
    by (subst stored_not_held) (simp_all add: small_subtrans_def SUBTRANSShmemInit_def SimpleLruInit_def holds_page_def)
  moreover have "SUBTRANS_TransactionIdToPage 7 = 0" by (simp add: SUBTRANS_TransactionIdToPage_def subtrans_layout)
  ultimately show "SUBTRANS_TransactionIdToPage x = 0 \<Longrightarrow> subtrans_parent small_subtrans x = Some (if x = 7 then 5 else InvalidTransactionId)"
    using sub_table.get_put [of 7 x, where v = 5 and b = zeroes]
    by (auto simp: subtrans_parent_def entry_of_def sub_table.get_zeroes)
qed

theorem SubTransGetTopmostTransaction_ends_witness:
  "\<exists>s'. SubTransGetTopmostTransaction small_subtrans 3 7 = Some (s', Inr 5)"
proof -
  have "TransactionIdIsNormal 3" "TransactionIdIsValid 7" by (simp_all add: xid_defs)
  from SubTransGetTopmostTransaction_ends [OF small_subtrans(1) this] obtain s' r where
    r: "SubTransGetTopmostTransaction small_subtrans 3 7 = Some (s', r)" and le: "stored small_subtrans \<subseteq>\<^sub>m stored s'"
    and c: "case r of
         Inr y \<Rightarrow> ancestor s' 7 y \<and> TransactionIdIsValid y
           \<and> (TransactionIdPrecedes y 3 \<or> subtrans_parent s' y = Some InvalidTransactionId)
       | Inl e \<Rightarrow> \<exists>y. ancestor s' 7 y \<and> \<not> TransactionIdPrecedes y 3
           \<and> (\<not> io_fine small_subtrans \<or> subtrans_parent small_subtrans y = None
              \<or> (\<exists>z. subtrans_parent s' y = Some z \<and> \<not> TransactionIdPrecedes z y))" by blast
  have pg: "SUBTRANS_TransactionIdToPage 7 = 0" "SUBTRANS_TransactionIdToPage 5 = 0"
    by (simp_all add: SUBTRANS_TransactionIdToPage_def subtrans_layout)
  note p = small_subtrans(3) [OF pg(1)] small_subtrans(3) [OF pg(2)]
  have kept: "subtrans_parent small_subtrans x = Some v \<Longrightarrow> subtrans_parent s' x = Some v" for x v
    using map_leD [OF le] by (auto simp: subtrans_parent_def entry_of_def)
  have p': "subtrans_parent s' 7 = Some 5" "subtrans_parent s' 5 = Some 0" using p by (auto intro!: kept simp: xid_defs)
  have anc: "y \<in> {7, 5, 0}" if "ancestor s' 7 y" for y
    using that by (induction rule: ancestor.induct) (use p' in \<open>auto simp: xid_defs\<close>)
  have "r = Inr 5" using c p p' small_subtrans(2)
    by (cases r) (auto dest!: anc simp: xid_defs TransactionIdPrecedes_def)
  with r show ?thesis by blast
qed

end
