(* ===== verification/TransLog.thy ===== *)
theory TransLog
  imports ClogStore Subtrans
begin

text \<open>
  The transaction log interface, \<open>src/backend/access/transam/transam.c\<close>: whether a transaction has
  committed or aborted, with a one-entry cache in front of pg_xact and the subtransaction log for
  transactions that are marked sub-committed.  The state is that of one backend together with the
  two logs it reads.
\<close>

section \<open>State\<close>

record TransLog =
  XactLog :: Slru
  SubLog :: Slru
  cachedFetchXid :: TransactionId
  cachedFetchXidStatus :: XidStatus
  cachedCommitLSN :: XLogRecPtr
  TransactionXmin :: TransactionId

section \<open>Queries\<close>

definition TransactionLogFetch :: "TransLog \<Rightarrow> TransactionId \<Rightarrow> (TransLog \<times> XidStatus result) option" where
  "TransactionLogFetch l transactionId =
     (if transactionId = cachedFetchXid l then Some (l, Inr (cachedFetchXidStatus l))
      else if \<not> TransactionIdIsNormal transactionId then
        Some (l, Inr (if transactionId = BootstrapTransactionId then TRANSACTION_STATUS_COMMITTED
                      else if transactionId = FrozenTransactionId then TRANSACTION_STATUS_COMMITTED
                      else TRANSACTION_STATUS_ABORTED))
      else case TransactionIdGetStatus (XactLog l) transactionId of
             None \<Rightarrow> None
           | Some (s, Inl e) \<Rightarrow> Some (l\<lparr>XactLog := s\<rparr>, Inl e)
           | Some (s, Inr (xidstatus, xidlsn)) \<Rightarrow>
               let l = l\<lparr>XactLog := s\<rparr>
               in Some (if xidstatus \<noteq> TRANSACTION_STATUS_IN_PROGRESS \<and> xidstatus \<noteq> TRANSACTION_STATUS_SUB_COMMITTED
                        then l\<lparr>cachedFetchXid := transactionId, cachedFetchXidStatus := xidstatus, cachedCommitLSN := xidlsn\<rparr>
                        else l, Inr xidstatus))"

partial_function (option) TransactionIdDidCommit :: "TransLog \<Rightarrow> TransactionId \<Rightarrow> (TransLog \<times> bool result) option" where
  "TransactionIdDidCommit l transactionId =
     (case TransactionLogFetch l transactionId of
        None \<Rightarrow> None
      | Some (l, Inl e) \<Rightarrow> Some (l, Inl e)
      | Some (l, Inr xidstatus) \<Rightarrow>
          if xidstatus = TRANSACTION_STATUS_COMMITTED then Some (l, Inr True)
          else if xidstatus = TRANSACTION_STATUS_SUB_COMMITTED then
            if TransactionIdPrecedes transactionId (TransactionXmin l) then Some (l, Inr False)
            else case SubTransGetParent (SubLog l) transactionId of
                   None \<Rightarrow> None
                 | Some (s, Inl e) \<Rightarrow> Some (l\<lparr>SubLog := s\<rparr>, Inl e)
                 | Some (s, Inr parentXid) \<Rightarrow>
                     if \<not> TransactionIdIsValid parentXid then Some (l\<lparr>SubLog := s\<rparr>, Inr False)
                     else TransactionIdDidCommit (l\<lparr>SubLog := s\<rparr>) parentXid
          else Some (l, Inr False))"

partial_function (option) TransactionIdDidAbort :: "TransLog \<Rightarrow> TransactionId \<Rightarrow> (TransLog \<times> bool result) option" where
  "TransactionIdDidAbort l transactionId =
     (case TransactionLogFetch l transactionId of
        None \<Rightarrow> None
      | Some (l, Inl e) \<Rightarrow> Some (l, Inl e)
      | Some (l, Inr xidstatus) \<Rightarrow>
          if xidstatus = TRANSACTION_STATUS_ABORTED then Some (l, Inr True)
          else if xidstatus = TRANSACTION_STATUS_SUB_COMMITTED then
            if TransactionIdPrecedes transactionId (TransactionXmin l) then Some (l, Inr True)
            else case SubTransGetParent (SubLog l) transactionId of
                   None \<Rightarrow> None
                 | Some (s, Inl e) \<Rightarrow> Some (l\<lparr>SubLog := s\<rparr>, Inl e)
                 | Some (s, Inr parentXid) \<Rightarrow>
                     if \<not> TransactionIdIsValid parentXid then Some (l\<lparr>SubLog := s\<rparr>, Inr True)
                     else TransactionIdDidAbort (l\<lparr>SubLog := s\<rparr>) parentXid
          else Some (l, Inr False))"

definition TransactionIdIsKnownCompleted :: "TransLog \<Rightarrow> TransactionId \<Rightarrow> bool" where
  "TransactionIdIsKnownCompleted l transactionId = (if transactionId = cachedFetchXid l then True else False)"

definition TransactionIdGetCommitLSN :: "TransLog \<Rightarrow> TransactionId \<Rightarrow> (TransLog \<times> XLogRecPtr result) option" where
  "TransactionIdGetCommitLSN l xid =
     (if xid = cachedFetchXid l then Some (l, Inr (cachedCommitLSN l))
      else if \<not> TransactionIdIsNormal xid then Some (l, Inr 0)
      else case TransactionIdGetStatus (XactLog l) xid of
             None \<Rightarrow> None
           | Some (s, Inl e) \<Rightarrow> Some (l\<lparr>XactLog := s\<rparr>, Inl e)
           | Some (s, Inr (_, lsn)) \<Rightarrow> Some (l\<lparr>XactLog := s\<rparr>, Inr lsn))"

section \<open>Setting the status of a tree\<close>

definition set_tree :: "TransLog \<Rightarrow> TransactionId \<Rightarrow> TransactionId list \<Rightarrow> XidStatus \<Rightarrow> XLogRecPtr \<Rightarrow> (TransLog \<times> unit result) option" where
  "set_tree l xid xids status lsn =
     (case TransactionIdSetTreeStatus (XactLog l) xid xids status lsn of
        None \<Rightarrow> None
      | Some (s, r) \<Rightarrow> Some (l\<lparr>XactLog := s\<rparr>, r))"

definition TransactionIdCommitTree :: "TransLog \<Rightarrow> TransactionId \<Rightarrow> TransactionId list \<Rightarrow> (TransLog \<times> unit result) option" where
  "TransactionIdCommitTree l xid xids = set_tree l xid xids TRANSACTION_STATUS_COMMITTED 0"

definition TransactionIdAsyncCommitTree :: "TransLog \<Rightarrow> TransactionId \<Rightarrow> TransactionId list \<Rightarrow> XLogRecPtr \<Rightarrow> (TransLog \<times> unit result) option" where
  "TransactionIdAsyncCommitTree l xid xids lsn = set_tree l xid xids TRANSACTION_STATUS_COMMITTED lsn"

definition TransactionIdAbortTree :: "TransLog \<Rightarrow> TransactionId \<Rightarrow> TransactionId list \<Rightarrow> (TransLog \<times> unit result) option" where
  "TransactionIdAbortTree l xid xids = set_tree l xid xids TRANSACTION_STATUS_ABORTED 0"

section \<open>Specification\<close>

text \<open>The status of a transaction; the permanent ids have a fixed one.\<close>

definition xact_status :: "TransLog \<Rightarrow> TransactionId \<Rightarrow> XidStatus option" where
  "xact_status l x =
     (if TransactionIdIsNormal x then clog_status (XactLog l) x
      else if x = InvalidTransactionId then Some TRANSACTION_STATUS_ABORTED else Some TRANSACTION_STATUS_COMMITTED)"

text \<open>Who has committed and who has aborted: a sub-committed transaction shares the fate of its parent,
  and is lost if nobody can complete it any more.\<close>

inductive did_commit :: "TransLog \<Rightarrow> TransactionId \<Rightarrow> bool" for l where
  committed: "xact_status l x = Some TRANSACTION_STATUS_COMMITTED \<Longrightarrow> did_commit l x"
| parent: "xact_status l x = Some TRANSACTION_STATUS_SUB_COMMITTED \<Longrightarrow> \<not> TransactionIdPrecedes x (TransactionXmin l) \<Longrightarrow>
    subtrans_parent (SubLog l) x = Some p \<Longrightarrow> TransactionIdIsValid p \<Longrightarrow> did_commit l p \<Longrightarrow> did_commit l x"

inductive did_abort :: "TransLog \<Rightarrow> TransactionId \<Rightarrow> bool" for l where
  aborted: "xact_status l x = Some TRANSACTION_STATUS_ABORTED \<Longrightarrow> did_abort l x"
| old: "xact_status l x = Some TRANSACTION_STATUS_SUB_COMMITTED \<Longrightarrow> TransactionIdPrecedes x (TransactionXmin l) \<Longrightarrow> did_abort l x"
| orphan: "xact_status l x = Some TRANSACTION_STATUS_SUB_COMMITTED \<Longrightarrow> \<not> TransactionIdPrecedes x (TransactionXmin l) \<Longrightarrow>
    subtrans_parent (SubLog l) x = Some InvalidTransactionId \<Longrightarrow> did_abort l x"
| parent: "xact_status l x = Some TRANSACTION_STATUS_SUB_COMMITTED \<Longrightarrow> \<not> TransactionIdPrecedes x (TransactionXmin l) \<Longrightarrow>
    subtrans_parent (SubLog l) x = Some p \<Longrightarrow> TransactionIdIsValid p \<Longrightarrow> did_abort l p \<Longrightarrow> did_abort l x"

definition cache_ok :: "TransLog \<Rightarrow> bool" where
  "cache_ok l \<longleftrightarrow> cachedFetchXid l \<noteq> InvalidTransactionId \<longrightarrow>
     TransactionIdIsNormal (cachedFetchXid l) \<and> clog_status (XactLog l) (cachedFetchXid l) = Some (cachedFetchXidStatus l)
     \<and> cachedFetchXidStatus l \<in> {TRANSACTION_STATUS_COMMITTED, TRANSACTION_STATUS_ABORTED}"

text \<open>A parent precedes its children, as SubTransSetParent asserts.\<close>

definition links_ok :: "TransLog \<Rightarrow> bool" where
  "links_ok l \<longleftrightarrow> (\<forall>x p. subtrans_parent (SubLog l) x = Some p \<longrightarrow> TransactionIdIsValid p \<longrightarrow> TransactionIdPrecedes p x)"

definition log_inv :: "TransLog \<Rightarrow> bool" where
  "log_inv l \<longleftrightarrow> clog_inv (XactLog l) \<and> slru_inv (SubLog l) \<and> cache_ok l \<and> links_ok l \<and> TransactionIdIsNormal (TransactionXmin l)"

definition log_fine :: "TransLog \<Rightarrow> bool" where
  "log_fine l \<longleftrightarrow> io_fine (XactLog l) \<and> io_fine (SubLog l)"

text \<open>The WAL up to \<open>lsn\<close> is flushed, or whoever asks for the commit LSN of \<open>x\<close> learns of it.\<close>

definition lsn_known :: "TransLog \<Rightarrow> TransactionId \<Rightarrow> XLogRecPtr \<Rightarrow> bool" where
  "lsn_known l x lsn \<longleftrightarrow> lsn_covered (XactLog l) (TransactionIdToPage x) (lsn_group x) lsn
     \<and> (cachedFetchXid l = x \<longrightarrow> lsn \<le> cachedCommitLSN l \<or> lsn \<le> wal_flushed (XactLog l))"

text \<open>What a query keeps.\<close>

definition log_step :: "TransLog \<Rightarrow> TransLog \<Rightarrow> bool" where
  "log_step l l' \<longleftrightarrow> log_inv l' \<and> clog_step (XactLog l) 0 [] (XactLog l') \<and> keeps (SubLog l) (SubLog l') \<and> TransactionXmin l' = TransactionXmin l
     \<and> (\<forall>x lsn. lsn_known l x lsn \<longrightarrow> lsn_known l' x lsn)"

lemma lsn_known_step:
  assumes "lsn_known l x lsn" and "clog_inv (XactLog l)" and "clog_step (XactLog l) lsn' ws (XactLog l')"
    and "cachedFetchXid l' = cachedFetchXid l" and "cachedCommitLSN l' = cachedCommitLSN l"
  shows "lsn_known l' x lsn"
proof -
  have "lsn_group x < lsn_groups_per_page (XactLog l)" using assms(2) GetLSNIndex_group(2) [of x] by (simp add: clog_inv_def)
  moreover have "lsns_kept (XactLog l) (XactLog l')" using assms(3) by (simp add: clog_step_def)
  ultimately show ?thesis using assms(1,4,5) by (auto simp: lsn_known_def lsns_kept_def)
qed

lemma log_step_refl: "log_inv l \<Longrightarrow> log_step l l"
  by (simp add: log_step_def log_inv_def clog_step_refl keeps_refl)

lemma log_step_trans: "log_step l m \<Longrightarrow> log_step m n \<Longrightarrow> log_step l n"
  using clog_step_trans [of "XactLog l" 0 "[]" "XactLog m" "[]" "XactLog n"] keeps_trans [of "SubLog l" "SubLog m" "SubLog n"]
  by (simp add: log_step_def)

lemma log_step_status: "log_step l l' \<Longrightarrow> xact_status l x = Some v \<Longrightarrow> xact_status l' x = Some v"
  by (auto simp: log_step_def clog_step_def xact_status_def split: if_splits)

lemma log_step_parent: "log_step l l' \<Longrightarrow> subtrans_parent (SubLog l) x = Some p \<Longrightarrow> subtrans_parent (SubLog l') x = Some p"
  by (auto simp: log_step_def intro: keeps_parent)

lemma log_step_fine: "log_step l l' \<Longrightarrow> log_fine l \<Longrightarrow> log_fine l'"
  by (auto simp: log_step_def log_fine_def clog_step_def intro: io_fine_keeps)

section \<open>Fetching a status\<close>

lemma status_on_cases: "status_on page x \<in> {TRANSACTION_STATUS_IN_PROGRESS, TRANSACTION_STATUS_COMMITTED,
    TRANSACTION_STATUS_ABORTED, TRANSACTION_STATUS_SUB_COMMITTED}"
proof -
  obtain w where w: "status_on page x = take_bit 2 w"
    unfolding status_on_def bitmask_eq take_bit_eq_mask [symmetric] by blast
  then have "unat (status_on page x) < 4" by (simp add: unsigned_take_bit_eq take_bit_nat_less_exp [of 2, simplified])
  then have "unat (status_on page x) \<in> {0, 1, 2, 3}" by auto
  then show ?thesis by (auto simp: status_defs word_unat_eq_iff)
qed

lemma clog_status_cases: "clog_status s x = Some v \<Longrightarrow> v \<in> {TRANSACTION_STATUS_IN_PROGRESS, TRANSACTION_STATUS_COMMITTED,
    TRANSACTION_STATUS_ABORTED, TRANSACTION_STATUS_SUB_COMMITTED}"
  using status_on_cases by (auto simp: clog_status_def)

lemma log_step_xact:
  assumes "log_inv l" and "clog_step (XactLog l) 0 [] s"
  shows "log_step l (l\<lparr>XactLog := s\<rparr>)"
proof -
  have "cache_ok (l\<lparr>XactLog := s\<rparr>)" using assms by (auto simp: cache_ok_def log_inv_def clog_step_def)
  moreover have "lsn_known (l\<lparr>XactLog := s\<rparr>) x lsn" if "lsn_known l x lsn" for x lsn
    using lsn_known_step [OF that, of 0 "[]" "l\<lparr>XactLog := s\<rparr>"] assms by (simp add: log_inv_def)
  ultimately show ?thesis using assms keeps_refl by (auto simp: log_step_def log_inv_def links_ok_def clog_step_def)
qed

lemma log_step_sub:
  assumes "log_inv l" and "keeps (SubLog l) s"
  shows "log_step l (l\<lparr>SubLog := s\<rparr>)"
proof -
  have "TransactionIdPrecedes p x" if "subtrans_parent s x = Some p" "TransactionIdIsValid p" for x p
    using sub_table.keeps_entry_new [OF assms(2), of x p] that assms(1)
    by (auto simp: subtrans_parent_def log_inv_def links_ok_def TransactionIdIsValid_def)
  moreover have "slru_inv s" using assms(2) by (simp add: keeps_def)
  ultimately show ?thesis using assms clog_step_refl by (simp add: log_step_def log_inv_def links_ok_def cache_ok_def lsn_known_def)
qed

lemma TransactionLogFetch_cases:
  assumes inv: "log_inv l" and valid: "TransactionIdIsValid x"
  obtains (failed) m e where "TransactionLogFetch l x = Some (m, Inl e)" "log_step l m" "\<not> log_fine l \<or> xact_status l x = None"
  | (found) m st where "TransactionLogFetch l x = Some (m, Inr st)" "log_step l m" "xact_status m x = Some st"
proof (cases "x = cachedFetchXid l")
  case True
  then have "xact_status l x = Some (cachedFetchXidStatus l)"
    using inv valid by (auto simp: xact_status_def log_inv_def cache_ok_def TransactionIdIsValid_def)
  with True found log_step_refl [OF inv] show ?thesis by (simp add: TransactionLogFetch_def)
next
  case notc: False
  show ?thesis
  proof (cases "TransactionIdIsNormal x")
    case False
    then have "x = BootstrapTransactionId \<or> x = FrozenTransactionId"
      using valid by (auto simp: xid_defs word_less_nat_alt word_unat_eq_iff not_le)
    with False notc found log_step_refl [OF inv] show ?thesis
      by (auto simp: TransactionLogFetch_def xact_status_def xid_defs)
  next
    case True
    from inv have "clog_inv (XactLog l)" by (simp add: log_inv_def)
    from TransactionIdGetStatus_post [OF this, of x] obtain s r where
      r: "TransactionIdGetStatus (XactLog l) x = Some (s, r)" "clog_step (XactLog l) 0 [] s"
      and c: "case r of Inl e \<Rightarrow> \<not> io_fine (XactLog l) \<or> clog_status (XactLog l) x = None
        | Inr (st, lsn) \<Rightarrow> clog_status s x = Some st
            \<and> (\<forall>k. lsn_covered s (TransactionIdToPage x) (lsn_group x) k \<longrightarrow> k \<le> lsn \<or> k \<le> wal_flushed s)"
      unfolding get_post_def by blast
    note step = log_step_xact [OF inv r(2)]
    show ?thesis
    proof (cases r)
      case (Inl e)
      with c r True notc step failed show ?thesis by (auto simp: TransactionLogFetch_def xact_status_def log_fine_def)
    next
      case (Inr v)
      obtain st lsn where v: "v = (st, lsn)" by fastforce
      let ?m = "l\<lparr>XactLog := s\<rparr>"
      let ?n = "?m\<lparr>cachedFetchXid := x, cachedFetchXidStatus := st, cachedCommitLSN := lsn\<rparr>"
      have st: "clog_status s x = Some st" using c by (simp add: Inr v)
      have n: "log_step l ?n" if "st \<noteq> TRANSACTION_STATUS_IN_PROGRESS" "st \<noteq> TRANSACTION_STATUS_SUB_COMMITTED"
      proof -
        have "lsn_known ?n y k" if "lsn_known l y k" for y k
          using step that c by (auto simp: log_step_def lsn_known_def Inr v)
        then show ?thesis using step True st clog_status_cases [OF st] that by (auto simp: log_step_def log_inv_def cache_ok_def links_ok_def)
      qed
      show ?thesis
        by (rule found [of "if st \<noteq> TRANSACTION_STATUS_IN_PROGRESS \<and> st \<noteq> TRANSACTION_STATUS_SUB_COMMITTED then ?n else ?m" st])
          (use r Inr v True notc step n st in \<open>auto simp: TransactionLogFetch_def Let_def xact_status_def\<close>)
    qed
  qed
qed

section \<open>Following sub-committed transactions\<close>

text \<open>A set of transactions about which the logs know everything a query needs.\<close>

definition known :: "TransLog \<Rightarrow> TransactionId set \<Rightarrow> bool" where
  "known l X \<longleftrightarrow> (\<forall>y \<in> X. xact_status l y \<noteq> None
     \<and> (\<not> TransactionIdPrecedes y (TransactionXmin l) \<longrightarrow> subtrans_parent (SubLog l) y \<noteq> None
          \<and> (\<forall>p. subtrans_parent (SubLog l) y = Some p \<longrightarrow> TransactionIdIsValid p \<longrightarrow> p \<in> X)))"

lemma known_back:
  assumes "log_step l m" and "known l X" and "x \<in> X"
  shows "xact_status l x = xact_status m x"
    and "\<not> TransactionIdPrecedes x (TransactionXmin m) \<Longrightarrow> subtrans_parent (SubLog l) x = subtrans_parent (SubLog m) x"
    and "TransactionXmin l = TransactionXmin m"
proof -
  show xmin: "TransactionXmin l = TransactionXmin m" using assms(1) by (simp add: log_step_def)
  from assms(2,3) obtain v where v: "xact_status l x = Some v" unfolding known_def by blast
  from v log_step_status [OF assms(1) v] show "xact_status l x = xact_status m x" by simp
  assume "\<not> TransactionIdPrecedes x (TransactionXmin m)"
  with assms(2,3) obtain q where q: "subtrans_parent (SubLog l) x = Some q" unfolding known_def xmin by blast
  from q log_step_parent [OF assms(1) q] show "subtrans_parent (SubLog l) x = subtrans_parent (SubLog m) x" by simp
qed

lemma log_step_known:
  assumes "log_step l m" and "known l X"
  shows "known m X"
  using assms(2) known_back [OF assms] unfolding known_def by metis

lemma known_entry: "log_step l m \<Longrightarrow> known l X \<Longrightarrow> x \<in> X \<Longrightarrow>
    xact_status m x \<noteq> None \<and> (\<not> TransactionIdPrecedes x (TransactionXmin m) \<longrightarrow> subtrans_parent (SubLog m) x \<noteq> None)"
  using log_step_known [of l m X] unfolding known_def by blast

lemma known_parent:
  assumes "log_step l m" and "known l X" and "x \<in> X" and "\<not> TransactionIdPrecedes x (TransactionXmin m)"
    and "subtrans_parent (SubLog m) x = Some p" and "TransactionIdIsValid p"
  shows "p \<in> X"
  using log_step_known [OF assms(1,2)] assms(3-6) unfolding known_def by blast

definition query_post :: "TransLog \<Rightarrow> TransactionId set \<Rightarrow> (TransLog \<Rightarrow> bool) \<Rightarrow> (TransLog \<times> bool result) option \<Rightarrow> bool" where
  "query_post l X P res \<longleftrightarrow> (\<exists>l' r. res = Some (l', r) \<and> log_step l l'
     \<and> (case r of Inr b \<Rightarrow> b = P l' | Inl e \<Rightarrow> \<not> log_fine l \<or> \<not> known l X))"

lemma query_postI: "res = Some (l', Inr b) \<Longrightarrow> log_step l l' \<Longrightarrow> b = P l' \<Longrightarrow> query_post l X P res"
  "res = Some (l', Inl e) \<Longrightarrow> log_step l l' \<Longrightarrow> \<not> log_fine l \<or> \<not> known l X \<Longrightarrow> query_post l X P res"
  by (auto simp: query_post_def)

lemma query_post_known: "query_post l Y P res \<Longrightarrow> (known l X \<Longrightarrow> X = Y) \<Longrightarrow> query_post l X P res"
  by (auto simp: query_post_def split: sum.splits)

lemma query_post_trans:
  assumes "query_post m X P res" and "log_step l m" and "\<And>n. log_step m n \<Longrightarrow> P n = Q n"
  shows "query_post l X Q res"
proof -
  from assms(1) obtain n r where n: "res = Some (n, r)" "log_step m n"
    "case r of Inr b \<Rightarrow> b = P n | Inl e \<Rightarrow> \<not> log_fine m \<or> \<not> known m X" unfolding query_post_def by blast
  have "log_step l n" by (rule log_step_trans [OF assms(2) n(2)])
  moreover have "case r of Inr b \<Rightarrow> b = Q n | Inl e \<Rightarrow> \<not> log_fine l \<or> \<not> known l X"
    using n(3) assms(3) [OF n(2)] log_step_fine [OF assms(2)] log_step_known [OF assms(2)] by (auto split: sum.splits)
  ultimately show ?thesis using n(1) unfolding query_post_def by blast
qed

definition rank :: "TransLog \<Rightarrow> TransactionId \<Rightarrow> nat" where
  "rank l x = (if TransactionIdPrecedes x (TransactionXmin l) then 0 else Suc (unat (x - TransactionXmin l)))"

lemma rank_step: "log_step l m \<Longrightarrow> rank m x = rank l x"
  by (simp add: rank_def log_step_def)

lemma rank_parent:
  assumes "log_inv l" and "TransactionIdIsNormal x" and "\<not> TransactionIdPrecedes x (TransactionXmin l)"
    and "subtrans_parent (SubLog l) x = Some p" and "TransactionIdIsValid p"
  shows "rank l p < rank l x"
proof -
  have "TransactionIdPrecedes p x" "TransactionIdIsNormal (TransactionXmin l)" using assms by (auto simp: log_inv_def links_ok_def)
  with assms precedes_distance [of "TransactionXmin l" x p] show ?thesis by (auto simp: rank_def)
qed

text \<open>One step of a query at a sub-committed transaction.\<close>

lemma sub_committed_normal: "xact_status l x = Some TRANSACTION_STATUS_SUB_COMMITTED \<Longrightarrow> TransactionIdIsNormal x"
  by (auto simp: xact_status_def status_defs split: if_splits)

lemma sub_parent_cases:
  assumes inv: "log_inv l" and st: "xact_status l x = Some TRANSACTION_STATUS_SUB_COMMITTED"
  obtains (failed) s e where "SubTransGetParent (SubLog l) x = Some (s, Inl e)" "log_step l (l\<lparr>SubLog := s\<rparr>)"
      "\<not> log_fine l \<or> subtrans_parent (SubLog l) x = None"
  | (found) s p where "SubTransGetParent (SubLog l) x = Some (s, Inr p)" "log_step l (l\<lparr>SubLog := s\<rparr>)"
      "subtrans_parent s x = Some p" "xact_status (l\<lparr>SubLog := s\<rparr>) x = Some TRANSACTION_STATUS_SUB_COMMITTED"
proof -
  have sub: "slru_inv (SubLog l)" using inv by (simp add: log_inv_def)
  note step = log_step_sub [OF inv]
  show ?thesis using sub sub_committed_normal [OF st]
  proof (cases rule: SubTransGetParent_cases)
    case (failed t e)
    then show ?thesis using step [OF failed(2)] that(1) by (auto simp: log_fine_def)
  next
    case (found t p)
    then show ?thesis using step [OF found(2)] that(2) log_step_status [OF step [OF found(2)] st] by blast
  qed
qed

text \<open>What the two queries share: a status decides them at once, one answer is given where the parent of
  a sub-committed transaction is lost, and otherwise the parent is asked.\<close>

definition query_body :: "XidStatus \<Rightarrow> bool \<Rightarrow> (TransLog \<Rightarrow> TransactionId \<Rightarrow> (TransLog \<times> bool result) option) \<Rightarrow>
    TransLog \<Rightarrow> TransactionId \<Rightarrow> (TransLog \<times> bool result) option" where
  "query_body hit lost run l x =
     (case TransactionLogFetch l x of
        None \<Rightarrow> None
      | Some (l, Inl e) \<Rightarrow> Some (l, Inl e)
      | Some (l, Inr st) \<Rightarrow>
          if st = hit then Some (l, Inr True)
          else if st = TRANSACTION_STATUS_SUB_COMMITTED then
            if TransactionIdPrecedes x (TransactionXmin l) then Some (l, Inr lost)
            else case SubTransGetParent (SubLog l) x of
                   None \<Rightarrow> None
                 | Some (s, Inl e) \<Rightarrow> Some (l\<lparr>SubLog := s\<rparr>, Inl e)
                 | Some (s, Inr p) \<Rightarrow>
                     if \<not> TransactionIdIsValid p then Some (l\<lparr>SubLog := s\<rparr>, Inr lost) else run (l\<lparr>SubLog := s\<rparr>) p
          else Some (l, Inr False))"

locale log_query =
  fixes run :: "TransLog \<Rightarrow> TransactionId \<Rightarrow> (TransLog \<times> bool result) option"
    and hit :: XidStatus
    and lost :: bool
    and holds :: "TransLog \<Rightarrow> TransactionId \<Rightarrow> bool"
  assumes run_eq: "run l x = query_body hit lost run l x"
    and hit_final: "hit \<noteq> TRANSACTION_STATUS_SUB_COMMITTED"
    and holds_final: "xact_status l x = Some st \<Longrightarrow> st \<noteq> TRANSACTION_STATUS_SUB_COMMITTED \<Longrightarrow> holds l x = (st = hit)"
    and holds_old: "xact_status l x = Some TRANSACTION_STATUS_SUB_COMMITTED \<Longrightarrow>
      TransactionIdPrecedes x (TransactionXmin l) \<Longrightarrow> holds l x = lost"
    and holds_parent: "xact_status l x = Some TRANSACTION_STATUS_SUB_COMMITTED \<Longrightarrow>
      \<not> TransactionIdPrecedes x (TransactionXmin l) \<Longrightarrow> subtrans_parent (SubLog l) x = Some p \<Longrightarrow>
      holds l x = (if TransactionIdIsValid p then holds l p else lost)"
begin

lemma run_parent:
  assumes IH: "\<And>n p Y. rank n p < rank l x \<Longrightarrow> log_inv n \<Longrightarrow> TransactionIdIsValid p \<Longrightarrow> p \<in> Y \<Longrightarrow> query_post n Y (\<lambda>k. holds k p) (run n p)"
    and lm: "log_step l m" and f: "TransactionLogFetch l x = Some (m, Inr TRANSACTION_STATUS_SUB_COMMITTED)"
    and sub: "xact_status m x = Some TRANSACTION_STATUS_SUB_COMMITTED" and x: "x \<in> X"
    and young: "\<not> TransactionIdPrecedes x (TransactionXmin m)"
  shows "query_post l X (\<lambda>k. holds k x) (run l x)"
proof -
  have "log_inv m" using lm by (simp add: log_step_def)
  then show ?thesis using sub
  proof (cases rule: sub_parent_cases)
    case (failed s e)
    have "\<not> log_fine l \<or> \<not> known l X" using failed(3) log_step_fine [OF lm] known_entry [OF lm _ x] young by blast
    with failed f hit_final young log_step_trans [OF lm failed(2)] show ?thesis
      by (intro query_postI(2) [of _ "m\<lparr>SubLog := s\<rparr>" e]) (simp_all add: run_eq [of l x] query_body_def)
  next
    case parent: (found s p)
    let ?n = "m\<lparr>SubLog := s\<rparr>"
    note ln = log_step_trans [OF lm parent(2)]
    have same: "holds k x = (if TransactionIdIsValid p then holds k p else lost)" if "log_step ?n k" for k
      using holds_parent [of k x p] log_step_status [OF that parent(4)] log_step_parent [OF that, of x p] parent(3) young that
      by (simp add: log_step_def)
    have run: "run l x = (if TransactionIdIsValid p then run ?n p else Some (?n, Inr lost))"
      using f hit_final young parent(1) by (simp add: run_eq [of l x] query_body_def)
    show ?thesis
    proof (cases "TransactionIdIsValid p")
      case False
      with same [OF log_step_refl] run ln show ?thesis
        by (intro query_postI(1) [of _ ?n lost]) (simp_all add: log_step_def)
    next
      case valid: True
      have "rank ?n p < rank l x"
        using rank_parent [of ?n x p] parent sub_committed_normal [OF sub] young valid rank_step [OF ln] by (simp add: log_step_def)
      then have "query_post ?n (insert p X) (\<lambda>k. holds k p) (run ?n p)"
        using parent(2) valid by (intro IH) (simp_all add: log_step_def)
      then have "query_post l (insert p X) (\<lambda>k. holds k x) (run ?n p)"
        by (rule query_post_trans [OF _ ln]) (simp add: same valid)
      then have "query_post l X (\<lambda>k. holds k x) (run ?n p)"
        by (rule query_post_known) (use known_parent [OF ln _ x, of p] parent(2,3) valid young in \<open>auto simp: log_step_def\<close>)
      then show ?thesis using run valid by simp
    qed
  qed
qed

lemma run_post: "log_inv l \<Longrightarrow> TransactionIdIsValid x \<Longrightarrow> x \<in> X \<Longrightarrow> query_post l X (\<lambda>k. holds k x) (run l x)"
proof (induction "rank l x" arbitrary: l x X rule: less_induct)
  case less
  show ?case using less.prems(1,2)
  proof (cases rule: TransactionLogFetch_cases)
    case (failed m e)
    then have "\<not> log_fine l \<or> \<not> known l X" using less.prems(3) by (auto simp: known_def)
    with failed show ?thesis by (intro query_postI(2)) (simp_all add: run_eq [of l x] query_body_def)
  next
    case (found m st)
    consider (final) "st \<noteq> TRANSACTION_STATUS_SUB_COMMITTED"
      | (old) "st = TRANSACTION_STATUS_SUB_COMMITTED" "TransactionIdPrecedes x (TransactionXmin m)"
      | (young) "st = TRANSACTION_STATUS_SUB_COMMITTED" "\<not> TransactionIdPrecedes x (TransactionXmin m)" by blast
    then show ?thesis
    proof cases
      case final
      with found holds_final [OF found(3) final] show ?thesis
        by (intro query_postI(1) [of _ m "st = hit"]) (simp_all add: run_eq [of l x] query_body_def)
    next
      case old
      with found holds_old [of m x] hit_final show ?thesis
        by (intro query_postI(1) [of _ m lost]) (simp_all add: run_eq [of l x] query_body_def)
    next
      case young
      then have f: "TransactionLogFetch l x = Some (m, Inr TRANSACTION_STATUS_SUB_COMMITTED)"
        "xact_status m x = Some TRANSACTION_STATUS_SUB_COMMITTED" using found by simp_all
      show ?thesis by (rule run_parent [OF _ found(2) f less.prems(3) young(2)]) (rule less.hyps)
    qed
  qed
qed

end

lemma status_ne: "TRANSACTION_STATUS_COMMITTED \<noteq> TRANSACTION_STATUS_SUB_COMMITTED" "TRANSACTION_STATUS_ABORTED \<noteq> TRANSACTION_STATUS_SUB_COMMITTED"
  "TRANSACTION_STATUS_SUB_COMMITTED \<noteq> TRANSACTION_STATUS_COMMITTED" "TRANSACTION_STATUS_SUB_COMMITTED \<noteq> TRANSACTION_STATUS_ABORTED"
  "TRANSACTION_STATUS_COMMITTED \<noteq> TRANSACTION_STATUS_ABORTED" "TRANSACTION_STATUS_ABORTED \<noteq> TRANSACTION_STATUS_COMMITTED"
  by (simp_all add: status_defs)

lemma did_commit_unfold:
  "xact_status l x = Some st \<Longrightarrow> st \<noteq> TRANSACTION_STATUS_SUB_COMMITTED \<Longrightarrow> did_commit l x = (st = TRANSACTION_STATUS_COMMITTED)"
  "xact_status l x = Some TRANSACTION_STATUS_SUB_COMMITTED \<Longrightarrow> TransactionIdPrecedes x (TransactionXmin l) \<Longrightarrow> did_commit l x = False"
  "xact_status l x = Some TRANSACTION_STATUS_SUB_COMMITTED \<Longrightarrow> \<not> TransactionIdPrecedes x (TransactionXmin l) \<Longrightarrow>
    subtrans_parent (SubLog l) x = Some p \<Longrightarrow> did_commit l x = (if TransactionIdIsValid p then did_commit l p else False)"
  using status_ne by (auto simp: did_commit.simps [of l x] TransactionIdIsValid_def)

lemma did_abort_unfold:
  "xact_status l x = Some st \<Longrightarrow> st \<noteq> TRANSACTION_STATUS_SUB_COMMITTED \<Longrightarrow> did_abort l x = (st = TRANSACTION_STATUS_ABORTED)"
  "xact_status l x = Some TRANSACTION_STATUS_SUB_COMMITTED \<Longrightarrow> TransactionIdPrecedes x (TransactionXmin l) \<Longrightarrow> did_abort l x = True"
  "xact_status l x = Some TRANSACTION_STATUS_SUB_COMMITTED \<Longrightarrow> \<not> TransactionIdPrecedes x (TransactionXmin l) \<Longrightarrow>
    subtrans_parent (SubLog l) x = Some p \<Longrightarrow> did_abort l x = (if TransactionIdIsValid p then did_abort l p else True)"
  using status_ne by (auto simp: did_abort.simps [of l x] TransactionIdIsValid_def)

interpretation commit_query: log_query TransactionIdDidCommit TRANSACTION_STATUS_COMMITTED False did_commit
proof
  show "TransactionIdDidCommit l x = query_body TRANSACTION_STATUS_COMMITTED False TransactionIdDidCommit l x" for l x
    by (simp only: TransactionIdDidCommit.simps [of l x] query_body_def)
qed (fact status_ne did_commit_unfold)+

interpretation abort_query: log_query TransactionIdDidAbort TRANSACTION_STATUS_ABORTED True did_abort
proof
  show "TransactionIdDidAbort l x = query_body TRANSACTION_STATUS_ABORTED True TransactionIdDidAbort l x" for l x
    by (simp only: TransactionIdDidAbort.simps [of l x] query_body_def)
qed (fact status_ne did_abort_unfold)+

text \<open>A later state of the logs gives the same answers about known transactions.\<close>

lemma did_commit_mono: "did_commit l x \<Longrightarrow> log_step l m \<Longrightarrow> did_commit m x"
proof (induction rule: did_commit.induct)
  case (committed x)
  then show ?case by (blast intro: did_commit.committed log_step_status)
next
  case (parent x p)
  then show ?case by (intro did_commit.parent [of m x p]) (auto intro: log_step_status log_step_parent simp: log_step_def)
qed

lemma did_abort_mono: "did_abort l x \<Longrightarrow> log_step l m \<Longrightarrow> did_abort m x"
proof (induction rule: did_abort.induct)
  case (aborted x)
  then show ?case by (blast intro: did_abort.aborted log_step_status)
next
  case (old x)
  then show ?case by (intro did_abort.old) (auto intro: log_step_status simp: log_step_def)
next
  case (orphan x)
  then show ?case by (intro did_abort.orphan) (auto intro: log_step_status log_step_parent simp: log_step_def)
next
  case (parent x p)
  then show ?case by (intro did_abort.parent [of m x p]) (auto intro: log_step_status log_step_parent simp: log_step_def)
qed

lemma did_commit_back:
  assumes "did_commit m x" and "log_step l m" and "known l X" and "x \<in> X"
  shows "did_commit l x"
  using assms(1,4)
proof (induction rule: did_commit.induct)
  case (committed x)
  then show ?case using known_back(1) [OF assms(2,3)] by (intro did_commit.committed) simp
next
  case (parent x p)
  from known_parent [OF assms(2,3)] parent have "p \<in> X" by blast
  with parent show ?case using known_back [OF assms(2,3), of x] by (intro did_commit.parent [of l x p]) simp_all
qed

lemma did_abort_back:
  assumes "did_abort m x" and "log_step l m" and "known l X" and "x \<in> X"
  shows "did_abort l x"
  using assms(1,4)
proof (induction rule: did_abort.induct)
  case (aborted x)
  then show ?case using known_back(1) [OF assms(2,3)] by (intro did_abort.aborted) simp
next
  case (old x)
  then show ?case using known_back [OF assms(2,3)] by (intro did_abort.old) simp_all
next
  case (orphan x)
  then show ?case using known_back [OF assms(2,3)] by (intro did_abort.orphan) simp_all
next
  case (parent x p)
  from known_parent [OF assms(2,3)] parent have "p \<in> X" by blast
  with parent show ?case using known_back [OF assms(2,3), of x] by (intro did_abort.parent [of l x p]) simp_all
qed

lemma commit_abort_exclusive: "did_commit l x \<Longrightarrow> \<not> did_abort l x"
proof (induction rule: did_commit.induct)
  case (committed x)
  then show ?case using did_abort_unfold(1) status_ne by blast
next
  case (parent x p)
  then show ?case using did_abort_unfold(3) by auto
qed

section \<open>Committing a tree\<close>

lemma set_tree_post:
  assumes inv: "log_inv l" and valid: "TransactionIdIsValid xid" and st: "status < 4"
    and prog: "\<forall>x \<in> insert xid (set subxids). xact_status l x = Some TRANSACTION_STATUS_IN_PROGRESS"
  obtains l' r ws where "set_tree l xid subxids status lsn = Some (l', r)" "log_inv l'" "SubLog l' = SubLog l"
    "TransactionXmin l' = TransactionXmin l" "cachedFetchXid l' = cachedFetchXid l" "cachedCommitLSN l' = cachedCommitLSN l"
    "prefix ws (tree_writes xid subxids status)" "clog_step (XactLog l) lsn ws (XactLog l')"
    "r = Inr () \<longrightarrow> ws = tree_writes xid subxids status" "log_fine l \<longrightarrow> r = Inr ()"
proof -
  from inv have cinv: "clog_inv (XactLog l)" by (simp add: log_inv_def)
  have cprog: "clog_status (XactLog l) x = Some TRANSACTION_STATUS_IN_PROGRESS" if "x \<in> insert xid (set subxids)" for x
    using prog that by (auto simp: xact_status_def status_defs split: if_splits)
  from SetTreeStatus_post [OF cinv valid st, of lsn subxids] obtain s r ws where
    r: "TransactionIdSetTreeStatus (XactLog l) xid subxids status lsn = Some (s, r)"
      "prefix ws (tree_writes xid subxids status)" "clog_step (XactLog l) lsn ws s" "r = Inr () \<longrightarrow> ws = tree_writes xid subxids status"
      "io_fine (XactLog l) \<and> (\<forall>x \<in> fst ` set (tree_writes xid subxids status). clog_status (XactLog l) x \<noteq> None) \<longrightarrow> r = Inr ()"
    unfolding writes_post_def by blast
  have "cache_ok (l\<lparr>XactLog := s\<rparr>)"
  proof -
    have "cachedFetchXid l \<notin> insert xid (set subxids)" if "cachedFetchXid l \<noteq> InvalidTransactionId"
      using cprog [of "cachedFetchXid l"] inv that by (auto simp: log_inv_def cache_ok_def status_defs)
    then show ?thesis using inv r(3) prefix_untouched [OF r(2), of "cachedFetchXid l"]
      by (auto simp: log_inv_def cache_ok_def clog_step_def)
  qed
  then have "log_inv (l\<lparr>XactLog := s\<rparr>)" using inv r(3) by (simp add: log_inv_def links_ok_def clog_step_def)
  moreover have "log_fine l \<longrightarrow> r = Inr ()"
    using r(5) tree_writes_fst [of xid subxids status] cprog by (fastforce simp: log_fine_def)
  ultimately show ?thesis using r(1-4) by (intro that [of "l\<lparr>XactLog := s\<rparr>" r ws]) (simp_all add: set_tree_def)
qed

lemma tree_seen:
  assumes inv: "log_inv l'" and links: "\<forall>x \<in> set subxids. \<not> TransactionIdPrecedes x (TransactionXmin l')
      \<and> (\<exists>p \<in> insert xid (set subxids). subtrans_parent (SubLog l') x = Some p \<and> TransactionIdIsValid p)"
    and main: "xact_status l' xid = Some TRANSACTION_STATUS_COMMITTED"
    and subs: "\<forall>x \<in> set subxids. xact_status l' x \<in> {Some TRANSACTION_STATUS_SUB_COMMITTED, Some TRANSACTION_STATUS_COMMITTED}"
  shows "x \<in> set subxids \<Longrightarrow> did_commit l' x"
proof (induction "rank l' x" arbitrary: x rule: less_induct)
  case less
  show ?case
  proof (cases "xact_status l' x = Some TRANSACTION_STATUS_COMMITTED")
    case True
    then show ?thesis by (rule did_commit.committed)
  next
    case False
    with subs less.prems have sub: "xact_status l' x = Some TRANSACTION_STATUS_SUB_COMMITTED" by auto
    from links less.prems obtain p where p: "\<not> TransactionIdPrecedes x (TransactionXmin l')" "p \<in> insert xid (set subxids)"
      "subtrans_parent (SubLog l') x = Some p" "TransactionIdIsValid p" by blast
    have "did_commit l' p"
    proof (cases "p = xid")
      case True
      with main show ?thesis by (simp add: did_commit.committed)
    next
      case False
      with p rank_parent [OF inv sub_committed_normal [OF sub] p(1,3,4)] show ?thesis by (intro less.hyps) auto
    qed
    with sub p show ?thesis by (blast intro: did_commit.parent)
  qed
qed

lemma tree_unseen:
  assumes links: "\<forall>x \<in> set subxids. \<exists>p \<in> insert xid (set subxids). subtrans_parent (SubLog l') x = Some p"
    and main: "xact_status l' xid \<notin> {Some TRANSACTION_STATUS_SUB_COMMITTED, Some TRANSACTION_STATUS_COMMITTED}"
    and subs: "\<forall>x \<in> set subxids. xact_status l' x \<noteq> Some TRANSACTION_STATUS_COMMITTED"
  shows "did_commit l' x \<Longrightarrow> x \<notin> insert xid (set subxids)"
proof (induction rule: did_commit.induct)
  case (committed x)
  then show ?case using main subs by auto
next
  case (parent x p)
  then show ?case using main links by auto
qed

section \<open>Runs\<close>

text \<open>What a backend does with the logs after a commit: queries, and commits and aborts of trees of
  transactions in progress.\<close>

inductive log_run :: "TransLog \<Rightarrow> TransLog \<Rightarrow> bool" for l where
  start: "log_run l l"
| did_commit: "log_run l m \<Longrightarrow> TransactionIdIsValid x \<Longrightarrow> TransactionIdDidCommit m x = Some (n, r) \<Longrightarrow> log_run l n"
| did_abort: "log_run l m \<Longrightarrow> TransactionIdIsValid x \<Longrightarrow> TransactionIdDidAbort m x = Some (n, r) \<Longrightarrow> log_run l n"
| async_commit: "log_run l m \<Longrightarrow> \<forall>x \<in> insert xid (set xids). xact_status m x = Some TRANSACTION_STATUS_IN_PROGRESS \<Longrightarrow>
    TransactionIdAsyncCommitTree m xid xids lsn = Some (n, r') \<Longrightarrow> log_run l n"
| abort: "log_run l m \<Longrightarrow> \<forall>x \<in> insert xid (set xids). xact_status m x = Some TRANSACTION_STATUS_IN_PROGRESS \<Longrightarrow>
    TransactionIdAbortTree m xid xids = Some (n, r') \<Longrightarrow> log_run l n"

lemma in_progress_valid: "xact_status l x = Some TRANSACTION_STATUS_IN_PROGRESS \<Longrightarrow> TransactionIdIsValid x"
  by (auto simp: xact_status_def status_defs xid_defs split: if_splits)

lemma in_progress_clog:
  assumes "xact_status l x = Some TRANSACTION_STATUS_IN_PROGRESS"
  shows "TransactionIdIsNormal x" "clog_status (XactLog l) x = Some TRANSACTION_STATUS_IN_PROGRESS"
  using assms by (auto simp: xact_status_def status_defs split: if_splits)

lemma set_tree_known:
  assumes "log_inv m" and "status < 4" and "\<forall>x \<in> insert xid (set xids). xact_status m x = Some TRANSACTION_STATUS_IN_PROGRESS"
    and "set_tree m xid xids status lsn = Some (n, r)"
  shows "log_inv n" "lsn_known m y k \<Longrightarrow> lsn_known n y k"
proof -
  have valid: "TransactionIdIsValid xid" using assms(3) in_progress_valid by blast
  obtain n' r' ws where t: "set_tree m xid xids status lsn = Some (n', r')" "log_inv n'"
    "cachedFetchXid n' = cachedFetchXid m" "cachedCommitLSN n' = cachedCommitLSN m" "clog_step (XactLog m) lsn ws (XactLog n')"
    by (rule set_tree_post [OF assms(1) valid assms(2,3)])
  then have "n' = n" using assms(4) by simp
  with t lsn_known_step [of m y k lsn ws n] assms(1) show "log_inv n" "lsn_known m y k \<Longrightarrow> lsn_known n y k" by (simp_all add: log_inv_def)
qed

lemma query_known:
  assumes "query_post m UNIV P res" and "res = Some (n, r)"
  shows "log_inv n" "lsn_known m y k \<Longrightarrow> lsn_known n y k"
  using assms by (auto simp: query_post_def log_step_def)

lemma log_run_known:
  assumes "log_run l m" and "log_inv l"
  shows "log_inv m \<and> (lsn_known l y k \<longrightarrow> lsn_known m y k)"
  using assms(1)
proof (induction rule: log_run.induct)
  case start
  with assms(2) show ?case by simp
next
  case (did_commit m x n r)
  then show ?case using query_known [OF commit_query.run_post did_commit(3)] by auto
next
  case (did_abort m x n r)
  then show ?case using query_known [OF abort_query.run_post did_abort(3)] by auto
next
  case (async_commit m xid xids lsn n r')
  have "TRANSACTION_STATUS_COMMITTED < 4" by (simp add: status_defs)
  with async_commit show ?case using set_tree_known [of m TRANSACTION_STATUS_COMMITTED xid xids lsn n r'] by (auto simp: TransactionIdAsyncCommitTree_def)
next
  case (abort m xid xids n r')
  have "TRANSACTION_STATUS_ABORTED < 4" by (simp add: status_defs)
  with abort show ?case using set_tree_known [of m TRANSACTION_STATUS_ABORTED xid xids 0 n r'] by (auto simp: TransactionIdAbortTree_def)
qed

lemma commit_known:
  assumes inv: "log_inv l" and prog: "\<forall>x \<in> insert xid (set xids). xact_status l x = Some TRANSACTION_STATUS_IN_PROGRESS"
    and c: "TransactionIdAsyncCommitTree l xid xids lsn = Some (m, Inr ())" and x: "x \<in> insert xid (set xids)"
  shows "lsn_known m x lsn"
proof -
  have C: "TRANSACTION_STATUS_COMMITTED < 4" by (simp add: status_defs)
  have valid: "TransactionIdIsValid xid" using prog in_progress_valid by blast
  obtain n r ws where t: "set_tree l xid xids TRANSACTION_STATUS_COMMITTED lsn = Some (n, r)" "cachedFetchXid n = cachedFetchXid l"
    "clog_step (XactLog l) lsn ws (XactLog n)" "r = Inr () \<longrightarrow> ws = tree_writes xid xids TRANSACTION_STATUS_COMMITTED"
    by (rule set_tree_post [OF inv valid C prog])
  with c have m: "n = m" "r = Inr ()" by (simp_all add: TransactionIdAsyncCommitTree_def)
  have "x \<in> fst ` set (tree_writes xid xids TRANSACTION_STATUS_COMMITTED)"
    by (rule tree_writes_commit [OF valid, of xids]) (use x in \<open>auto simp: image_Un image_image\<close>)
  then have "lsn_covered (XactLog m) (TransactionIdToPage x) (lsn_group x) lsn" using t(3,4) m by (auto simp: clog_step_def)
  moreover have "cachedFetchXid m \<noteq> x"
  proof
    assume "cachedFetchXid m = x"
    with t(2) m have eq: "cachedFetchXid l = x" by simp
    from prog x have p: "xact_status l x = Some TRANSACTION_STATUS_IN_PROGRESS" by blast
    have "TransactionIdIsNormal x" "clog_status (XactLog l) x = Some TRANSACTION_STATUS_IN_PROGRESS" "x \<noteq> InvalidTransactionId"
      using in_progress_clog [OF p] in_progress_valid [OF p] by (simp_all add: xid_defs)
    moreover have "cache_ok l" using inv by (simp add: log_inv_def)
    ultimately show False using eq by (auto simp: cache_ok_def status_defs)
  qed
  ultimately show ?thesis by (simp add: lsn_known_def)
qed

lemma TransactionIdGetCommitLSN_known:
  assumes inv: "log_inv l" and kn: "lsn_known l x lsn" and normal: "TransactionIdIsNormal x"
  obtains m r where "TransactionIdGetCommitLSN l x = Some (m, r)" "log_inv m"
    "\<And>lsn'. r = Inr lsn' \<Longrightarrow> lsn \<le> lsn' \<or> lsn \<le> wal_flushed (XactLog m)"
proof (cases "x = cachedFetchXid l")
  case True
  with kn inv that show ?thesis by (auto simp: TransactionIdGetCommitLSN_def lsn_known_def)
next
  case False
  from inv have "clog_inv (XactLog l)" by (simp add: log_inv_def)
  from TransactionIdGetStatus_post [OF this, of x] obtain s r where
    r: "TransactionIdGetStatus (XactLog l) x = Some (s, r)" "clog_step (XactLog l) 0 [] s"
    and c: "case r of Inl e \<Rightarrow> \<not> io_fine (XactLog l) \<or> clog_status (XactLog l) x = None
      | Inr (st, lsn) \<Rightarrow> clog_status s x = Some st
          \<and> (\<forall>k. lsn_covered s (TransactionIdToPage x) (lsn_group x) k \<longrightarrow> k \<le> lsn \<or> k \<le> wal_flushed s)"
    unfolding get_post_def by blast
  from log_step_xact [OF inv r(2)] kn have m: "log_inv (l\<lparr>XactLog := s\<rparr>)" "lsn_known (l\<lparr>XactLog := s\<rparr>) x lsn" by (simp_all add: log_step_def)
  show ?thesis
  proof (cases r)
    case (Inl e)
    with r False normal m that show ?thesis by (auto simp: TransactionIdGetCommitLSN_def)
  next
    case (Inr v)
    obtain st k where "v = (st, k)" by fastforce
    with r c Inr False normal m that show ?thesis by (auto simp: TransactionIdGetCommitLSN_def lsn_known_def)
  qed
qed

section \<open>A small log\<close>

text \<open>One page of pg_xact with the given contents, and a page of pg_subtrans on which 5 is the parent of 7.\<close>

definition small_log :: "slru_page \<Rightarrow> TransLog" where
  "small_log page = \<lparr>XactLog = CLOGShmemInit 0 [(0, [page])], SubLog = small_subtrans, cachedFetchXid = InvalidTransactionId,
     cachedFetchXidStatus = 0, cachedCommitLSN = 0, TransactionXmin = FirstNormalTransactionId\<rparr>"

lemma small_subtrans_other:
  assumes "SUBTRANS_TransactionIdToPage x \<noteq> 0"
  shows "subtrans_parent small_subtrans x = None"
proof -
  have "stored small_subtrans p = None" if "p \<noteq> 0" for p
    using that by (subst stored_not_held)
      (auto simp: small_subtrans_def SUBTRANSShmemInit_def SimpleLruInit_def holds_page_def file_page_def seg_file_def SLRU_PAGES_PER_SEGMENT_def)
  with assms show ?thesis by (simp add: subtrans_parent_def entry_of_def)
qed

lemma small_log: "log_inv (small_log b)" "log_fine (small_log b)"
  "TransactionIdToPage x = 0 \<Longrightarrow> TransactionIdIsNormal x \<Longrightarrow> xact_status (small_log b) x = Some (status_on b x)"
proof -
  have "clog_inv (XactLog (small_log b))"
    by (simp add: small_log_def clog_inv_def slru_inv_def CLOGShmemInit_def SimpleLruInit_def CLOGShmemBuffers_def distinct_pages_def slot_ok_def holds_page_def)
  moreover have "TransactionIdPrecedes p x" if "subtrans_parent small_subtrans x = Some p" "TransactionIdIsValid p" for x p
    using that small_subtrans(3) [of x] small_subtrans_other [of x]
    by (cases "SUBTRANS_TransactionIdToPage x = 0") (auto simp: xid_defs TransactionIdPrecedes_def split: if_splits)
  ultimately show "log_inv (small_log b)"
    by (simp add: log_inv_def small_subtrans(1) cache_ok_def links_ok_def small_log_def xid_defs)
  show "log_fine (small_log b)" using small_subtrans(2) by (simp add: log_fine_def small_log_def io_fine_def CLOGShmemInit_def SimpleLruInit_def)
  have "file_page (XactLog (small_log b)) 0 = Some b"
    by (simp add: file_page_def seg_file_def small_log_def CLOGShmemInit_def SimpleLruInit_def SLRU_PAGES_PER_SEGMENT_def)
  then have "stored (XactLog (small_log b)) 0 = Some b"
    by (subst stored_not_held) (simp_all add: small_log_def CLOGShmemInit_def SimpleLruInit_def holds_page_def)
  then show "TransactionIdToPage x = 0 \<Longrightarrow> TransactionIdIsNormal x \<Longrightarrow> xact_status (small_log b) x = Some (status_on b x)"
    by (simp add: xact_status_def clog_status_def)
qed

lemma small_log_pages: "TransactionIdToPage 5 = 0" "TransactionIdToPage 7 = 0" "TransactionIdIsNormal 5" "TransactionIdIsNormal 7"
  "SUBTRANS_TransactionIdToPage 5 = 0" "SUBTRANS_TransactionIdToPage 7 = 0"
  "SubLog (small_log b) = small_subtrans" "TransactionXmin (small_log b) = 3"
  by (simp_all add: TransactionIdToPage_def clog_layout SUBTRANS_TransactionIdToPage_def subtrans_layout small_log_def xid_defs)

lemma small_log_tree: "\<forall>x \<in> insert 5 (set [7]). xact_status (small_log zeroes) x = Some TRANSACTION_STATUS_IN_PROGRESS"
  by (simp add: small_log(3) small_log_pages status_on_zeroes)

section \<open>Properties\<close>

text \<open>C5. The queries of transam.c decide the fate of a transaction: for transactions about which the
  logs are complete they end, and TransactionIdDidCommit and TransactionIdDidAbort answer whether
  the transaction has committed or aborted, where a sub-committed transaction shares the fate of
  its parent; the cache never makes an answer wrong.  Only a failing physical operation ends in
  an error.  No transaction has both committed and aborted.\<close>

theorem TransactionId_fate:
  assumes "log_inv l" and "known l X" and "x \<in> X" and "TransactionIdIsValid x"
  shows "(\<exists>l' r. TransactionIdDidCommit l x = Some (l', r) \<and> log_inv l' \<and> (r = Inr (did_commit l x) \<or> isl r \<and> \<not> log_fine l))
    \<and> (\<exists>l' r. TransactionIdDidAbort l x = Some (l', r) \<and> log_inv l' \<and> (r = Inr (did_abort l x) \<or> isl r \<and> \<not> log_fine l))
    \<and> \<not> (did_commit l x \<and> did_abort l x)"
proof (intro conjI)
  have same: "did_commit m x = did_commit l x" "did_abort m x = did_abort l x" if "log_step l m" for m
    using did_commit_mono [of l x m] did_commit_back [OF _ that assms(2,3)] did_abort_mono [of l x m] did_abort_back [OF _ that assms(2,3)] that
    by blast+
  have post: "\<exists>l' r. res = Some (l', r) \<and> log_inv l' \<and> (r = Inr (P l) \<or> isl r \<and> \<not> log_fine l)"
    if "query_post l X P res" "\<And>m. log_step l m \<Longrightarrow> P m = P l" for P res
  proof -
    from that(1) obtain l' r where r: "res = Some (l', r)" "log_step l l'" "case r of Inr b \<Rightarrow> b = P l' | Inl e \<Rightarrow> \<not> log_fine l \<or> \<not> known l X"
      unfolding query_post_def by blast
    then have "log_inv l'" "r = Inr (P l) \<or> isl r \<and> \<not> log_fine l"
      using that(2) [OF r(2)] assms(2) by (cases r; auto simp: log_step_def)+
    with r(1) show ?thesis by blast
  qed
  show "\<exists>l' r. TransactionIdDidCommit l x = Some (l', r) \<and> log_inv l' \<and> (r = Inr (did_commit l x) \<or> isl r \<and> \<not> log_fine l)"
    by (rule post [OF commit_query.run_post [OF assms(1,4,3)]]) (rule same)
  show "\<exists>l' r. TransactionIdDidAbort l x = Some (l', r) \<and> log_inv l' \<and> (r = Inr (did_abort l x) \<or> isl r \<and> \<not> log_fine l)"
    by (rule post [OF abort_query.run_post [OF assms(1,4,3)]]) (rule same)
  show "\<not> (did_commit l x \<and> did_abort l x)" using commit_abort_exclusive by blast
qed

theorem TransactionId_fate_witness:
  "\<exists>l'. TransactionIdDidCommit
     (small_log (set_status_on (set_status_on zeroes 5 TRANSACTION_STATUS_COMMITTED) 7 TRANSACTION_STATUS_SUB_COMMITTED)) 7 = Some (l', Inr True)"
proof -
  let ?b = "set_status_on (set_status_on zeroes 5 TRANSACTION_STATUS_COMMITTED) 7 TRANSACTION_STATUS_SUB_COMMITTED"
  have b: "status_on ?b 5 = TRANSACTION_STATUS_COMMITTED" "status_on ?b 7 = TRANSACTION_STATUS_SUB_COMMITTED"
    by (simp_all add: xact_table.get_put small_log_pages status_defs)
  have st: "xact_status (small_log ?b) 5 = Some TRANSACTION_STATUS_COMMITTED" "xact_status (small_log ?b) 7 = Some TRANSACTION_STATUS_SUB_COMMITTED"
    using b by (simp_all add: small_log(3) small_log_pages)
  have par: "subtrans_parent (SubLog (small_log ?b)) 7 = Some 5" "subtrans_parent (SubLog (small_log ?b)) 5 = Some InvalidTransactionId"
    by (simp_all add: small_subtrans(3) small_log_pages)
  have valid: "TransactionIdIsValid 5" "TransactionIdIsValid 7" "\<not> TransactionIdIsValid InvalidTransactionId" by (simp_all add: xid_defs)
  have "did_commit (small_log ?b) 7"
    by (rule did_commit.parent [OF st(2) _ par(1) valid(1) did_commit.committed [OF st(1)]])
      (simp add: small_log_pages TransactionIdPrecedes_def xid_defs)
  moreover have "known (small_log ?b) {5, 7}" using st par valid by (auto simp: known_def)
  ultimately show ?thesis using TransactionId_fate [OF small_log(1) _ _ valid(2), of ?b "{5, 7}"] small_log(2) [of ?b] by auto
qed

text \<open>C6. A commit becomes visible all at once.  Let the subtransactions of a tree of transactions in
  progress have their parents within the tree.  When TransactionIdAsyncCommitTree returns, and also
  when a failing physical operation stops it half way, either the whole tree has committed for
  every observer or none of it has; it has committed if no error is reported, and nothing changes
  for transactions outside the tree.\<close>

theorem TransactionIdAsyncCommitTree_all_or_nothing:
  assumes inv: "log_inv l" and xid: "xid \<notin> set subxids"
    and prog: "\<forall>x \<in> insert xid (set subxids). xact_status l x = Some TRANSACTION_STATUS_IN_PROGRESS"
    and links: "\<forall>x \<in> set subxids. \<not> TransactionIdPrecedes x (TransactionXmin l)
      \<and> (\<exists>p \<in> insert xid (set subxids). subtrans_parent (SubLog l) x = Some p)"
  shows "\<exists>l' r. TransactionIdAsyncCommitTree l xid subxids lsn = Some (l', r) \<and> log_inv l'
    \<and> (log_fine l \<longrightarrow> r = Inr ()) \<and> (r = Inr () \<longrightarrow> did_commit l' xid)
    \<and> (\<forall>x \<in> set subxids. did_commit l' x = did_commit l' xid)
    \<and> (\<forall>y v. y \<notin> insert xid (set subxids) \<longrightarrow> xact_status l y = Some v \<longrightarrow> xact_status l' y = Some v)"
proof -
  let ?C = "TRANSACTION_STATUS_COMMITTED" and ?P = "TRANSACTION_STATUS_IN_PROGRESS"
  have ne: "?P \<noteq> ?C" "?P \<noteq> TRANSACTION_STATUS_SUB_COMMITTED" "?C \<noteq> TRANSACTION_STATUS_SUB_COMMITTED" "?C < 4"
    by (simp_all add: status_defs)
  have normal: "TransactionIdIsNormal x" if "x \<in> insert xid (set subxids)" for x
    using prog that by (auto simp: xact_status_def status_defs split: if_splits)
  have valid: "TransactionIdIsValid x" if "x \<in> insert xid (set subxids)" for x using normal [OF that] by (auto simp: xid_defs)
  obtain l' r ws where r: "set_tree l xid subxids ?C lsn = Some (l', r)" "log_inv l'" "SubLog l' = SubLog l" "TransactionXmin l' = TransactionXmin l"
    "prefix ws (tree_writes xid subxids ?C)" "clog_step (XactLog l) lsn ws (XactLog l')"
    "r = Inr () \<longrightarrow> ws = tree_writes xid subxids ?C" "log_fine l \<longrightarrow> r = Inr ()"
    by (rule set_tree_post [OF inv valid [OF insertI1] ne(4) prog])
  have st: "xact_status l' y = Some (wrote ws y v)" if "xact_status l y = Some v" "TransactionIdIsNormal y" for y v
    using that r(6) by (simp add: xact_status_def clog_step_def)
  have tree: "xact_status l' x = Some (wrote ws x ?P)" if "x \<in> insert xid (set subxids)" for x
    using st [OF _ normal [OF that]] prog that by blast
  note pre = commit_prefix [OF valid [OF insertI1] xid r(5) _ ne(1), where v = ?P] commit_prefix_main [OF valid [OF insertI1] xid r(5), of ?P]
  have seen: "\<forall>x \<in> set subxids. did_commit l' x = did_commit l' xid"
  proof (cases "wrote ws xid ?P = ?C")
    case True
    then have "xact_status l' xid = Some ?C" using tree by simp
    moreover have "\<forall>x \<in> set subxids. xact_status l' x \<in> {Some TRANSACTION_STATUS_SUB_COMMITTED, Some ?C}"
      using pre(2) ne(1) True tree by auto
    moreover have "\<forall>x \<in> set subxids. \<not> TransactionIdPrecedes x (TransactionXmin l')
        \<and> (\<exists>p \<in> insert xid (set subxids). subtrans_parent (SubLog l') x = Some p \<and> TransactionIdIsValid p)"
      using links valid by (auto simp: r(3,4))
    ultimately show ?thesis using tree_seen [OF r(2)] did_commit.committed by blast
  next
    case False
    then have "xact_status l' xid \<notin> {Some TRANSACTION_STATUS_SUB_COMMITTED, Some ?C}" using pre(3) tree [of xid] ne by auto
    moreover have "\<forall>x \<in> set subxids. xact_status l' x \<noteq> Some ?C" using pre(1) False tree by auto
    moreover have "\<forall>x \<in> set subxids. \<exists>p \<in> insert xid (set subxids). subtrans_parent (SubLog l') x = Some p" using links by (simp add: r(3))
    ultimately show ?thesis using tree_unseen [of subxids xid l'] by blast
  qed
  have "did_commit l' xid" if "r = Inr ()"
    using r(7) that tree [of xid] commit_complete [OF valid [OF insertI1], of subxids xid ?P] by (intro did_commit.committed) simp
  moreover have "xact_status l' y = Some v" if "y \<notin> insert xid (set subxids)" "xact_status l y = Some v" for y v
    using st [OF that(2)] prefix_untouched [OF r(5) that(1)] that(2) by (cases "TransactionIdIsNormal y") (auto simp: xact_status_def)
  ultimately show ?thesis using r(1,2,8) seen unfolding TransactionIdAsyncCommitTree_def by blast
qed

theorem TransactionIdAsyncCommitTree_all_or_nothing_witness:
  "\<exists>l'. TransactionIdAsyncCommitTree (small_log zeroes) 5 [7] 1000 = Some (l', Inr ()) \<and> did_commit l' 5 \<and> did_commit l' 7"
proof -
  have "\<forall>x \<in> set [7]. \<not> TransactionIdPrecedes x (TransactionXmin (small_log zeroes))
      \<and> (\<exists>p \<in> insert 5 (set [7]). subtrans_parent (SubLog (small_log zeroes)) x = Some p)"
    by (simp add: small_log_pages small_subtrans(3) TransactionIdPrecedes_def xid_defs)
  from TransactionIdAsyncCommitTree_all_or_nothing [OF small_log(1) _ small_log_tree this, of 1000] small_log(2) [of zeroes]
  show ?thesis by auto
qed

text \<open>C7. Asking for the commit LSN is late enough for an asynchronous commit: after a tree has been
  committed with the LSN of its commit record, and whatever queries, commits and aborts follow,
  TransactionIdGetCommitLSN ends for every member of the tree, and if it returns an LSN that is
  not before the commit record, unless the record is already flushed.  Whoever flushes the WAL up to the returned
  LSN before a hint bit reaches the disk never marks a transaction committed that a crash can undo.\<close>

theorem TransactionIdGetCommitLSN_late_enough:
  assumes inv: "log_inv l" and prog: "\<forall>x \<in> insert xid (set subxids). xact_status l x = Some TRANSACTION_STATUS_IN_PROGRESS"
    and c: "TransactionIdAsyncCommitTree l xid subxids lsn = Some (m, Inr ())" and run: "log_run m n" and x: "x \<in> insert xid (set subxids)"
  shows "\<exists>k r. TransactionIdGetCommitLSN n x = Some (k, r)
    \<and> (\<forall>lsn'. r = Inr lsn' \<longrightarrow> lsn \<le> lsn' \<or> lsn \<le> wal_flushed (XactLog k))"
proof -
  have "log_inv m"
    using set_tree_known(1) [OF inv _ prog, of TRANSACTION_STATUS_COMMITTED lsn m "Inr ()"] c by (simp add: TransactionIdAsyncCommitTree_def status_defs)
  from log_run_known [OF run this, of x lsn] commit_known [OF inv prog c x] have "log_inv n" "lsn_known n x lsn" by simp_all
  moreover have "TransactionIdIsNormal x" using prog x in_progress_clog by blast
  ultimately show ?thesis by (rule TransactionIdGetCommitLSN_known) auto
qed

theorem TransactionIdGetCommitLSN_late_enough_witness:
  "\<exists>m k r. TransactionIdAsyncCommitTree (small_log zeroes) 5 [7] 1000 = Some (m, Inr ()) \<and> TransactionIdGetCommitLSN m 7 = Some (k, r)
    \<and> (\<forall>lsn'. r = Inr lsn' \<longrightarrow> 1000 \<le> lsn' \<or> 1000 \<le> wal_flushed (XactLog k))"
proof -
  have "TRANSACTION_STATUS_COMMITTED < 4" "TransactionIdIsValid 5" by (simp_all add: status_defs xid_defs)
  from set_tree_post [OF small_log(1) this(2,1) small_log_tree, of 1000] small_log(2) obtain m where
    "TransactionIdAsyncCommitTree (small_log zeroes) 5 [7] 1000 = Some (m, Inr ())" unfolding TransactionIdAsyncCommitTree_def by metis
  with TransactionIdGetCommitLSN_late_enough [OF small_log(1) small_log_tree this log_run.start, of 7] show ?thesis by auto
qed

end
