(* ===== verification/CommitTs.thy ===== *)
theory CommitTs
  imports SlruTable
begin

text \<open>
  The log of commit timestamps pg_commit_ts, \<open>src/backend/access/transam/commit_ts.c\<close>: the commit
  time and the replication origin of every transaction, ten bytes per transaction id, in pages of
  an SLRU pool.  The record has the pool, the cache of the last commit and the fields of the
  variable cache that CommitTsLock protects.
\<close>

section \<open>Layout\<close>

type_synonym TimestampTz = "64 word"
type_synonym RepOriginId = uint16

definition InvalidRepOriginId :: RepOriginId where
  "InvalidRepOriginId = 0"

text \<open>The least 64-bit integer.\<close>

definition DT_NOBEGIN :: TimestampTz where
  "DT_NOBEGIN = push_bit 63 1"

record CommitTimestampEntry =
  entry_time :: TimestampTz
  entry_nodeid :: RepOriginId

definition SizeOfCommitTimestampEntry :: nat where
  "SizeOfCommitTimestampEntry = 8 + 2"

definition COMMIT_TS_XACTS_PER_PAGE :: nat where
  "COMMIT_TS_XACTS_PER_PAGE = BLCKSZ div SizeOfCommitTimestampEntry"

definition TransactionIdToCTsPage :: "TransactionId \<Rightarrow> nat" where
  "TransactionIdToCTsPage xid = unat xid div COMMIT_TS_XACTS_PER_PAGE"

definition TransactionIdToCTsEntry :: "TransactionId \<Rightarrow> nat" where
  "TransactionIdToCTsEntry xid = unat xid mod COMMIT_TS_XACTS_PER_PAGE"

lemmas cts_layout = COMMIT_TS_XACTS_PER_PAGE_def SizeOfCommitTimestampEntry_def BLCKSZ_def

text \<open>The first ten bytes of the struct, as \<open>memcpy\<close> copies them.\<close>

definition get_ts_entry :: "slru_page \<Rightarrow> nat \<Rightarrow> CommitTimestampEntry" where
  "get_ts_entry page off = \<lparr>entry_time = get_bytes 8 page off, entry_nodeid = get_bytes 2 page (off + 8)\<rparr>"

definition put_ts_entry :: "slru_page \<Rightarrow> nat \<Rightarrow> CommitTimestampEntry \<Rightarrow> slru_page" where
  "put_ts_entry page off e = put_bytes 2 (put_bytes 8 page off (entry_time e)) (off + 8) (entry_nodeid e)"

datatype commit_ts_record =
  COMMIT_TS_ZEROPAGE nat
| COMMIT_TS_TRUNCATE nat TransactionId
| COMMIT_TS_SETTS TimestampTz RepOriginId TransactionId "TransactionId list"

record CommitTs =
  CommitTsCtl :: Slru
  xidLastCommit :: TransactionId
  dataLastCommit :: CommitTimestampEntry
  commitTsActive :: bool
  oldestCommitTsXid :: TransactionId
  newestCommitTsXid :: TransactionId
  commit_ts_wal :: "commit_ts_record list"

section \<open>WAL records\<close>

text \<open>XLogBeginInsert refuses during recovery.\<close>

definition recovery_insert :: pg_error where
  "recovery_insert = ERROR ''cannot make new WAL entries during recovery''"

definition insert_commit_ts :: "CommitTs \<Rightarrow> commit_ts_record \<Rightarrow> CommitTs \<times> unit result" where
  "insert_commit_ts c rec =
     (if InRecovery (CommitTsCtl c) then (c, Inl recovery_insert) else (c\<lparr>commit_ts_wal := commit_ts_wal c @ [rec]\<rparr>, Inr ()))"

definition CommitTsWriteZeroPageXlogRec :: "CommitTs \<Rightarrow> nat \<Rightarrow> CommitTs \<times> unit result" where
  "CommitTsWriteZeroPageXlogRec c pageno = insert_commit_ts c (COMMIT_TS_ZEROPAGE pageno)"

definition CommitTsWriteTruncateXlogRec :: "CommitTs \<Rightarrow> nat \<Rightarrow> TransactionId \<Rightarrow> CommitTs \<times> unit result" where
  "CommitTsWriteTruncateXlogRec c pageno oldestXid = insert_commit_ts c (COMMIT_TS_TRUNCATE pageno oldestXid)"

definition WriteSetTimestampXlogRec :: "CommitTs \<Rightarrow> TransactionId \<Rightarrow> TransactionId list \<Rightarrow> TimestampTz \<Rightarrow> RepOriginId \<Rightarrow> CommitTs \<times> unit result" where
  "WriteSetTimestampXlogRec c mainxid subxids timestamp nodeid = insert_commit_ts c (COMMIT_TS_SETTS timestamp nodeid mainxid subxids)"

section \<open>Recording timestamps\<close>

definition TransactionIdSetCommitTs :: "Slru \<Rightarrow> TransactionId \<Rightarrow> TimestampTz \<Rightarrow> RepOriginId \<Rightarrow> nat \<Rightarrow> Slru" where
  "TransactionIdSetCommitTs s xid ts nodeid slotno =
     (let entryno = TransactionIdToCTsEntry xid; entry = \<lparr>entry_time = ts, entry_nodeid = nodeid\<rparr>
      in set_buffer s slotno (put_ts_entry (page_buffer s slotno) (SizeOfCommitTimestampEntry * entryno) entry))"

definition SetXidCommitTsInPage :: "Slru \<Rightarrow> TransactionId \<Rightarrow> TransactionId list \<Rightarrow> TimestampTz \<Rightarrow> RepOriginId \<Rightarrow> nat
    \<Rightarrow> (Slru \<times> unit result) option" where
  "SetXidCommitTsInPage s xid subxids ts nodeid pageno =
     (case SimpleLruReadPage s pageno True of
        None \<Rightarrow> None
      | Some (s, Inl e) \<Rightarrow> Some (s, Inl e)
      | Some (s, Inr slotno) \<Rightarrow>
          let s = TransactionIdSetCommitTs s xid ts nodeid slotno;
              s = fold (\<lambda>subxid s. TransactionIdSetCommitTs s subxid ts nodeid slotno) subxids s
          in Some (set_dirty s slotno True, Inr ()))"

text \<open>The loop of TransactionTreeSetCommitTsData; \<open>subxids\<close> are those from position \<open>i\<close> on.  The test
  \<open>j + 1 \<ge> nsubxids\<close> of the code says that at most one of them is left.\<close>

function set_ts_by_pages :: "Slru \<Rightarrow> TransactionId \<Rightarrow> TransactionId list \<Rightarrow> TimestampTz \<Rightarrow> RepOriginId \<Rightarrow> (Slru \<times> unit result) option" where
  "set_ts_by_pages s headxid subxids ts nodeid =
     (let pageno = TransactionIdToCTsPage headxid;
          on_page = takeWhile (\<lambda>y. TransactionIdToCTsPage y = pageno) subxids;
          rest = dropWhile (\<lambda>y. TransactionIdToCTsPage y = pageno) subxids
      in case SetXidCommitTsInPage s headxid on_page ts nodeid pageno of
           None \<Rightarrow> None
         | Some (s, Inl e) \<Rightarrow> Some (s, Inl e)
         | Some (s, Inr _) \<Rightarrow>
             if length on_page + 1 \<ge> length subxids then Some (s, Inr ())
             else set_ts_by_pages s (hd rest) (tl rest) ts nodeid)"
  by pat_completeness auto
termination
proof (relation "measure (\<lambda>(s, h, xs, ts, nodeid). length xs)", goal_cases)
  case (2 s h xs)
  have "length (takeWhile (\<lambda>y. TransactionIdToCTsPage y = TransactionIdToCTsPage h) xs)
      + length (dropWhile (\<lambda>y. TransactionIdToCTsPage y = TransactionIdToCTsPage h) xs) = length xs"
    by (metis length_append takeWhile_dropWhile_id)
  with 2 show ?case by auto
qed simp

definition TransactionTreeSetCommitTsData :: "CommitTs \<Rightarrow> TransactionId \<Rightarrow> TransactionId list \<Rightarrow> TimestampTz \<Rightarrow> RepOriginId \<Rightarrow> bool
    \<Rightarrow> (CommitTs \<times> unit result) option" where
  "TransactionTreeSetCommitTsData c xid subxids timestamp nodeid write_xlog =
     (if \<not> commitTsActive c then Some (c, Inr ())
      else case (if write_xlog then WriteSetTimestampXlogRec c xid subxids timestamp nodeid else (c, Inr ())) of
             (c, Inl e) \<Rightarrow> Some (c, Inl e)
           | (c, Inr _) \<Rightarrow>
               let newestXact = (if subxids \<noteq> [] then last subxids else xid)
               in case set_ts_by_pages (CommitTsCtl c) xid subxids timestamp nodeid of
                    None \<Rightarrow> None
                  | Some (s, Inl e) \<Rightarrow> Some (c\<lparr>CommitTsCtl := s\<rparr>, Inl e)
                  | Some (s, Inr _) \<Rightarrow>
                      let c = c\<lparr>CommitTsCtl := s, xidLastCommit := xid, dataLastCommit := \<lparr>entry_time = timestamp, entry_nodeid = nodeid\<rparr>\<rparr>
                      in Some (if TransactionIdPrecedes (newestCommitTsXid c) newestXact then c\<lparr>newestCommitTsXid := newestXact\<rparr> else c, Inr ()))"

section \<open>Looking them up\<close>

definition no_timestamp :: pg_error where
  "no_timestamp = ERROR ''cannot retrieve commit timestamp for transaction''"

definition error_commit_ts_disabled :: pg_error where
  "error_commit_ts_disabled = ERROR ''could not get commit timestamp data''"

definition TransactionIdGetCommitTsData :: "CommitTs \<Rightarrow> TransactionId \<Rightarrow> (CommitTs \<times> (bool \<times> TimestampTz \<times> RepOriginId) result) option" where
  "TransactionIdGetCommitTsData c xid =
     (if \<not> TransactionIdIsValid xid then Some (c, Inl no_timestamp)
      else if \<not> TransactionIdIsNormal xid then Some (c, Inr (False, 0, 0))
      else if \<not> commitTsActive c then Some (c, Inl error_commit_ts_disabled)
      else if xidLastCommit c = xid then
        (let ts = entry_time (dataLastCommit c) in Some (c, Inr (ts \<noteq> 0, ts, entry_nodeid (dataLastCommit c))))
      else if \<not> TransactionIdIsValid (oldestCommitTsXid c) \<or> TransactionIdPrecedes xid (oldestCommitTsXid c)
              \<or> TransactionIdPrecedes (newestCommitTsXid c) xid
      then Some (c, Inr (False, 0, InvalidRepOriginId))
      else case SimpleLruReadPage_ReadOnly (CommitTsCtl c) (TransactionIdToCTsPage xid) of
             None \<Rightarrow> None
           | Some (s, Inl e) \<Rightarrow> Some (c\<lparr>CommitTsCtl := s\<rparr>, Inl e)
           | Some (s, Inr slotno) \<Rightarrow>
               let entry = get_ts_entry (page_buffer s slotno) (SizeOfCommitTimestampEntry * TransactionIdToCTsEntry xid)
               in Some (c\<lparr>CommitTsCtl := s\<rparr>, Inr (entry_time entry \<noteq> 0, entry_time entry, entry_nodeid entry)))"

definition GetLatestCommitTsData :: "CommitTs \<Rightarrow> (TransactionId \<times> TimestampTz \<times> RepOriginId) result" where
  "GetLatestCommitTsData c =
     (if \<not> commitTsActive c then Inl error_commit_ts_disabled
      else Inr (xidLastCommit c, entry_time (dataLastCommit c), entry_nodeid (dataLastCommit c)))"

text \<open>The SQL functions; None is the SQL null value.\<close>

definition pg_xact_commit_timestamp :: "CommitTs \<Rightarrow> TransactionId \<Rightarrow> (CommitTs \<times> TimestampTz option result) option" where
  "pg_xact_commit_timestamp c xid =
     (case TransactionIdGetCommitTsData c xid of
        None \<Rightarrow> None
      | Some (c, Inl e) \<Rightarrow> Some (c, Inl e)
      | Some (c, Inr (found, ts, nodeid)) \<Rightarrow> Some (c, Inr (if \<not> found then None else Some ts)))"

definition pg_last_committed_xact :: "CommitTs \<Rightarrow> (TransactionId \<times> TimestampTz) option result" where
  "pg_last_committed_xact c =
     (case GetLatestCommitTsData c of
        Inl e \<Rightarrow> Inl e
      | Inr (xid, ts, nodeid) \<Rightarrow> Inr (if \<not> TransactionIdIsNormal xid then None else Some (xid, ts)))"

section \<open>Life of the log\<close>

definition CommitTsPagePrecedes :: "nat \<Rightarrow> nat \<Rightarrow> bool" where
  "CommitTsPagePrecedes page1 page2 =
     (let xid1 = of_nat page1 * of_nat COMMIT_TS_XACTS_PER_PAGE + FirstNormalTransactionId;
          xid2 = of_nat page2 * of_nat COMMIT_TS_XACTS_PER_PAGE + FirstNormalTransactionId
      in TransactionIdPrecedes xid1 xid2)"

definition CommitTsShmemBuffers :: "nat \<Rightarrow> nat" where
  "CommitTsShmemBuffers NBuffers = min 16 (max 4 (NBuffers div 1024))"

definition no_last_commit :: "CommitTs \<Rightarrow> CommitTs" where
  "no_last_commit c =
     c\<lparr>commitTsActive := False, xidLastCommit := InvalidTransactionId,
       dataLastCommit := \<lparr>entry_time = DT_NOBEGIN, entry_nodeid = InvalidRepOriginId\<rparr>\<rparr>"

definition CommitTsShmemInit :: "CommitTs \<Rightarrow> nat \<Rightarrow> (nat \<times> slru_page list) list \<Rightarrow> CommitTs" where
  "CommitTsShmemInit c NBuffers dir =
     no_last_commit (c\<lparr>CommitTsCtl := SimpleLruInit (CommitTsShmemBuffers NBuffers) 0 CommitTsPagePrecedes dir\<rparr>)"

definition ZeroCommitTsPage :: "CommitTs \<Rightarrow> nat \<Rightarrow> bool \<Rightarrow> (CommitTs \<times> nat result) option" where
  "ZeroCommitTsPage c pageno writeXlog =
     (case SimpleLruZeroPage (CommitTsCtl c) pageno of
        None \<Rightarrow> None
      | Some (s, Inl e) \<Rightarrow> Some (c\<lparr>CommitTsCtl := s\<rparr>, Inl e)
      | Some (s, Inr slotno) \<Rightarrow>
          (case (if writeXlog then CommitTsWriteZeroPageXlogRec (c\<lparr>CommitTsCtl := s\<rparr>) pageno else (c\<lparr>CommitTsCtl := s\<rparr>, Inr ())) of
             (c, Inl e) \<Rightarrow> Some (c, Inl e)
           | (c, Inr _) \<Rightarrow> Some (c, Inr slotno)))"

text \<open>Zero a page and write it out, as ActivateCommitTs and the replay of COMMIT_TS_ZEROPAGE do.\<close>

definition zero_and_write_ts :: "CommitTs \<Rightarrow> nat \<Rightarrow> (CommitTs \<times> unit result) option" where
  "zero_and_write_ts c pageno =
     (case ZeroCommitTsPage c pageno False of
        None \<Rightarrow> None
      | Some (c, Inl e) \<Rightarrow> Some (c, Inl e)
      | Some (c, Inr slotno) \<Rightarrow>
          (case SimpleLruWritePage (CommitTsCtl c) slotno of (s, r) \<Rightarrow> Some (c\<lparr>CommitTsCtl := s\<rparr>, r)))"

definition ActivateCommitTs :: "CommitTs \<Rightarrow> FullTransactionId \<Rightarrow> (CommitTs \<times> unit result) option" where
  "ActivateCommitTs c nextFullXid =
     (if commitTsActive c then Some (c, Inr ())
      else
        let xid = XidFromFullTransactionId nextFullXid;
            pageno = TransactionIdToCTsPage xid;
            c = c\<lparr>CommitTsCtl := (CommitTsCtl c)\<lparr>latest_page_number := pageno\<rparr>\<rparr>;
            c = (if oldestCommitTsXid c = InvalidTransactionId then c\<lparr>oldestCommitTsXid := xid, newestCommitTsXid := xid\<rparr> else c)
        in case (if \<not> SimpleLruDoesPhysicalPageExist (CommitTsCtl c) pageno then zero_and_write_ts c pageno else Some (c, Inr ())) of
             None \<Rightarrow> None
           | Some (c, Inl e) \<Rightarrow> Some (c, Inl e)
           | Some (c, Inr _) \<Rightarrow> Some (c\<lparr>commitTsActive := True\<rparr>, Inr ()))"

definition DeactivateCommitTs :: "CommitTs \<Rightarrow> CommitTs" where
  "DeactivateCommitTs c =
     (let c = (no_last_commit c)\<lparr>oldestCommitTsXid := InvalidTransactionId, newestCommitTsXid := InvalidTransactionId\<rparr>;
          s = CommitTsCtl c
      in c\<lparr>CommitTsCtl := fst (SlruScanDirectory SlruScanDirCbDeleteAll s (map fst (slru_dir s)))\<rparr>)"

definition StartupCommitTs :: "CommitTs \<Rightarrow> FullTransactionId \<Rightarrow> (CommitTs \<times> unit result) option" where
  "StartupCommitTs c nextFullXid = ActivateCommitTs c nextFullXid"

definition CompleteCommitTsInitialization :: "bool \<Rightarrow> CommitTs \<Rightarrow> FullTransactionId \<Rightarrow> (CommitTs \<times> unit result) option" where
  "CompleteCommitTsInitialization track_commit_timestamp c nextFullXid =
     (if \<not> track_commit_timestamp then Some (DeactivateCommitTs c, Inr ()) else ActivateCommitTs c nextFullXid)"

definition CommitTsParameterChange :: "CommitTs \<Rightarrow> FullTransactionId \<Rightarrow> bool \<Rightarrow> (CommitTs \<times> unit result) option" where
  "CommitTsParameterChange c nextFullXid newvalue =
     (if newvalue then (if \<not> commitTsActive c then ActivateCommitTs c nextFullXid else Some (c, Inr ()))
      else if commitTsActive c then Some (DeactivateCommitTs c, Inr ()) else Some (c, Inr ()))"

definition flush_commit_ts :: "CommitTs \<Rightarrow> CommitTs \<times> unit result" where
  "flush_commit_ts c = (case SimpleLruFlush (CommitTsCtl c) of (s, r) \<Rightarrow> (c\<lparr>CommitTsCtl := s\<rparr>, r))"

definition ShutdownCommitTs :: "CommitTs \<Rightarrow> CommitTs \<times> unit result" where
  "ShutdownCommitTs c = flush_commit_ts c"

definition CheckPointCommitTs :: "CommitTs \<Rightarrow> CommitTs \<times> unit result" where
  "CheckPointCommitTs c = flush_commit_ts c"

definition ExtendCommitTs :: "CommitTs \<Rightarrow> TransactionId \<Rightarrow> (CommitTs \<times> unit result) option" where
  "ExtendCommitTs c newestXact =
     (if \<not> commitTsActive c then Some (c, Inr ())
      else if TransactionIdToCTsEntry newestXact \<noteq> 0 \<and> newestXact \<noteq> FirstNormalTransactionId then Some (c, Inr ())
      else case ZeroCommitTsPage c (TransactionIdToCTsPage newestXact) (\<not> InRecovery (CommitTsCtl c)) of
             None \<Rightarrow> None
           | Some (c, Inl e) \<Rightarrow> Some (c, Inl e)
           | Some (c, Inr slotno) \<Rightarrow> Some (c, Inr ()))"

definition truncate_commit_ts_slru :: "CommitTs \<Rightarrow> nat \<Rightarrow> (CommitTs \<times> unit result) option" where
  "truncate_commit_ts_slru c cutoffPage =
     (case SimpleLruTruncate (CommitTsCtl c) cutoffPage of
        None \<Rightarrow> None
      | Some (s, Inl e) \<Rightarrow> Some (c\<lparr>CommitTsCtl := s\<rparr>, Inl e)
      | Some (s, Inr _) \<Rightarrow> Some (c\<lparr>CommitTsCtl := s\<rparr>, Inr ()))"

definition TruncateCommitTs :: "CommitTs \<Rightarrow> TransactionId \<Rightarrow> (CommitTs \<times> unit result) option" where
  "TruncateCommitTs c oldestXact =
     (let cutoffPage = TransactionIdToCTsPage oldestXact; s = CommitTsCtl c
      in if \<not> snd (SlruScanDirectory (SlruScanDirCbReportPresence cutoffPage) s (map fst (slru_dir s))) then Some (c, Inr ())
         else case CommitTsWriteTruncateXlogRec c cutoffPage oldestXact of
                (c, Inl e) \<Rightarrow> Some (c, Inl e)
              | (c, Inr _) \<Rightarrow> truncate_commit_ts_slru c cutoffPage)"

definition SetCommitTsLimit :: "CommitTs \<Rightarrow> TransactionId \<Rightarrow> TransactionId \<Rightarrow> CommitTs" where
  "SetCommitTsLimit c oldestXact newestXact =
     (if oldestCommitTsXid c \<noteq> InvalidTransactionId then
        let c = (if TransactionIdPrecedes (oldestCommitTsXid c) oldestXact then c\<lparr>oldestCommitTsXid := oldestXact\<rparr> else c)
        in if TransactionIdPrecedes newestXact (newestCommitTsXid c) then c\<lparr>newestCommitTsXid := newestXact\<rparr> else c
      else c\<lparr>oldestCommitTsXid := oldestXact, newestCommitTsXid := newestXact\<rparr>)"

definition AdvanceOldestCommitTsXid :: "CommitTs \<Rightarrow> TransactionId \<Rightarrow> CommitTs" where
  "AdvanceOldestCommitTsXid c oldestXact =
     (if oldestCommitTsXid c \<noteq> InvalidTransactionId \<and> TransactionIdPrecedes (oldestCommitTsXid c) oldestXact
      then c\<lparr>oldestCommitTsXid := oldestXact\<rparr> else c)"

definition commit_ts_redo :: "CommitTs \<Rightarrow> commit_ts_record \<Rightarrow> (CommitTs \<times> unit result) option" where
  "commit_ts_redo c rec =
     (case rec of
        COMMIT_TS_ZEROPAGE pageno \<Rightarrow> zero_and_write_ts c pageno
      | COMMIT_TS_TRUNCATE pageno oldestXid \<Rightarrow>
          let c = AdvanceOldestCommitTsXid c oldestXid;
              c = c\<lparr>CommitTsCtl := (CommitTsCtl c)\<lparr>latest_page_number := pageno\<rparr>\<rparr>
          in truncate_commit_ts_slru c pageno
      | COMMIT_TS_SETTS timestamp nodeid mainxid subxids \<Rightarrow>
          TransactionTreeSetCommitTsData c mainxid subxids timestamp nodeid True)"

section \<open>Entries\<close>

declare set_ts_by_pages.simps [simp del]

definition ts_on :: "slru_page \<Rightarrow> TransactionId \<Rightarrow> CommitTimestampEntry" where
  "ts_on page xid = get_ts_entry page (SizeOfCommitTimestampEntry * TransactionIdToCTsEntry xid)"

definition set_ts_on :: "slru_page \<Rightarrow> TransactionId \<Rightarrow> CommitTimestampEntry \<Rightarrow> slru_page" where
  "set_ts_on page xid e = put_ts_entry page (SizeOfCommitTimestampEntry * TransactionIdToCTsEntry xid) e"

definition no_entry :: CommitTimestampEntry where
  "no_entry = \<lparr>entry_time = 0, entry_nodeid = 0\<rparr>"

lemma get_put_ts_entry: "get_ts_entry (put_ts_entry page off e) off = e"
  by (simp add: get_ts_entry_def put_ts_entry_def get_put_bytes get_put_bytes_other)

lemma get_put_ts_entry_other: "off' + 10 \<le> off \<or> off + 10 \<le> off' \<Longrightarrow> get_ts_entry (put_ts_entry page off e) off' = get_ts_entry page off'"
  by (auto simp: get_ts_entry_def put_ts_entry_def get_put_bytes_other)

lemma cts_position:
  assumes "TransactionIdToCTsPage x = TransactionIdToCTsPage y" and "TransactionIdToCTsEntry x = TransactionIdToCTsEntry y"
  shows "x = y"
proof -
  from assms have "unat x = unat y"
    unfolding TransactionIdToCTsPage_def TransactionIdToCTsEntry_def by (metis div_mult_mod_eq)
  then show ?thesis by (simp add: word_unat_eq_iff)
qed

interpretation ts_table: slru_table TransactionIdToCTsPage ts_on set_ts_on "\<lambda>_. True" no_entry
proof
  fix x y v b
  assume p: "TransactionIdToCTsPage x = TransactionIdToCTsPage y"
  show "ts_on (set_ts_on b x v) y = (if x = y then v else ts_on b y)"
  proof (cases "x = y")
    case False
    then have "TransactionIdToCTsEntry x < TransactionIdToCTsEntry y \<or> TransactionIdToCTsEntry y < TransactionIdToCTsEntry x"
      using cts_position [OF p] by linarith
    then have "10 * TransactionIdToCTsEntry y + 10 \<le> 10 * TransactionIdToCTsEntry x \<or> 10 * TransactionIdToCTsEntry x + 10 \<le> 10 * TransactionIdToCTsEntry y"
      by linarith
    with False show ?thesis by (simp add: ts_on_def set_ts_on_def get_put_ts_entry_other SizeOfCommitTimestampEntry_def)
  qed (simp add: ts_on_def set_ts_on_def get_put_ts_entry)
next
  show "ts_on zeroes x = no_entry" for x
    by (simp add: ts_on_def get_ts_entry_def get_zeroes_bytes no_entry_def)
qed

text \<open>The entry of a transaction as a reader finds it.\<close>

definition commit_ts :: "Slru \<Rightarrow> TransactionId \<Rightarrow> CommitTimestampEntry option" where
  "commit_ts = entry_of TransactionIdToCTsPage ts_on"

section \<open>What recording does\<close>

lemma fold_SetCommitTs:
  "fold (\<lambda>x s. TransactionIdSetCommitTs s x ts nodeid slotno) xs s =
    set_buffer s slotno (fold (\<lambda>x b. set_ts_on b x \<lparr>entry_time = ts, entry_nodeid = nodeid\<rparr>) xs (page_buffer s slotno))"
  by (induction xs arbitrary: s) (simp_all add: TransactionIdSetCommitTs_def set_ts_on_def set_buffer_def)

text \<open>A run of the pool in which the transactions \<open>xs\<close> get the entry \<open>e\<close>.\<close>

definition ts_step :: "Slru \<Rightarrow> TransactionId list \<Rightarrow> CommitTimestampEntry \<Rightarrow> Slru \<Rightarrow> bool" where
  "ts_step s xs e s' \<longleftrightarrow> slru_inv s' \<and> (io_fine s \<longrightarrow> io_fine s')
     \<and> (\<forall>y v. commit_ts s y = Some v \<longrightarrow> commit_ts s' y = Some (if y \<in> set xs then e else v))"

lemma ts_step_append: "ts_step s xs e t \<Longrightarrow> ts_step t ys e u \<Longrightarrow> ts_step s (xs @ ys) e u"
  by (auto simp: ts_step_def split: if_splits)

lemma ts_step_known: "ts_step s xs e t \<Longrightarrow> commit_ts s x \<noteq> None \<Longrightarrow> commit_ts t x \<noteq> None"
  by (auto simp: ts_step_def)

lemma SetXidCommitTsInPage_post:
  assumes inv: "slru_inv s" and fine: "io_fine s" and known: "commit_ts s xid \<noteq> None"
    and page: "\<forall>x \<in> set (xid # xs). TransactionIdToCTsPage x = p"
  obtains t where "SetXidCommitTsInPage s xid xs ts nodeid p = Some (t, Inr ())"
    "ts_step s (xid # xs) \<lparr>entry_time = ts, entry_nodeid = nodeid\<rparr> t"
  using inv
proof (cases rule: SimpleLruReadPage_cases [of s p True])
  case (failed t e)
  then have "stored s p = None" using fine by simp
  with known page show ?thesis by (simp add: commit_ts_def entry_of_def)
next
  case (found t i)
  let ?e = "\<lparr>entry_time = ts, entry_nodeid = nodeid\<rparr>"
  let ?u = "write_slot t i (fold (\<lambda>x b. set_ts_on b x ?e) (xid # xs) (page_buffer t i))"
  have tinv: "slru_inv t" using found(2) by (simp add: keeps_def)
  have eq: "SetXidCommitTsInPage s xid xs ts nodeid p = Some (?u, Inr ())"
    using found(1) fold_SetCommitTs [of ts nodeid i "xid # xs" t] by (simp add: SetXidCommitTsInPage_def write_slot_def)
  have "\<forall>x \<in> set (xid # xs). TransactionIdToCTsPage x = page_number t i" using page found(4) by simp
  from ts_table.put_entries [OF tinv found(3,5) this, of ?e]
  have "commit_ts ?u y = (if y \<in> set (xid # xs) then Some ?e else commit_ts t y)" for y
    unfolding commit_ts_def by simp
  moreover have "commit_ts t y = Some v" if "commit_ts s y = Some v" for y v
    using ts_table.keeps_entry [OF found(2)] that by (simp add: commit_ts_def)
  moreover have "slru_inv ?u" "io_fine ?u" using write_slot_slru [OF tinv found(3,5)] io_fine_keeps [OF found(2) fine] by auto
  ultimately have "ts_step s (xid # xs) ?e ?u" unfolding ts_step_def by simp
  with eq that show ?thesis by blast
qed

text \<open>The members of the tree whose timestamp is recorded: all but the last one if that lies alone on
  a page of its own.\<close>

definition stamped :: "TransactionId \<Rightarrow> TransactionId list \<Rightarrow> TransactionId list" where
  "stamped xid subxids =
     (if subxids \<noteq> [] \<and> TransactionIdToCTsPage (last subxids) \<noteq> TransactionIdToCTsPage (last (xid # butlast subxids))
      then xid # butlast subxids else xid # subxids)"

lemma stamped_all_on_page:
  assumes "\<forall>x \<in> set xs. TransactionIdToCTsPage x = TransactionIdToCTsPage h"
  shows "stamped h xs = h # xs"
proof -
  have "TransactionIdToCTsPage (last xs) = TransactionIdToCTsPage (last (h # butlast xs))" if "xs \<noteq> []"
    using assms that last_in_set [of xs] last_in_set [of "butlast xs"] in_set_butlastD [of "last (butlast xs)" xs]
    by (cases "butlast xs = []") auto
  then show ?thesis by (auto simp: stamped_def)
qed

lemma stamped_one_left:
  assumes "\<forall>x \<in> set xs. TransactionIdToCTsPage x = TransactionIdToCTsPage h" and "TransactionIdToCTsPage y \<noteq> TransactionIdToCTsPage h"
  shows "stamped h (xs @ [y]) = h # xs"
  using assms by (cases "xs = []") (auto simp: stamped_def)

lemma stamped_more_left:
  assumes "ys \<noteq> []"
  shows "stamped h (xs @ y # ys) = h # xs @ stamped y ys"
  using assms by (auto simp: stamped_def butlast_append)

lemma set_ts_by_pages_step:
  assumes "\<forall>x \<in> set as. TransactionIdToCTsPage x = TransactionIdToCTsPage h"
    and "bs = [] \<or> TransactionIdToCTsPage (hd bs) \<noteq> TransactionIdToCTsPage h"
    and "SetXidCommitTsInPage s h as ts nodeid (TransactionIdToCTsPage h) = Some (t, Inr ())"
  shows "set_ts_by_pages s h (as @ bs) ts nodeid =
    (if length bs \<le> 1 then Some (t, Inr ()) else set_ts_by_pages t (hd bs) (tl bs) ts nodeid)"
proof -
  have "takeWhile (\<lambda>y. TransactionIdToCTsPage y = TransactionIdToCTsPage h) (as @ bs) = as"
    "dropWhile (\<lambda>y. TransactionIdToCTsPage y = TransactionIdToCTsPage h) (as @ bs) = bs"
    using assms(1,2) by (cases bs; simp)+
  with assms(3) show ?thesis by (subst set_ts_by_pages.simps) simp
qed

lemma split_page:
  obtains as bs where "xs = as @ bs" "\<forall>x \<in> set as. TransactionIdToCTsPage x = p" "bs = [] \<or> TransactionIdToCTsPage (hd bs) \<noteq> p"
  by (rule that [of "takeWhile (\<lambda>y. TransactionIdToCTsPage y = p) xs" "dropWhile (\<lambda>y. TransactionIdToCTsPage y = p) xs"])
    (use hd_dropWhile [of "\<lambda>y. TransactionIdToCTsPage y = p" xs] in \<open>auto dest: set_takeWhileD\<close>)

lemma set_ts_by_pages_post:
  assumes "slru_inv s" and "io_fine s" and "\<forall>x \<in> set (h # xs). commit_ts s x \<noteq> None"
  shows "\<exists>t. set_ts_by_pages s h xs ts nodeid = Some (t, Inr ()) \<and> ts_step s (stamped h xs) \<lparr>entry_time = ts, entry_nodeid = nodeid\<rparr> t"
  using assms
proof (induction "length xs" arbitrary: s h xs rule: less_induct)
  case less
  let ?e = "\<lparr>entry_time = ts, entry_nodeid = nodeid\<rparr>"
  obtain as bs where xs: "xs = as @ bs" and on: "\<forall>x \<in> set as. TransactionIdToCTsPage x = TransactionIdToCTsPage h"
    and off: "bs = [] \<or> TransactionIdToCTsPage (hd bs) \<noteq> TransactionIdToCTsPage h"
    by (rule split_page)
  obtain t where t: "SetXidCommitTsInPage s h as ts nodeid (TransactionIdToCTsPage h) = Some (t, Inr ())" "ts_step s (h # as) ?e t"
    by (rule SetXidCommitTsInPage_post [OF less.prems(1,2), of h as]) (use less.prems(3) on in auto)
  note step = set_ts_by_pages_step [OF on off t(1)]
  consider (none) "bs = []" | (one) y where "bs = [y]" | (more) y ys where "bs = y # ys" "ys \<noteq> []"
    by (cases bs) auto
  then show ?case
  proof cases
    case none
    with step t(2) stamped_all_on_page [OF on] xs show ?thesis by simp
  next
    case one
    with step t(2) stamped_one_left [OF on, of y] off xs show ?thesis by simp
  next
    case more
    have "commit_ts s x \<noteq> None" if "x \<in> set (y # ys)" for x using less.prems(3) that more xs by auto
    then have "\<forall>x \<in> set (y # ys). commit_ts t x \<noteq> None" using ts_step_known [OF t(2)] by blast
    moreover have "slru_inv t" "io_fine t" using t(2) less.prems(2) by (simp_all add: ts_step_def)
    ultimately obtain u where u: "set_ts_by_pages t y ys ts nodeid = Some (u, Inr ())" "ts_step t (stamped y ys) ?e u"
      using less.hyps [of ys t y] xs more by auto
    have "stamped h xs = (h # as) @ stamped y ys" using stamped_more_left [OF more(2), of h as y] more xs by simp
    with step u more ts_step_append [OF t(2) u(2)] xs show ?thesis by (cases ys) auto
  qed
qed

text \<open>Lookups between the limits find what is recorded.\<close>

definition in_range :: "CommitTs \<Rightarrow> TransactionId \<Rightarrow> bool" where
  "in_range c y \<longleftrightarrow> TransactionIdIsValid (oldestCommitTsXid c) \<and> \<not> TransactionIdPrecedes y (oldestCommitTsXid c)
     \<and> \<not> TransactionIdPrecedes (newestCommitTsXid c) y"

lemma TransactionIdGetCommitTsData_found:
  assumes inv: "slru_inv (CommitTsCtl c)" and fine: "io_fine (CommitTsCtl c)" and act: "commitTsActive c" and y: "TransactionIdIsNormal y" "in_range c y"
    and e: "commit_ts (CommitTsCtl c) y = Some e" and cache: "xidLastCommit c = y \<Longrightarrow> dataLastCommit c = e"
  shows "\<exists>c'. TransactionIdGetCommitTsData c y = Some (c', Inr (entry_time e \<noteq> 0, entry_time e, entry_nodeid e))"
proof (cases "xidLastCommit c = y")
  case True
  moreover have "TransactionIdIsValid y" using y(1) by (auto simp: xid_defs)
  ultimately show ?thesis using y act cache by (simp add: TransactionIdGetCommitTsData_def Let_def)
next
  case False
  have valid: "TransactionIdIsValid y" using y(1) by (auto simp: xid_defs)
  note rd = in_range_def [of c y] TransactionIdGetCommitTsData_def [of c y]
  show ?thesis using inv
  proof (cases rule: SimpleLruReadPage_ReadOnly_cases [of "CommitTsCtl c" "TransactionIdToCTsPage y"])
    case (failed t e')
    with fine e show ?thesis by (simp add: commit_ts_def entry_of_def)
  next
    case (found t i)
    have "commit_ts t y = Some (ts_on (page_buffer t i) y)" unfolding commit_ts_def by (rule ts_table.entry_stored [OF found(6)])
    moreover have "commit_ts t y = Some e" using ts_table.keeps_entry [OF found(2)] e by (simp add: commit_ts_def)
    ultimately have "ts_on (page_buffer t i) y = e" by simp
    with found(1) False valid y act show ?thesis by (simp add: rd ts_on_def)
  qed
qed

lemma ExtendCommitTs_post:
  assumes "slru_inv (CommitTsCtl c)"
  shows "\<exists>c' r. ExtendCommitTs c x = Some (c', r) \<and> slru_inv (CommitTsCtl c')
    \<and> (io_fine (CommitTsCtl c) \<longrightarrow> io_fine (CommitTsCtl c') \<and> r = Inr ()) \<and> commitTsActive c' = commitTsActive c
    \<and> (r = Inr () \<longrightarrow> commitTsActive c \<longrightarrow> TransactionIdToCTsEntry x = 0 \<or> x = FirstNormalTransactionId \<longrightarrow>
         commit_ts (CommitTsCtl c') x = Some no_entry)"
proof (cases "commitTsActive c \<and> (TransactionIdToCTsEntry x = 0 \<or> x = FirstNormalTransactionId)")
  case False
  with assms show ?thesis by (auto simp: ExtendCommitTs_def)
next
  case True
  show ?thesis using assms
  proof (cases rule: SimpleLruZeroPage_cases [of "CommitTsCtl c" "TransactionIdToCTsPage x"])
    case (failed t e)
    then have "slru_inv t" by (simp add: keeps_def)
    with failed True show ?thesis by (auto simp: ExtendCommitTs_def ZeroCommitTsPage_def)
  next
    case (zeroed t i)
    then have "\<not> InRecovery t" by (simp add: slru_inv_def)
    with zeroed True ts_table.zero_entry(1) [OF zeroed(6) refl] show ?thesis
      by (auto simp: ExtendCommitTs_def ZeroCommitTsPage_def CommitTsWriteZeroPageXlogRec_def insert_commit_ts_def commit_ts_def)
  qed
qed

section \<open>Properties\<close>

text \<open>C19. TransactionTreeSetCommitTsData records the timestamp and the origin for the transaction and
  for its subtransactions, except for the last subtransaction if that is the only one on a page
  after the page of its predecessor: the test that ends the loop over the pages leaves it out,
  and a lookup within the limits, which include it, then reports no timestamp.  No other entry
  changes, the limits move forward to the last subtransaction, and lookups return what is recorded.\<close>

theorem TransactionTreeSetCommitTsData_records:
  assumes inv: "slru_inv (CommitTsCtl c)" and fine: "io_fine (CommitTsCtl c)" and act: "commitTsActive c"
    and known: "\<forall>x \<in> set (xid # subxids). commit_ts (CommitTsCtl c) x \<noteq> None"
  shows "\<exists>c'. TransactionTreeSetCommitTsData c xid subxids ts nodeid write_xlog = Some (c', Inr ()) \<and> slru_inv (CommitTsCtl c')
    \<and> (\<forall>y e. commit_ts (CommitTsCtl c) y = Some e \<longrightarrow>
         commit_ts (CommitTsCtl c') y = Some (if y \<in> set (stamped xid subxids) then \<lparr>entry_time = ts, entry_nodeid = nodeid\<rparr> else e))
    \<and> oldestCommitTsXid c' = oldestCommitTsXid c
    \<and> newestCommitTsXid c' = (let n = last (xid # subxids) in if TransactionIdPrecedes (newestCommitTsXid c) n then n else newestCommitTsXid c)
    \<and> (\<forall>y e. TransactionIdIsNormal y \<longrightarrow> in_range c' y \<longrightarrow> commit_ts (CommitTsCtl c') y = Some e \<longrightarrow>
         (\<exists>c''. TransactionIdGetCommitTsData c' y = Some (c'', Inr (entry_time e \<noteq> 0, entry_time e, entry_nodeid e))))"
proof -
  let ?e = "\<lparr>entry_time = ts, entry_nodeid = nodeid\<rparr>"
  from set_ts_by_pages_post [OF inv fine known] obtain s where
    s: "set_ts_by_pages (CommitTsCtl c) xid subxids ts nodeid = Some (s, Inr ())" "ts_step (CommitTsCtl c) (stamped xid subxids) ?e s"
    by blast
  define d where "d = (if write_xlog then fst (WriteSetTimestampXlogRec c xid subxids ts nodeid) else c)"
  define n where "n = (if subxids \<noteq> [] then last subxids else xid)"
  define c1 where "c1 = d\<lparr>CommitTsCtl := s, xidLastCommit := xid, dataLastCommit := ?e\<rparr>"
  define c' where "c' = (if TransactionIdPrecedes (newestCommitTsXid c1) n then c1\<lparr>newestCommitTsXid := n\<rparr> else c1)"
  have d: "(if write_xlog then WriteSetTimestampXlogRec c xid subxids ts nodeid else (c, Inr ())) = (d, Inr ())"
    "CommitTsCtl d = CommitTsCtl c" "commitTsActive d" "oldestCommitTsXid d = oldestCommitTsXid c" "newestCommitTsXid d = newestCommitTsXid c"
    using inv act by (simp_all add: d_def WriteSetTimestampXlogRec_def insert_commit_ts_def slru_inv_def)
  have run: "TransactionTreeSetCommitTsData c xid subxids ts nodeid write_xlog = Some (c', Inr ())"
    by (simp add: TransactionTreeSetCommitTsData_def act d s Let_def c'_def c1_def n_def)
  have n: "n = last (xid # subxids)" by (simp add: n_def)
  have c': "CommitTsCtl c' = s" "xidLastCommit c' = xid" "dataLastCommit c' = ?e" "commitTsActive c'" "oldestCommitTsXid c' = oldestCommitTsXid c"
    "newestCommitTsXid c' = (if TransactionIdPrecedes (newestCommitTsXid c) n then n else newestCommitTsXid c)"
    by (simp_all add: c'_def c1_def d)
  have ts: "commit_ts (CommitTsCtl c) y = Some e \<Longrightarrow> commit_ts s y = Some (if y \<in> set (stamped xid subxids) then ?e else e)" for y e
    using s(2) by (simp add: ts_step_def)
  have "xid \<in> set (stamped xid subxids)" by (simp add: stamped_def)
  then have cached: "commit_ts s xid = Some ?e" using ts [of xid] known by auto
  have sf: "slru_inv s" "io_fine s" using s(2) fine by (simp_all add: ts_step_def)
  have get: "\<exists>c''. TransactionIdGetCommitTsData c' y = Some (c'', Inr (entry_time e \<noteq> 0, entry_time e, entry_nodeid e))"
    if "TransactionIdIsNormal y" "in_range c' y" "commit_ts s y = Some e" for y e
    by (rule TransactionIdGetCommitTsData_found) (use that sf c' cached in auto)
  show ?thesis
    by (intro exI [of _ c'] conjI run) (use sf c' ts get n in \<open>auto simp: Let_def\<close>)
qed

text \<open>Transaction 818 is the last one on its page: its subtransaction 819 gets no timestamp.\<close>

definition small_cts :: CommitTs where
  "small_cts = \<lparr>CommitTsCtl = SimpleLruInit 4 0 CommitTsPagePrecedes [(0, [zeroes, zeroes])], xidLastCommit = InvalidTransactionId,
     dataLastCommit = no_entry, commitTsActive = True, oldestCommitTsXid = 3, newestCommitTsXid = 3, commit_ts_wal = []\<rparr>"

lemma small_cts: "slru_inv (CommitTsCtl small_cts)" "io_fine (CommitTsCtl small_cts)" "commitTsActive small_cts"
  "TransactionIdToCTsPage x < 2 \<Longrightarrow> commit_ts (CommitTsCtl small_cts) x = Some no_entry"
proof -
  show "slru_inv (CommitTsCtl small_cts)"
    by (simp add: slru_inv_def small_cts_def SimpleLruInit_def distinct_pages_def slot_ok_def holds_page_def)
  show "io_fine (CommitTsCtl small_cts)" "commitTsActive small_cts" by (simp_all add: io_fine_def small_cts_def SimpleLruInit_def)
  have "file_page (CommitTsCtl small_cts) p = Some zeroes" if "p < 2" for p
    using that by (cases p) (auto simp: file_page_def seg_file_def small_cts_def SimpleLruInit_def SLRU_PAGES_PER_SEGMENT_def)
  then have "stored (CommitTsCtl small_cts) p = Some zeroes" if "p < 2" for p
    using that by (subst stored_not_held) (simp_all add: small_cts_def SimpleLruInit_def holds_page_def)
  then show "TransactionIdToCTsPage x < 2 \<Longrightarrow> commit_ts (CommitTsCtl small_cts) x = Some no_entry"
    by (simp add: commit_ts_def entry_of_def ts_table.get_zeroes)
qed

theorem TransactionTreeSetCommitTsData_records_witness:
  "\<exists>c'. TransactionTreeSetCommitTsData small_cts 818 [819] 7 1 False = Some (c', Inr ())
    \<and> (\<exists>c''. TransactionIdGetCommitTsData c' 818 = Some (c'', Inr (True, 7, 1)))
    \<and> (\<exists>c''. TransactionIdGetCommitTsData c' 819 = Some (c'', Inr (False, 0, 0)))"
proof -
  have pg: "TransactionIdToCTsPage 818 = 0" "TransactionIdToCTsPage 819 = 1" by (simp_all add: TransactionIdToCTsPage_def cts_layout)
  then have ts: "commit_ts (CommitTsCtl small_cts) 818 = Some no_entry" "commit_ts (CommitTsCtl small_cts) 819 = Some no_entry"
    by (simp_all add: small_cts(4))
  then have "\<forall>x \<in> set [818, 819]. commit_ts (CommitTsCtl small_cts) x \<noteq> None" by simp
  from TransactionTreeSetCommitTsData_records [OF small_cts(1-3) this, of 7 1 False] obtain c' where
    run: "TransactionTreeSetCommitTsData small_cts 818 [819] 7 1 False = Some (c', Inr ())"
    and old: "commit_ts (CommitTsCtl small_cts) y = Some e \<Longrightarrow>
         commit_ts (CommitTsCtl c') y = Some (if y \<in> set (stamped 818 [819]) then \<lparr>entry_time = 7, entry_nodeid = 1\<rparr> else e)"
    and lim: "oldestCommitTsXid c' = oldestCommitTsXid small_cts"
      "newestCommitTsXid c' = (let n = last [818, 819] in if TransactionIdPrecedes (newestCommitTsXid small_cts) n then n else newestCommitTsXid small_cts)"
    and get: "TransactionIdIsNormal y \<Longrightarrow> in_range c' y \<Longrightarrow> commit_ts (CommitTsCtl c') y = Some e \<Longrightarrow>
         \<exists>c''. TransactionIdGetCommitTsData c' y = Some (c'', Inr (entry_time e \<noteq> 0, entry_time e, entry_nodeid e))" for y e
    by blast
  have "stamped 818 [819] = [818]" by (simp add: stamped_def pg)
  then have "commit_ts (CommitTsCtl c') 818 = Some \<lparr>entry_time = 7, entry_nodeid = 1\<rparr>" "commit_ts (CommitTsCtl c') 819 = Some no_entry"
    using old ts by simp_all
  moreover have "in_range c' 818" "in_range c' 819" "TransactionIdIsNormal 818" "TransactionIdIsNormal 819"
    using lim by (simp_all add: in_range_def small_cts_def TransactionIdPrecedes_def xid_defs)
  ultimately show ?thesis using run get [of 818] get [of 819] by (fastforce simp: no_entry_def)
qed

end
