(* ===== verification/Varsup.thy ===== *)
theory Varsup
  imports ClogStore CommitTs Subtrans
begin

text \<open>
  Assigning transaction ids and object ids, \<open>src/backend/access/transam/varsup.c\<close>: the counters of
  the variable cache in shared memory and the limits that stop assignment before transaction ids
  wrap around.  GetNewTransactionId extends the commit log, the timestamp log and the
  subtransaction log of the theories Clog, CommitTs and Subtrans.  Those fields of the variable
  cache that other locks protect are in the records of these logs.  XidGenLock is free when it is
  requested; where GetNewTransactionId gives it up, an arbitrary function stands for what other
  backends do meanwhile.
\<close>

section \<open>State\<close>

record VariableCacheData =
  nextOid :: Oid
  oidCount :: uint32
  nextFullXid :: FullTransactionId
  oldestXid :: TransactionId
  xidVacLimit :: TransactionId
  xidWarnLimit :: TransactionId
  xidStopLimit :: TransactionId
  xidWrapLimit :: TransactionId
  oldestXidDB :: Oid

text \<open>The entry of a backend in the array of processes: PGXACT with the cache of subtransactions of PGPROC.\<close>

record PGXACT =
  pgxact_xid :: TransactionId
  pgxact_xmin :: TransactionId
  vacuumFlags :: uint8
  overflowed :: bool
  nxids :: nat
  subxids_xids :: "nat \<Rightarrow> TransactionId"

definition PGPROC_MAX_CACHED_SUBXIDS :: nat where
  "PGPROC_MAX_CACHED_SUBXIDS = 64"

text \<open>Warnings name the database, or its Oid if the name is not known, and the ids left.\<close>

datatype warning = must_be_vacuumed "string option" Oid uint32

record Varsup =
  ShmemVariableCache :: VariableCacheData
  VClog :: Clog
  VCommitTs :: CommitTs
  VSubtrans :: Slru
  MyPgXact :: PGXACT
  autovac_signals :: nat
  warnings :: "warning list"
  nextoid_wal :: "Oid list"

text \<open>What the backend runs as, the setting autovacuum\_freeze\_max\_age and the names in pg\_database.\<close>

record BackendMode =
  IsInParallelMode :: bool
  IsBootstrapProcessingMode :: bool
  RecoveryInProgress :: bool
  IsUnderPostmaster :: bool
  IsPostmasterEnvironment :: bool
  IsTransactionState :: bool
  autovacuum_freeze_max_age :: uint32
  get_database_name :: "Oid \<Rightarrow> string option"

section \<open>Assigning a transaction id\<close>



definition wraparound_error :: "string option \<Rightarrow> pg_error" where
  "wraparound_error datname =
     (case datname of
        Some name \<Rightarrow> ERROR (''database is not accepting commands to avoid wraparound data loss in database '' @ name)
      | None \<Rightarrow> ERROR ''database is not accepting commands to avoid wraparound data loss in database with OID'')"

text \<open>The checks past xidVacLimit, made without XidGenLock.\<close>

definition check_limits :: "BackendMode \<Rightarrow> Varsup \<Rightarrow> TransactionId \<Rightarrow> Varsup \<times> unit result" where
  "check_limits mode v xid =
     (let vc = ShmemVariableCache v;
          v = (if IsUnderPostmaster mode \<and> xid mod 65536 = 0 then v\<lparr>autovac_signals := autovac_signals v + 1\<rparr> else v);
          name = get_database_name mode (oldestXidDB vc)
      in if IsUnderPostmaster mode \<and> TransactionIdFollowsOrEquals xid (xidStopLimit vc) then (v, Inl (wraparound_error name))
         else if TransactionIdFollowsOrEquals xid (xidWarnLimit vc)
         then (v\<lparr>warnings := warnings v @ [must_be_vacuumed name (oldestXidDB vc) (xidWrapLimit vc - xid)]\<rparr>, Inr ())
         else (v, Inr ()))"

text \<open>Make room for the new id in the logs.\<close>

definition extend_logs :: "Varsup \<Rightarrow> TransactionId \<Rightarrow> (Varsup \<times> unit result) option" where
  "extend_logs v xid =
     (case ExtendCLOG (VClog v) xid of
        None \<Rightarrow> None
      | Some (c, Inl e) \<Rightarrow> Some (v\<lparr>VClog := c\<rparr>, Inl e)
      | Some (c, Inr _) \<Rightarrow>
          (let v = v\<lparr>VClog := c\<rparr>
           in case ExtendCommitTs (VCommitTs v) xid of
                None \<Rightarrow> None
              | Some (c, Inl e) \<Rightarrow> Some (v\<lparr>VCommitTs := c\<rparr>, Inl e)
              | Some (c, Inr _) \<Rightarrow>
                  (let v = v\<lparr>VCommitTs := c\<rparr>
                   in case ExtendSUBTRANS (VSubtrans v) xid of
                        None \<Rightarrow> None
                      | Some (s, r) \<Rightarrow> Some (v\<lparr>VSubtrans := s\<rparr>, r))))"

definition advertise_xid :: "PGXACT \<Rightarrow> TransactionId \<Rightarrow> bool \<Rightarrow> PGXACT" where
  "advertise_xid p xid isSubXact =
     (if \<not> isSubXact then p\<lparr>pgxact_xid := xid\<rparr>
      else if nxids p < PGPROC_MAX_CACHED_SUBXIDS
      then p\<lparr>subxids_xids := (subxids_xids p)(nxids p := xid), nxids := nxids p + 1\<rparr>
      else p\<lparr>overflowed := True\<rparr>)"

text \<open>What is done with XidGenLock held: take the next id, extend the logs, advance the counter.\<close>

definition assign_xid :: "Varsup \<Rightarrow> bool \<Rightarrow> (Varsup \<times> FullTransactionId result) option" where
  "assign_xid v isSubXact =
     (let full_xid = nextFullXid (ShmemVariableCache v); xid = XidFromFullTransactionId full_xid
      in case extend_logs v xid of
           None \<Rightarrow> None
         | Some (v, Inl e) \<Rightarrow> Some (v, Inl e)
         | Some (v, Inr _) \<Rightarrow>
             Some (v\<lparr>ShmemVariableCache := (ShmemVariableCache v)\<lparr>nextFullXid := FullTransactionIdAdvance full_xid\<rparr>,
                     MyPgXact := advertise_xid (MyPgXact v) xid isSubXact\<rparr>, Inr full_xid))"


definition ReadNextFullTransactionId :: "Varsup \<Rightarrow> FullTransactionId" where
  "ReadNextFullTransactionId v = nextFullXid (ShmemVariableCache v)"

definition ReadNewTransactionId :: "Varsup \<Rightarrow> TransactionId" where
  "ReadNewTransactionId v = XidFromFullTransactionId (ReadNextFullTransactionId v)"

definition AdvanceNextFullTransactionIdPastXid :: "Varsup \<Rightarrow> TransactionId \<Rightarrow> Varsup" where
  "AdvanceNextFullTransactionIdPastXid v xid =
     (let vc = ShmemVariableCache v; next_xid = XidFromFullTransactionId (nextFullXid vc)
      in if \<not> TransactionIdFollowsOrEquals xid next_xid then v
         else
           let xid = TransactionIdAdvance xid;
               epoch = EpochFromFullTransactionId (nextFullXid vc);
               epoch = (if xid < next_xid then epoch + 1 else epoch)
           in v\<lparr>ShmemVariableCache := vc\<lparr>nextFullXid := FullTransactionIdFromEpochAndXid epoch xid\<rparr>\<rparr>)"

section \<open>Limits\<close>

text \<open>The limits xidVacLimit, xidWarnLimit, xidStopLimit and xidWrapLimit for the given oldest id.\<close>

definition xid_limits :: "uint32 \<Rightarrow> TransactionId \<Rightarrow> TransactionId \<times> TransactionId \<times> TransactionId \<times> TransactionId" where
  "xid_limits freeze_max_age oldest_datfrozenxid =
     (let wrap = oldest_datfrozenxid + drop_bit 1 MaxTransactionId;
          wrap = (if wrap < FirstNormalTransactionId then wrap + FirstNormalTransactionId else wrap);
          stop = wrap - 1000000;
          stop = (if stop < FirstNormalTransactionId then stop - FirstNormalTransactionId else stop);
          warn = stop - 10000000;
          warn = (if warn < FirstNormalTransactionId then warn - FirstNormalTransactionId else warn);
          vac = oldest_datfrozenxid + freeze_max_age;
          vac = (if vac < FirstNormalTransactionId then vac + FirstNormalTransactionId else vac)
      in (vac, warn, stop, wrap))"

definition SetTransactionIdLimit :: "BackendMode \<Rightarrow> Varsup \<Rightarrow> TransactionId \<Rightarrow> Oid \<Rightarrow> Varsup" where
  "SetTransactionIdLimit mode v oldest_datfrozenxid oldest_datoid =
     (case xid_limits (autovacuum_freeze_max_age mode) oldest_datfrozenxid of
        (vac, warn, stop, wrap) \<Rightarrow>
          let v = v\<lparr>ShmemVariableCache := (ShmemVariableCache v)
                    \<lparr>oldestXid := oldest_datfrozenxid, xidVacLimit := vac, xidWarnLimit := warn,
                     xidStopLimit := stop, xidWrapLimit := wrap, oldestXidDB := oldest_datoid\<rparr>\<rparr>;
              curXid = XidFromFullTransactionId (nextFullXid (ShmemVariableCache v));
              in_recovery = InRecovery (VSubtrans v);
              v = (if TransactionIdFollowsOrEquals curXid vac \<and> IsUnderPostmaster mode \<and> \<not> in_recovery
                   then v\<lparr>autovac_signals := autovac_signals v + 1\<rparr> else v)
          in if TransactionIdFollowsOrEquals curXid warn \<and> \<not> in_recovery
             then v\<lparr>warnings := warnings v @
                      [must_be_vacuumed (if IsTransactionState mode then get_database_name mode oldest_datoid else None)
                         oldest_datoid (wrap - curXid)]\<rparr>
             else v)"

definition ForceTransactionIdLimitUpdate :: "BackendMode \<Rightarrow> Varsup \<Rightarrow> bool" where
  "ForceTransactionIdLimitUpdate mode v =
     (let vc = ShmemVariableCache v
      in if \<not> TransactionIdIsNormal (oldestXid vc) then True
         else if \<not> TransactionIdIsValid (xidVacLimit vc) then True
         else if TransactionIdFollowsOrEquals (XidFromFullTransactionId (nextFullXid vc)) (xidVacLimit vc) then True
         else if get_database_name mode (oldestXidDB vc) = None then True
         else False)"

section \<open>Assigning an object id\<close>

definition FirstBootstrapObjectId :: Oid where
  "FirstBootstrapObjectId = 12000"

definition FirstNormalObjectId :: Oid where
  "FirstNormalObjectId = 16384"

definition VAR_OID_PREFETCH :: uint32 where
  "VAR_OID_PREFETCH = 8192"

definition oid_recovery_error :: pg_error where
  "oid_recovery_error = ERROR ''cannot assign OIDs during recovery''"

definition GetNewObjectId :: "BackendMode \<Rightarrow> Varsup \<Rightarrow> Varsup \<times> Oid result" where
  "GetNewObjectId mode v =
     (if RecoveryInProgress mode then (v, Inl oid_recovery_error)
      else
        let vc = ShmemVariableCache v;
            vc = (if nextOid vc < FirstNormalObjectId then
                    if IsPostmasterEnvironment mode then vc\<lparr>nextOid := FirstNormalObjectId, oidCount := 0\<rparr>
                    else if nextOid vc < FirstBootstrapObjectId then vc\<lparr>nextOid := FirstNormalObjectId, oidCount := 0\<rparr>
                    else vc
                  else vc);
            wal = (if oidCount vc = 0 then nextoid_wal v @ [nextOid vc + VAR_OID_PREFETCH] else nextoid_wal v);
            vc = (if oidCount vc = 0 then vc\<lparr>oidCount := VAR_OID_PREFETCH\<rparr> else vc);
            result = nextOid vc
        in (v\<lparr>ShmemVariableCache := vc\<lparr>nextOid := nextOid vc + 1, oidCount := oidCount vc - 1\<rparr>, nextoid_wal := wal\<rparr>, Inr result))"

section \<open>The counter\<close>

lemma unat_bound32: "unat (x :: 32 word) < 4294967296"
  using unsigned_less [of x, where ?'a = nat] by simp

lemma skip_special_xid: "(ucast (skip_special_xids v) :: TransactionId) = (if ucast v < FirstNormalTransactionId then FirstNormalTransactionId else ucast v)"
proof (induction v rule: skip_special_xids.induct)
  case (1 v)
  show ?case
  proof (cases "(ucast v :: TransactionId) < FirstNormalTransactionId")
    case True
    then have less: "unat (ucast v :: TransactionId) < 3" by (simp add: xid_defs word_less_nat_alt)
    have "(ucast (v + 1) :: TransactionId) = ucast v + 1" by (simp add: ucast32_add)
    moreover have "unat (ucast v + 1 :: TransactionId) = unat (ucast v :: TransactionId) + 1" using less by (simp add: unat_word_ariths)
    ultimately have "(ucast (v + 1) :: TransactionId) < FirstNormalTransactionId \<or> (ucast (v + 1) :: TransactionId) = FirstNormalTransactionId"
      using less by (simp add: xid_defs word_less_nat_alt word_unat_eq_iff) linarith
    with 1 True show ?thesis by (subst skip_special_xids.simps) auto
  next
    case False
    then show ?thesis by (subst skip_special_xids.simps) simp
  qed
qed

lemma FullTransactionIdAdvance_xid: "XidFromFullTransactionId (FullTransactionIdAdvance f) = TransactionIdAdvance (XidFromFullTransactionId f)"
  by (simp add: XidFromFullTransactionId_def FullTransactionIdAdvance_def skip_special_xid TransactionIdAdvance_def ucast32_add)

lemma TransactionIdAdvance_cases:
  assumes "TransactionIdIsNormal x"
  obtains (wrap) "x = MaxTransactionId" "TransactionIdAdvance x = FirstNormalTransactionId"
  | (succ) "x \<noteq> MaxTransactionId" "TransactionIdAdvance x = x + 1" "unat (x + 1) = unat x + 1"
proof (cases "x = MaxTransactionId")
  case True
  then show ?thesis by (intro wrap) (simp_all add: TransactionIdAdvance_def xid_defs)
next
  case False
  then have "unat x \<noteq> 4294967295" by (simp add: xid_defs word_unat_eq_iff)
  moreover have "unat x < 4294967296" by (rule unat_bound32)
  ultimately have u: "unat (x + 1) = unat x + 1" by (simp add: unat_word_ariths)
  moreover have "3 \<le> unat x" using assms by (simp add: xid_defs word_le_nat_alt)
  ultimately have "\<not> x + 1 < FirstNormalTransactionId" by (simp add: xid_defs word_less_nat_alt)
  then show ?thesis using False u by (intro succ) (simp_all add: TransactionIdAdvance_def)
qed

lemma TransactionIdAdvance_normal: "TransactionIdIsNormal (TransactionIdAdvance x)"
  by (auto simp: TransactionIdAdvance_def TransactionIdIsNormal_def Let_def not_less)

section \<open>Distances\<close>

text \<open>The number of ids that can be assigned from \<open>o\<close> up to \<open>x\<close>: the special ids are left out.\<close>

definition ids_from :: "TransactionId \<Rightarrow> TransactionId \<Rightarrow> nat" where
  "ids_from old x = unat (x - old) - (if x < old then 3 else 0)"

lemma unat_diff32: "unat (x - y :: 32 word) = (if y \<le> x then unat x - unat y else 4294967296 + unat x - unat y)"
proof (cases "y \<le> x")
  case True
  then show ?thesis by (simp add: unat_sub_if_size word_le_nat_alt)
next
  case False
  then have "unat x < unat y" by (simp add: word_le_nat_alt)
  moreover have "unat y < 4294967296" by (rule unat_bound32)
  ultimately show ?thesis using False by (simp add: unat_sub_if_size word_size)
qed

lemma normal_unat: "TransactionIdIsNormal x \<longleftrightarrow> 3 \<le> unat x"
  by (simp add: xid_defs word_le_nat_alt)

lemma ids_from_bounds: "ids_from old x \<le> unat (x - old)" "unat (x - old) \<le> ids_from old x + 3"
  unfolding ids_from_def by auto

lemma ids_from_unat:
  assumes "TransactionIdIsNormal old" and "TransactionIdIsNormal x"
  shows "ids_from old x = (if old \<le> x then unat x - unat old else 4294967293 + unat x - unat old)"
  using assms unat_bound32 [of old] by (auto simp: ids_from_def unat_diff32 normal_unat not_less not_le)

lemma ids_from_less_iff:
  assumes "TransactionIdIsNormal old" and "TransactionIdIsNormal x" and "TransactionIdIsNormal y"
  shows "ids_from old x < ids_from old y \<longleftrightarrow> unat (x - old) < unat (y - old)"
  using assms unat_bound32 [of old] unat_bound32 [of x] unat_bound32 [of y]
  by (auto simp: ids_from_unat unat_diff32 normal_unat word_le_nat_alt)

lemma ids_from_advance:
  assumes "TransactionIdIsNormal old" and "TransactionIdIsNormal x" and "unat (x - old) < 2147483648"
  shows "ids_from old (TransactionIdAdvance x) = ids_from old x + 1"
  using assms(2)
proof (cases rule: TransactionIdAdvance_cases)
  case wrap
  have "unat x = 4294967295" using wrap by (simp add: xid_defs)
  moreover have "unat FirstNormalTransactionId = 3" by (simp add: xid_defs)
  ultimately show ?thesis using assms ids_from_unat [OF assms(1) TransactionIdAdvance_normal, of x] unat_bound32 [of old]
    by (auto simp: wrap(2) ids_from_unat unat_diff32 normal_unat word_le_nat_alt split: if_splits)
next
  case succ
  then show ?thesis using assms ids_from_unat [OF assms(1) TransactionIdAdvance_normal, of x] unat_bound32 [of old]
    by (auto simp: succ(2,3) ids_from_unat unat_diff32 normal_unat word_le_nat_alt split: if_splits)
qed

lemma follows_from:
  assumes "TransactionIdIsNormal x" and "TransactionIdIsNormal y" and "unat (x - old) < 2147483648" and "unat (y - old) < 2147483648"
  shows "TransactionIdFollowsOrEquals x y \<longleftrightarrow> unat (y - old) \<le> unat (x - old)"
proof -
  obtain a b where ab: "a = unat (x - old)" "b = unat (y - old)" by blast
  have "a < 2147483648" "b < 2147483648" using assms(3,4) ab by simp_all
  then have "- (2 ^ 31) \<le> int a - int b" "int a - int b < 2 ^ 31" by simp_all
  from sint_diff_window [OF this] have "sint (word_of_int (int a) - word_of_int (int b) :: TransactionId) = int a - int b" .
  moreover have "x - y = word_of_int (int a) - word_of_int (int b)" by (simp add: ab)
  ultimately have "sint (x - y) = int a - int b" by metis
  then have "TransactionIdFollowsOrEquals x y \<longleftrightarrow> b \<le> a" using assms(1,2) by (simp add: TransactionIdFollowsOrEquals_def)
  then show ?thesis by (simp add: ab)
qed

section \<open>Limits against wraparound\<close>

text \<open>How the limits lie, counted from the oldest id.\<close>

definition limits_ok :: "TransactionId \<Rightarrow> VariableCacheData \<Rightarrow> bool" where
  "limits_ok old vc \<longleftrightarrow> oldestXid vc = old \<and> TransactionIdIsNormal old
     \<and> TransactionIdIsNormal (xidVacLimit vc) \<and> TransactionIdIsNormal (xidWarnLimit vc)
     \<and> TransactionIdIsNormal (xidStopLimit vc) \<and> TransactionIdIsNormal (xidWrapLimit vc)
     \<and> unat (xidVacLimit vc - old) < unat (xidWarnLimit vc - old)
     \<and> unat (xidWarnLimit vc - old) + 10000000 \<le> unat (xidStopLimit vc - old)
     \<and> unat (xidStopLimit vc - old) + 1000000 \<le> unat (xidWrapLimit vc - old)
     \<and> unat (xidWrapLimit vc - old) \<le> 2147483650"

lemma next_normal: "TransactionIdIsNormal (if x < FirstNormalTransactionId then x + FirstNormalTransactionId else x)"
proof (cases "x < FirstNormalTransactionId")
  case True
  then have "unat x < 3" by (simp add: xid_defs word_less_nat_alt)
  then have "unat (x + 3) = unat x + 3" by (simp add: unat_word_ariths)
  with True show ?thesis by (simp add: normal_unat) (simp add: xid_defs)
qed (simp add: TransactionIdIsNormal_def)

lemma prev_normal: "TransactionIdIsNormal (if x < FirstNormalTransactionId then x - FirstNormalTransactionId else x)"
proof (cases "x < FirstNormalTransactionId")
  case True
  then have "unat x < 3" by (simp add: xid_defs word_less_nat_alt)
  then have "3 \<le> unat (x - 3)" by (simp add: unat_diff32 word_le_nat_alt)
  with True show ?thesis by (simp add: normal_unat) (simp add: xid_defs)
qed (simp add: TransactionIdIsNormal_def)

lemma xid_limits_distances:
  assumes "xid_limits mx old = (vac, warn, stop, wrap)" and mx: "mx \<le> 2000000000"
  shows "TransactionIdIsNormal vac" "TransactionIdIsNormal warn" "TransactionIdIsNormal stop" "TransactionIdIsNormal wrap"
    "unat (vac - old) < unat (warn - old)" "unat (warn - old) + 10000000 \<le> unat (stop - old)"
    "unat (stop - old) + 1000000 \<le> unat (wrap - old)" "unat (wrap - old) \<le> 2147483650"
proof -
  define up where "up x = (if x < FirstNormalTransactionId then x + FirstNormalTransactionId else x)" for x :: TransactionId
  define down where "down x = (if x < FirstNormalTransactionId then x - FirstNormalTransactionId else x)" for x :: TransactionId
  have lim: "wrap = up (old + 2147483647)" "stop = down (wrap - 1000000)" "warn = down (stop - 10000000)" "vac = up (old + mx)"
    using assms(1) by (auto simp: xid_limits_def Let_def up_def [symmetric] down_def [symmetric] MaxTransactionId_def)
  have ud: "up x \<in> {x, x + 3}" "down x \<in> {x, x - 3}" "TransactionIdIsNormal (up x)" "TransactionIdIsNormal (down x)" for x
    using next_normal [of x] prev_normal [of x] by (simp_all add: up_def down_def FirstNormalTransactionId_def)
  show "TransactionIdIsNormal vac" "TransactionIdIsNormal warn" "TransactionIdIsNormal stop" "TransactionIdIsNormal wrap"
    by (simp_all add: lim(3,4) ud) (simp_all add: lim(1,2) ud)
  have mx': "unat mx \<le> 2000000000" using mx by (simp add: word_le_nat_alt)
  then have "unat (mx + 3) = unat mx + 3" by (simp add: unat_word_ariths)
  moreover have "vac - old \<in> {mx, mx + 3}" using ud(1) [of "old + mx"] by (auto simp: lim(4))
  ultimately have vac: "unat (vac - old) \<le> 2000000003" using mx' by auto
  obtain dw ds dn where d: "dw = wrap - old" "ds = stop - old" "dn = warn - old" by blast
  have "dw \<in> {2147483647, 2147483650}" using ud(1) [of "old + 2147483647"] by (auto simp: lim(1) d)
  moreover have "ds \<in> {dw - 1000000, dw - 1000003}" using ud(2) [of "wrap - 1000000"] by (auto simp: lim(2) d)
  moreover have "dn \<in> {ds - 10000000, ds - 10000003}" using ud(2) [of "stop - 10000000"] by (auto simp: lim(3) d)
  ultimately have "unat dw \<le> 2147483650" "unat ds + 1000000 \<le> unat dw" "unat dn + 10000000 \<le> unat ds" "2000000003 < unat dn" by auto
  with vac show "unat (vac - old) < unat (warn - old)" "unat (warn - old) + 10000000 \<le> unat (stop - old)"
    "unat (stop - old) + 1000000 \<le> unat (wrap - old)" "unat (wrap - old) \<le> 2147483650"
    by (simp_all add: d)
qed

lemma SetTransactionIdLimit_limits:
  assumes "TransactionIdIsNormal old" and "autovacuum_freeze_max_age mode \<le> 2000000000"
  shows "limits_ok old (ShmemVariableCache (SetTransactionIdLimit mode v old db))"
proof -
  obtain vac warn stop wrap where l: "xid_limits (autovacuum_freeze_max_age mode) old = (vac, warn, stop, wrap)"
    by (cases "xid_limits (autovacuum_freeze_max_age mode) old")
  from xid_limits_distances [OF this assms(2)] assms(1) show ?thesis
    by (simp add: SetTransactionIdLimit_def l Let_def limits_ok_def)
qed

section \<open>The logs of the ids to come\<close>

definition logs_inv :: "Varsup \<Rightarrow> bool" where
  "logs_inv v \<longleftrightarrow> clog_inv (ClogCtl (VClog v)) \<and> slru_inv (CommitTsCtl (VCommitTs v)) \<and> slru_inv (VSubtrans v)"

definition logs_fine :: "Varsup \<Rightarrow> bool" where
  "logs_fine v \<longleftrightarrow> io_fine (ClogCtl (VClog v)) \<and> io_fine (CommitTsCtl (VCommitTs v)) \<and> io_fine (VSubtrans v)"

text \<open>From \<open>x\<close> to the end of its page every transaction is in progress, and has no parent.\<close>

definition clog_fresh :: "Slru \<Rightarrow> TransactionId \<Rightarrow> bool" where
  "clog_fresh s x \<longleftrightarrow> (\<forall>y. TransactionIdToPage y = TransactionIdToPage x \<longrightarrow> TransactionIdToPgIndex x \<le> TransactionIdToPgIndex y \<longrightarrow>
     clog_status s y = Some TRANSACTION_STATUS_IN_PROGRESS)"

definition sub_fresh :: "Slru \<Rightarrow> TransactionId \<Rightarrow> bool" where
  "sub_fresh s x \<longleftrightarrow> (\<forall>y. SUBTRANS_TransactionIdToPage y = SUBTRANS_TransactionIdToPage x \<longrightarrow> TransactionIdToEntry x \<le> TransactionIdToEntry y \<longrightarrow>
     subtrans_parent s y = Some InvalidTransactionId)"

text \<open>Unless \<open>x\<close> is the first id of a page, whose logs are zeroed when it is assigned.\<close>

definition unused_from :: "Varsup \<Rightarrow> TransactionId \<Rightarrow> bool" where
  "unused_from v x \<longleftrightarrow> (TransactionIdToPgIndex x \<noteq> 0 \<and> x \<noteq> FirstNormalTransactionId \<longrightarrow> clog_fresh (ClogCtl (VClog v)) x)
     \<and> (TransactionIdToEntry x \<noteq> 0 \<and> x \<noteq> FirstNormalTransactionId \<longrightarrow> sub_fresh (VSubtrans v) x)"

lemma ExtendCLOG_unused:
  assumes "clog_inv (ClogCtl c)" and "TransactionIdToPgIndex x \<noteq> 0 \<and> x \<noteq> FirstNormalTransactionId \<longrightarrow> clog_fresh (ClogCtl c) x"
  obtains c' r where "ExtendCLOG c x = Some (c', r)" "clog_inv (ClogCtl c')" "io_fine (ClogCtl c) \<longrightarrow> r = Inr ()"
    "r = Inr () \<longrightarrow> clog_fresh (ClogCtl c') x"
    "TransactionIdToPgIndex x \<noteq> 0 \<and> x \<noteq> FirstNormalTransactionId \<longrightarrow> clog_fresh (ClogCtl c') x"
  using ExtendCLOG_post [OF assms(1), of x] assms(2) that by (auto simp: clog_fresh_def split: if_splits)

lemma ExtendSUBTRANS_unused:
  assumes "slru_inv s" and "TransactionIdToEntry x \<noteq> 0 \<and> x \<noteq> FirstNormalTransactionId \<longrightarrow> sub_fresh s x"
  obtains t r where "ExtendSUBTRANS s x = Some (t, r)" "slru_inv t" "io_fine s \<longrightarrow> r = Inr ()"
    "r = Inr () \<longrightarrow> sub_fresh t x"
    "TransactionIdToEntry x \<noteq> 0 \<and> x \<noteq> FirstNormalTransactionId \<longrightarrow> sub_fresh t x"
proof -
  from ExtendSUBTRANS_post [OF assms(1), of x] obtain t r where
    t: "ExtendSUBTRANS s x = Some (t, r)" "slru_inv t" "io_fine s \<longrightarrow> io_fine t \<and> r = Inr ()"
      "if TransactionIdToEntry x \<noteq> 0 \<and> x \<noteq> FirstNormalTransactionId then t = s \<and> r = Inr ()
       else (\<forall>y p. SUBTRANS_TransactionIdToPage y \<noteq> SUBTRANS_TransactionIdToPage x \<longrightarrow> subtrans_parent s y = Some p \<longrightarrow> subtrans_parent t y = Some p)
         \<and> (r = Inr () \<longrightarrow> (\<forall>y. SUBTRANS_TransactionIdToPage y = SUBTRANS_TransactionIdToPage x \<longrightarrow> subtrans_parent t y = Some InvalidTransactionId))"
    by blast
  then show ?thesis using assms(2) by (intro that [of t r]) (auto simp: sub_fresh_def split: if_splits)
qed

lemma extend_logs_post:
  assumes "logs_inv v" and "unused_from v x"
  obtains w r where "extend_logs v x = Some (w, r)" "logs_inv w" "unused_from w x" "logs_fine v \<longrightarrow> r = Inr ()"
    "ShmemVariableCache w = ShmemVariableCache v" "MyPgXact w = MyPgXact v"
    "r = Inr () \<longrightarrow> clog_fresh (ClogCtl (VClog w)) x \<and> sub_fresh (VSubtrans w) x"
proof -
  from assms have inv: "clog_inv (ClogCtl (VClog v))" "slru_inv (CommitTsCtl (VCommitTs v))" "slru_inv (VSubtrans v)"
    and un: "TransactionIdToPgIndex x \<noteq> 0 \<and> x \<noteq> FirstNormalTransactionId \<longrightarrow> clog_fresh (ClogCtl (VClog v)) x"
      "TransactionIdToEntry x \<noteq> 0 \<and> x \<noteq> FirstNormalTransactionId \<longrightarrow> sub_fresh (VSubtrans v) x"
    by (simp_all add: logs_inv_def unused_from_def)
  obtain c r where c: "ExtendCLOG (VClog v) x = Some (c, r)" "clog_inv (ClogCtl c)" "io_fine (ClogCtl (VClog v)) \<longrightarrow> r = Inr ()"
    "r = Inr () \<longrightarrow> clog_fresh (ClogCtl c) x" "TransactionIdToPgIndex x \<noteq> 0 \<and> x \<noteq> FirstNormalTransactionId \<longrightarrow> clog_fresh (ClogCtl c) x"
    by (rule ExtendCLOG_unused [OF inv(1) un(1)])
  obtain t q where t: "ExtendCommitTs (VCommitTs v) x = Some (t, q)" "slru_inv (CommitTsCtl t)" "io_fine (CommitTsCtl (VCommitTs v)) \<longrightarrow> q = Inr ()"
    using ExtendCommitTs_post [OF inv(2), of x] by blast
  obtain u p where u: "ExtendSUBTRANS (VSubtrans v) x = Some (u, p)" "slru_inv u" "io_fine (VSubtrans v) \<longrightarrow> p = Inr ()"
    "p = Inr () \<longrightarrow> sub_fresh u x" "TransactionIdToEntry x \<noteq> 0 \<and> x \<noteq> FirstNormalTransactionId \<longrightarrow> sub_fresh u x"
    by (rule ExtendSUBTRANS_unused [OF inv(3) un(2)])
  note defs = extend_logs_def logs_inv_def unused_from_def logs_fine_def
  consider (no_clog) e where "r = Inl e" | (no_ts) e where "r = Inr ()" "q = Inl e" | (sub) "r = Inr ()" "q = Inr ()"
    by (metis old.unit.exhaust sum.exhaust)
  then show ?thesis
  proof cases
    case no_clog
    with c inv un show ?thesis by (intro that [of "v\<lparr>VClog := c\<rparr>" r]) (simp_all add: defs)
  next
    case no_ts
    with c t inv un show ?thesis by (intro that [of "v\<lparr>VClog := c, VCommitTs := t\<rparr>" q]) (simp_all add: defs)
  next
    case sub
    with c t u show ?thesis by (intro that [of "v\<lparr>VClog := c, VCommitTs := t, VSubtrans := u\<rparr>" p]) (simp_all add: defs)
  qed
qed

lemma next_on_page:
  assumes "m = Suc n" and "m mod N \<noteq> 0"
  shows "m div N = n div N" "m mod N = Suc (n mod N)"
  using assms by (auto simp: mod_Suc div_Suc split: if_splits)

lemma unused_advance:
  assumes x: "TransactionIdIsNormal x" and "clog_fresh (ClogCtl (VClog v)) x" and "sub_fresh (VSubtrans v) x"
  shows "unused_from v (TransactionIdAdvance x)"
  using x
proof (cases rule: TransactionIdAdvance_cases)
  case wrap
  then show ?thesis by (simp add: unused_from_def)
next
  case succ
  then have u: "unat (TransactionIdAdvance x) = Suc (unat x)" by simp
  have "clog_fresh (ClogCtl (VClog v)) (TransactionIdAdvance x)" if "TransactionIdToPgIndex (TransactionIdAdvance x) \<noteq> 0"
    using assms(2) next_on_page [OF u that [unfolded TransactionIdToPgIndex_def]]
    by (simp add: clog_fresh_def TransactionIdToPage_def TransactionIdToPgIndex_def)
  moreover have "sub_fresh (VSubtrans v) (TransactionIdAdvance x)" if "TransactionIdToEntry (TransactionIdAdvance x) \<noteq> 0"
    using assms(3) next_on_page [OF u that [unfolded TransactionIdToEntry_def]]
    by (simp add: sub_fresh_def SUBTRANS_TransactionIdToPage_def TransactionIdToEntry_def)
  ultimately show ?thesis by (simp add: unused_from_def)
qed

definition varsup_inv :: "Varsup \<Rightarrow> bool" where
  "varsup_inv v \<longleftrightarrow> logs_inv v \<and> TransactionIdIsNormal (ReadNewTransactionId v) \<and> unused_from v (ReadNewTransactionId v)"

lemma assign_xid_post:
  assumes "varsup_inv v"
  obtains (failed) w e where "assign_xid v b = Some (w, Inl e)" "varsup_inv w" "\<not> logs_fine v"
      "ShmemVariableCache w = ShmemVariableCache v" "MyPgXact w = MyPgXact v"
  | (assigned) w where "assign_xid v b = Some (w, Inr (ReadNextFullTransactionId v))" "varsup_inv w"
      "ShmemVariableCache w = (ShmemVariableCache v)\<lparr>nextFullXid := FullTransactionIdAdvance (ReadNextFullTransactionId v)\<rparr>"
      "MyPgXact w = advertise_xid (MyPgXact v) (ReadNewTransactionId v) b"
      "clog_status (ClogCtl (VClog w)) (ReadNewTransactionId v) = Some TRANSACTION_STATUS_IN_PROGRESS"
      "subtrans_parent (VSubtrans w) (ReadNewTransactionId v) = Some InvalidTransactionId"
proof -
  let ?x = "ReadNewTransactionId v"
  from assms have inv: "logs_inv v" "TransactionIdIsNormal ?x" "unused_from v ?x" by (simp_all add: varsup_inv_def)
  note rd = ReadNewTransactionId_def ReadNextFullTransactionId_def
  obtain u r where u: "extend_logs v ?x = Some (u, r)" "logs_inv u" "unused_from u ?x" "logs_fine v \<longrightarrow> r = Inr ()"
    "ShmemVariableCache u = ShmemVariableCache v" "MyPgXact u = MyPgXact v"
    "r = Inr () \<longrightarrow> clog_fresh (ClogCtl (VClog u)) ?x \<and> sub_fresh (VSubtrans u) ?x"
    by (rule extend_logs_post [OF inv(1,3)])
  show ?thesis
  proof (cases r)
    case (Inl e)
    have "varsup_inv u" using u inv by (simp add: varsup_inv_def rd)
    moreover have "assign_xid v b = Some (u, Inl e)" using u(1) Inl by (simp add: assign_xid_def rd Let_def)
    ultimately show ?thesis using failed u(4-6) Inl by auto
  next
    case (Inr i)
    let ?w = "u\<lparr>ShmemVariableCache := (ShmemVariableCache u)\<lparr>nextFullXid := FullTransactionIdAdvance (ReadNextFullTransactionId v)\<rparr>,
      MyPgXact := advertise_xid (MyPgXact u) ?x b\<rparr>"
    have fresh: "clog_fresh (ClogCtl (VClog ?w)) ?x" "sub_fresh (VSubtrans ?w) ?x" using u(7) Inr by simp_all
    have x': "ReadNewTransactionId ?w = TransactionIdAdvance ?x" by (simp add: rd FullTransactionIdAdvance_xid)
    have "logs_inv ?w" using u(2) by (simp add: logs_inv_def)
    then have "varsup_inv ?w" using unused_advance [OF inv(2) fresh] TransactionIdAdvance_normal x' by (simp add: varsup_inv_def)
    moreover have "assign_xid v b = Some (?w, Inr (ReadNextFullTransactionId v))" using u(1) Inr by (simp add: assign_xid_def rd Let_def)
    moreover have "clog_status (ClogCtl (VClog ?w)) ?x = Some TRANSACTION_STATUS_IN_PROGRESS"
      "subtrans_parent (VSubtrans ?w) ?x = Some InvalidTransactionId" using fresh by (simp_all add: clog_fresh_def sub_fresh_def)
    ultimately show ?thesis using u(5,6) by (intro assigned [of ?w]) simp_all
  qed
qed

lemma check_limits_same:
  assumes "check_limits mode v x = (w, r)"
  shows "ShmemVariableCache w = ShmemVariableCache v" "MyPgXact w = MyPgXact v" "VClog w = VClog v" "VCommitTs w = VCommitTs v" "VSubtrans w = VSubtrans v"
    "r \<noteq> Inr () \<longleftrightarrow> IsUnderPostmaster mode \<and> TransactionIdFollowsOrEquals x (xidStopLimit (ShmemVariableCache v))"
    "r = Inl e \<Longrightarrow> e = wraparound_error (get_database_name mode (oldestXidDB (ShmemVariableCache v)))"
  using assms by (auto simp: check_limits_def Let_def split: if_splits)

lemma check_limits_inv: "check_limits mode v x = (w, r) \<Longrightarrow> varsup_inv v \<Longrightarrow> varsup_inv w"
  using check_limits_same [of mode v x w r]
  by (simp add: varsup_inv_def logs_inv_def unused_from_def ReadNewTransactionId_def ReadNextFullTransactionId_def)

section \<open>Many backends\<close>

text \<open>Backends below \<open>N\<close> ask for ids.  Past xidVacLimit a backend first makes the checks, is then in the
  set of those that have passed them, and takes its id at some later moment; before xidVacLimit it
  takes its id at once.  The entry of the backend in the array of processes is arbitrary.\<close>

inductive xid_run :: "nat \<Rightarrow> Varsup \<Rightarrow> Varsup \<Rightarrow> nat set \<Rightarrow> bool" for N v0 where
  start: "xid_run N v0 v0 {}"
| passed: "xid_run N v0 v P \<Longrightarrow> IsUnderPostmaster mode \<Longrightarrow> b < N \<Longrightarrow> b \<notin> P \<Longrightarrow>
    check_limits mode v (ReadNewTransactionId v) = (w, Inr ()) \<Longrightarrow> xid_run N v0 w (insert b P)"
| refused: "xid_run N v0 v P \<Longrightarrow> check_limits mode v (ReadNewTransactionId v) = (w, Inl e) \<Longrightarrow> xid_run N v0 w P"
| finish: "xid_run N v0 v P \<Longrightarrow> b \<in> P \<Longrightarrow> assign_xid (v\<lparr>MyPgXact := p\<rparr>) isSubXact = Some (w, r) \<Longrightarrow> xid_run N v0 w (P - {b})"
| direct: "xid_run N v0 v P \<Longrightarrow> \<not> TransactionIdFollowsOrEquals (ReadNewTransactionId v) (xidVacLimit (ShmemVariableCache v)) \<Longrightarrow>
    assign_xid (v\<lparr>MyPgXact := p\<rparr>) isSubXact = Some (w, r) \<Longrightarrow> xid_run N v0 w P"

text \<open>Where the counter is: at most one id per backend past the stop limit, and at least one of
  these is still free for every backend that has passed the checks.\<close>

definition counter_ok :: "nat \<Rightarrow> TransactionId \<Rightarrow> Varsup \<Rightarrow> nat set \<Rightarrow> bool" where
  "counter_ok N old v P \<longleftrightarrow> varsup_inv v \<and> limits_ok old (ShmemVariableCache v) \<and> finite P \<and> P \<subseteq> {..<N}
     \<and> ids_from old (ReadNewTransactionId v) + card P \<le> ids_from old (xidStopLimit (ShmemVariableCache v)) + N"

lemma counter_ok_distance:
  assumes "counter_ok N old v P" and "N \<le> 262143"
  shows "unat (ReadNewTransactionId v - old) < 2147483648" "unat (xidStopLimit (ShmemVariableCache v) - old) < 2147483648"
    "unat (xidVacLimit (ShmemVariableCache v) - old) < 2147483648"
    "ids_from old (xidVacLimit (ShmemVariableCache v)) < ids_from old (xidStopLimit (ShmemVariableCache v))"
proof -
  let ?vc = "ShmemVariableCache v"
  from assms(1) have l: "limits_ok old ?vc" and c: "ids_from old (ReadNewTransactionId v) \<le> ids_from old (xidStopLimit ?vc) + N"
    by (simp_all add: counter_ok_def)
  from l have d: "unat (xidStopLimit ?vc - old) \<le> 2146483650" "unat (xidVacLimit ?vc - old) < unat (xidStopLimit ?vc - old)"
    unfolding limits_ok_def by linarith+
  then show "unat (xidStopLimit ?vc - old) < 2147483648" "unat (xidVacLimit ?vc - old) < 2147483648" by linarith+
  show "unat (ReadNewTransactionId v - old) < 2147483648"
  proof -
    obtain a b where ab: "a = unat (ReadNewTransactionId v - old)" "b = unat (xidStopLimit ?vc - old)" by blast
    from ids_from_bounds(2) [of "ReadNewTransactionId v" old] ids_from_bounds(1) [of old "xidStopLimit ?vc"] c d(1) assms(2)
    show ?thesis unfolding ab [symmetric] by linarith
  qed
  show "ids_from old (xidVacLimit ?vc) < ids_from old (xidStopLimit ?vc)"
    using d(2) l by (subst ids_from_less_iff) (simp_all add: limits_ok_def)
qed

lemma counter_ok_room:
  assumes ok: "counter_ok N old v P" and N: "N \<le> 262143" and lim: "l \<in> {xidStopLimit (ShmemVariableCache v), xidVacLimit (ShmemVariableCache v)}"
    and "\<not> TransactionIdFollowsOrEquals (ReadNewTransactionId v) l"
  shows "ids_from old (ReadNewTransactionId v) < ids_from old (xidStopLimit (ShmemVariableCache v))"
proof -
  let ?x = "ReadNewTransactionId v"
  note d = counter_ok_distance [OF ok N]
  have n: "TransactionIdIsNormal ?x" "TransactionIdIsNormal old" "TransactionIdIsNormal l" "unat (l - old) < 2147483648"
    using ok lim d by (auto simp: counter_ok_def varsup_inv_def limits_ok_def)
  have "unat (?x - old) < unat (l - old)" using assms(4) follows_from [OF n(1,3) d(1) n(4)] by simp
  then have "ids_from old ?x < ids_from old l" using ids_from_less_iff [OF n(2,1,3)] by simp
  with lim d(4) show ?thesis by auto
qed

lemma counter_ok_proc: "counter_ok N old v P \<Longrightarrow> counter_ok N old (v\<lparr>MyPgXact := p\<rparr>) P"
  by (simp add: counter_ok_def varsup_inv_def logs_inv_def unused_from_def ReadNewTransactionId_def ReadNextFullTransactionId_def)

lemma counter_ok_assign:
  assumes ok: "counter_ok N old v P" and N: "N \<le> 262143" and run: "assign_xid v isSub = Some (w, r)"
    and Q: "Q \<subseteq> P" "ids_from old (ReadNewTransactionId v) + 1 + card Q \<le> ids_from old (xidStopLimit (ShmemVariableCache v)) + N"
  shows "counter_ok N old w Q"
proof -
  from ok have inv: "varsup_inv v" "TransactionIdIsNormal old" "TransactionIdIsNormal (ReadNewTransactionId v)" "finite Q" "Q \<subseteq> {..<N}"
    using Q(1) finite_subset by (auto simp: counter_ok_def varsup_inv_def limits_ok_def)
  note adv = ids_from_advance [OF inv(2,3) counter_ok_distance(1) [OF ok N]]
  note rd = ReadNewTransactionId_def ReadNextFullTransactionId_def
  show ?thesis using inv(1)
  proof (cases rule: assign_xid_post [of v isSub])
    case (failed w' e)
    with run ok Q inv(4,5) show ?thesis by (simp add: counter_ok_def rd)
  next
    case (assigned w')
    then have "w' = w" using run by simp
    with assigned(2,3) ok Q inv(4,5) adv show ?thesis
      by (simp add: counter_ok_def limits_ok_def rd FullTransactionIdAdvance_xid)
  qed
qed

lemma counter_ok_check:
  assumes "counter_ok N old v P" and "check_limits mode v x = (w, r)"
  shows "counter_ok N old w P"
  using check_limits_same(1) [OF assms(2)] check_limits_inv [OF assms(2)] assms(1)
  by (simp add: counter_ok_def ReadNewTransactionId_def ReadNextFullTransactionId_def)

lemma xid_run_counter:
  assumes "xid_run N v0 v P" and "counter_ok N old v0 {}" and N: "N \<le> 262143"
  shows "counter_ok N old v P"
  using assms(1)
proof (induction rule: xid_run.induct)
  case start
  with assms(2) show ?case by simp
next
  case (passed v P mode b w)
  let ?vc = "ShmemVariableCache v"
  note w = counter_ok_check [OF passed.IH passed.hyps(5)] check_limits_same [OF passed.hyps(5)]
  have "\<not> TransactionIdFollowsOrEquals (ReadNewTransactionId v) (xidStopLimit ?vc)" using w(7) passed.hyps(2) by simp
  then have "ids_from old (ReadNewTransactionId v) < ids_from old (xidStopLimit ?vc)"
    by (rule counter_ok_room [OF passed.IH N insertI1])
  moreover have "card (insert b P) \<le> N" "finite (insert b P)" "insert b P \<subseteq> {..<N}"
    using card_mono [of "{..<N}" "insert b P"] passed.IH passed.hyps(3) by (auto simp: counter_ok_def)
  ultimately show ?case using w(1,2) by (simp add: counter_ok_def ReadNewTransactionId_def ReadNextFullTransactionId_def)
next
  case (refused v P mode w e)
  then show ?case using counter_ok_check by blast
next
  case (finish v P b p isSubXact w r)
  have "finite P" using finish.IH by (simp add: counter_ok_def)
  then have "card (P - {b}) + 1 = card P" using card_Suc_Diff1 [OF _ finish.hyps(2)] by simp
  then show ?case using finish.IH
    by (intro counter_ok_assign [OF counter_ok_proc [OF finish.IH] N finish.hyps(3)])
      (auto simp: counter_ok_def ReadNewTransactionId_def ReadNextFullTransactionId_def)
next
  case (direct v P p isSubXact w r)
  have "card P \<le> N" using card_mono [of "{..<N}" P] direct.IH by (simp add: counter_ok_def)
  moreover have "ids_from old (ReadNewTransactionId v) < ids_from old (xidStopLimit (ShmemVariableCache v))"
    by (rule counter_ok_room [OF direct.IH N _ direct.hyps(2)]) simp
  ultimately show ?case
    by (intro counter_ok_assign [OF counter_ok_proc [OF direct.IH] N direct.hyps(3)])
      (auto simp: ReadNewTransactionId_def ReadNextFullTransactionId_def)
qed

section \<open>A small state\<close>

definition small_mode :: BackendMode where
  "small_mode = \<lparr>IsInParallelMode = False, IsBootstrapProcessingMode = False, RecoveryInProgress = False, IsUnderPostmaster = True,
     IsPostmasterEnvironment = True, IsTransactionState = True, autovacuum_freeze_max_age = 200000000, get_database_name = \<lambda>_. None\<rparr>"

definition small_varsup :: Varsup where
  "small_varsup =
     \<lparr>ShmemVariableCache = \<lparr>nextOid = 16384, oidCount = 0, nextFullXid = \<lparr>fxid_value = 100\<rparr>, oldestXid = 3, xidVacLimit = 200000003,
        xidWarnLimit = 2136483650, xidStopLimit = 2146483650, xidWrapLimit = 2147483650, oldestXidDB = 1\<rparr>,
      VClog = \<lparr>ClogCtl = small_clog, oldestClogXid = 3, clog_wal = [], clog_wal_flushed = 0\<rparr>,
      VCommitTs = small_cts, VSubtrans = SUBTRANSShmemInit [(0, [zeroes])],
      MyPgXact = \<lparr>pgxact_xid = 0, pgxact_xmin = 0, vacuumFlags = 0, overflowed = False, nxids = 0, subxids_xids = \<lambda>_. 0\<rparr>,
      autovac_signals = 0, warnings = [], nextoid_wal = []\<rparr>"

lemma small_varsup: "varsup_inv small_varsup" "logs_fine small_varsup" "ReadNewTransactionId small_varsup = 100"
  "ReadNextFullTransactionId small_varsup = \<lparr>fxid_value = 100\<rparr>"
proof -
  let ?s = "SUBTRANSShmemInit [(0, [zeroes])]"
  have s: "slru_inv ?s" "io_fine ?s"
    by (simp_all add: slru_inv_def io_fine_def SUBTRANSShmemInit_def SimpleLruInit_def NUM_SUBTRANS_BUFFERS_def
        distinct_pages_def slot_ok_def holds_page_def)
  have "file_page ?s 0 = Some zeroes"
    by (simp add: file_page_def seg_file_def SUBTRANSShmemInit_def SimpleLruInit_def SLRU_PAGES_PER_SEGMENT_def)
  then have st: "stored ?s 0 = Some zeroes" by (subst stored_not_held) (simp_all add: SUBTRANSShmemInit_def SimpleLruInit_def holds_page_def)
  show x: "ReadNewTransactionId small_varsup = 100" "ReadNextFullTransactionId small_varsup = \<lparr>fxid_value = 100\<rparr>"
    by (simp_all add: ReadNewTransactionId_def ReadNextFullTransactionId_def small_varsup_def XidFromFullTransactionId_def)
  have "logs_inv small_varsup" using small_clog(1) small_cts(1) s(1) by (simp add: logs_inv_def small_varsup_def)
  moreover have "unused_from small_varsup 100"
    using small_clog(3) st
    by (auto simp: unused_from_def clog_fresh_def sub_fresh_def small_varsup_def TransactionIdToPage_def clog_layout
        SUBTRANS_TransactionIdToPage_def subtrans_layout subtrans_parent_def entry_of_def sub_table.get_zeroes)
  ultimately show "varsup_inv small_varsup" by (simp add: varsup_inv_def x xid_defs)
  show "logs_fine small_varsup" using small_clog(2) small_cts(2) s(2) by (simp add: logs_fine_def small_varsup_def)
qed

section \<open>Properties\<close>



text \<open>C21. Transaction ids cannot wrap around.  After SetTransactionIdLimit has set the limits for the
  oldest id, let any number of the at most 262143 backends ask for ids in any order, where between
  the checks of a backend and its assignment any others may act.  Every id assigned is a normal id,
  follows the oldest id or is equal to it, and is at least 737855 ids before the point where the
  order of transaction ids breaks down.\<close>

theorem assigned_xids_before_wraparound:
  assumes old: "TransactionIdIsNormal old" and age: "autovacuum_freeze_max_age mode \<le> 2000000000"
    and v0: "v0 = SetTransactionIdLimit mode v old db" "varsup_inv v0"
      "unat (ReadNewTransactionId v0 - old) \<le> unat (xidStopLimit (ShmemVariableCache v0) - old)"
    and run: "N \<le> 262143" "xid_run N v0 w P"
    and assign: "b \<in> P \<or> \<not> TransactionIdFollowsOrEquals (ReadNewTransactionId w) (xidVacLimit (ShmemVariableCache w))"
      "assign_xid (w\<lparr>MyPgXact := p\<rparr>) isSubXact = Some (w', Inr f)" "x = XidFromFullTransactionId f"
  shows "TransactionIdIsNormal x \<and> TransactionIdFollowsOrEquals x old
    \<and> unat (x - old) + 737855 \<le> unat (xidWrapLimit (ShmemVariableCache w) - old) \<and> unat (xidWrapLimit (ShmemVariableCache w) - old) \<le> 2147483650"
proof -
  have l0: "limits_ok old (ShmemVariableCache v0)" using SetTransactionIdLimit_limits [OF old age] v0(1) by simp
  moreover have "ids_from old (ReadNewTransactionId v0) \<le> ids_from old (xidStopLimit (ShmemVariableCache v0))"
    using v0(2,3) l0 ids_from_less_iff [of old "xidStopLimit (ShmemVariableCache v0)" "ReadNewTransactionId v0"]
    by (auto simp: limits_ok_def varsup_inv_def)
  ultimately have "counter_ok N old v0 {}" using v0(2) by (simp add: counter_ok_def)
  note ok = xid_run_counter [OF run(2) this run(1)]
  have x: "x = ReadNewTransactionId w"
  proof -
    have "varsup_inv (w\<lparr>MyPgXact := p\<rparr>)" using counter_ok_proc [OF ok] by (simp add: counter_ok_def)
    then show ?thesis using assign(2,3)
      by (cases rule: assign_xid_post [of _ isSubXact]) (auto simp: ReadNewTransactionId_def ReadNextFullTransactionId_def)
  qed
  note d = counter_ok_distance [OF ok run(1)]
  have n: "TransactionIdIsNormal x" "limits_ok old (ShmemVariableCache w)" using ok by (simp_all add: counter_ok_def varsup_inv_def x)
  have "TransactionIdFollowsOrEquals x old" using follows_from [OF n(1) old, of old] d(1) x by simp
  moreover obtain a s r where dist: "a = unat (x - old)" "s = unat (xidStopLimit (ShmemVariableCache w) - old)"
    "r = unat (xidWrapLimit (ShmemVariableCache w) - old)" by blast
  have "s + 1000000 \<le> r" "r \<le> 2147483650" using n(2) by (simp_all add: limits_ok_def dist)
  moreover have "ids_from old x + 1 \<le> ids_from old (xidStopLimit (ShmemVariableCache w)) + N"
    using assign(1)
  proof
    assume "b \<in> P"
    then have "1 \<le> card P" using ok by (auto simp: counter_ok_def card_gt_0_iff Suc_le_eq)
    then show ?thesis using ok by (simp add: counter_ok_def x)
  next
    assume "\<not> TransactionIdFollowsOrEquals (ReadNewTransactionId w) (xidVacLimit (ShmemVariableCache w))"
    from counter_ok_room [OF ok run(1) _ this] show ?thesis by (simp add: x)
  qed
  then have "a \<le> s + N + 2"
    using ids_from_bounds(2) [of x old] ids_from_bounds(1) [of old "xidStopLimit (ShmemVariableCache w)"] unfolding dist [symmetric] by linarith
  ultimately show ?thesis using n(1) run(1) unfolding dist [symmetric] by linarith
qed

lemma small_limits: "SetTransactionIdLimit small_mode small_varsup 3 1 = small_varsup"
proof -
  have "xid_limits 200000000 3 = (200000003, 2136483650, 2146483650, 2147483650)"
    by (simp add: xid_limits_def xid_defs)
  then show ?thesis
    by (simp add: SetTransactionIdLimit_def small_mode_def small_varsup_def Let_def XidFromFullTransactionId_def TransactionIdFollowsOrEquals_def xid_defs)
qed

theorem assigned_xids_before_wraparound_witness:
  "\<exists>w' f. assign_xid small_varsup False = Some (w', Inr f) \<and> XidFromFullTransactionId f = 100
     \<and> unat (100 - 3 :: TransactionId) + 737855 \<le> unat (xidWrapLimit (ShmemVariableCache small_varsup) - 3)"
proof -
  have lim: "\<not> TransactionIdFollowsOrEquals (ReadNewTransactionId small_varsup) (xidVacLimit (ShmemVariableCache small_varsup))"
    "unat (ReadNewTransactionId small_varsup - 3) \<le> unat (xidStopLimit (ShmemVariableCache small_varsup) - 3)"
    unfolding small_varsup(3) by (simp_all add: small_varsup_def TransactionIdFollowsOrEquals_def xid_defs)
  have mode: "TransactionIdIsNormal 3" "autovacuum_freeze_max_age small_mode \<le> 2000000000" by (simp_all add: xid_defs small_mode_def)
  obtain w' where w': "assign_xid small_varsup False = Some (w', Inr \<lparr>fxid_value = 100\<rparr>)"
    using small_varsup(1) by (cases rule: assign_xid_post [of _ False]) (auto simp: small_varsup)
  then have "assign_xid (small_varsup\<lparr>MyPgXact := MyPgXact small_varsup\<rparr>) False = Some (w', Inr \<lparr>fxid_value = 100\<rparr>)" by simp
  from assigned_xids_before_wraparound [OF mode small_limits [symmetric] small_varsup(1) lim(2) _ xid_run.start disjI2 [OF lim(1)] this refl, of 1]
  show ?thesis using w' by (auto simp: XidFromFullTransactionId_def)
qed

end
