(* ===== verification/ProcArray.thy ===== *)
theory ProcArray
  imports TransLog Varsup
begin

text \<open>
  Which transactions are running: the array of processes of
  \<open>src/backend/storage/ipc/procarray.c\<close>, the own transaction and its subtransactions as
  \<open>src/backend/access/transam/xact.c\<close> keeps them, and snapshots with XidInMVCCSnapshot of
  \<open>src/backend/utils/time/snapmgr.c\<close>.  The state is what one backend sees: the shared array, its own
  variables and the logs of theory TransLog.  ProcArrayLock is free when it is requested, so that
  the group clearing of ids is not reached.  Hot standby, with its list of known assigned ids, is
  left out: the server is not in recovery.
\<close>

section \<open>State\<close>

datatype TransState = TRANS_DEFAULT | TRANS_START | TRANS_INPROGRESS | TRANS_COMMIT | TRANS_ABORT | TRANS_PREPARE

record TransactionStateData =
  fullTransactionId :: FullTransactionId
  xact_state :: TransState
  childXids :: "TransactionId list"

text \<open>The stack of transaction states goes from the current subtransaction to the top-level transaction.\<close>

record Backend =
  pgprocnos :: "nat list"
  maxProcs :: nat
  allPgXact :: "nat \<Rightarrow> PGXACT"
  proc_databaseId :: "nat \<Rightarrow> Oid"
  proc_pid :: "nat \<Rightarrow> nat"
  replication_slot_xmin :: TransactionId
  replication_slot_catalog_xmin :: TransactionId
  latestCompletedXid :: TransactionId
  MyProcno :: nat
  MyDatabaseId :: Oid
  RecentXmin :: TransactionId
  RecentGlobalXmin :: TransactionId
  RecentGlobalDataXmin :: TransactionId
  CurrentTransactionState :: "TransactionStateData list"
  ParallelCurrentXids :: "TransactionId list"
  currentCommandId :: CommandId
  vacuum_defer_cleanup_age :: uint32
  trans_log :: TransLog

definition PROC_IN_VACUUM :: uint8 where
  "PROC_IN_VACUUM = 0x02"

definition PROC_IN_ANALYZE :: uint8 where
  "PROC_IN_ANALYZE = 0x04"

definition PROC_VACUUM_FOR_WRAPAROUND :: uint8 where
  "PROC_VACUUM_FOR_WRAPAROUND = 0x08"

definition PROC_IN_LOGICAL_DECODING :: uint8 where
  "PROC_IN_LOGICAL_DECODING = 0x10"

definition PROC_VACUUM_STATE_MASK :: uint8 where
  "PROC_VACUUM_STATE_MASK = PROC_IN_VACUUM OR PROC_IN_ANALYZE OR PROC_VACUUM_FOR_WRAPAROUND"

definition PROCARRAY_VACUUM_FLAG :: uint8 where
  "PROCARRAY_VACUUM_FLAG = 0x02"

definition PROCARRAY_ANALYZE_FLAG :: uint8 where
  "PROCARRAY_ANALYZE_FLAG = 0x04"

definition PROCARRAY_LOGICAL_DECODING_FLAG :: uint8 where
  "PROCARRAY_LOGICAL_DECODING_FLAG = 0x10"

definition PROCARRAY_SLOTS_XMIN :: uint8 where
  "PROCARRAY_SLOTS_XMIN = 0x20"

definition PROCARRAY_PROC_FLAGS_MASK :: uint8 where
  "PROCARRAY_PROC_FLAGS_MASK = PROCARRAY_VACUUM_FLAG OR PROCARRAY_ANALYZE_FLAG OR PROCARRAY_LOGICAL_DECODING_FLAG"

definition NormalTransactionIdPrecedes :: "TransactionId \<Rightarrow> TransactionId \<Rightarrow> bool" where
  "NormalTransactionIdPrecedes id1 id2 \<longleftrightarrow> sint (id1 - id2) < 0"

definition upd_pgxact :: "Backend \<Rightarrow> nat \<Rightarrow> PGXACT \<Rightarrow> Backend" where
  "upd_pgxact b i p = b\<lparr>allPgXact := (allPgXact b)(i := p)\<rparr>"

definition advance_latest :: "Backend \<Rightarrow> TransactionId \<Rightarrow> Backend" where
  "advance_latest b latestXid =
     (if TransactionIdPrecedes (latestCompletedXid b) latestXid then b\<lparr>latestCompletedXid := latestXid\<rparr> else b)"

section \<open>Members of the array\<close>

definition too_many_clients :: pg_error where
  "too_many_clients = ERROR ''too many clients already''"

definition ProcArrayAdd :: "Backend \<Rightarrow> nat \<Rightarrow> Backend \<times> unit result" where
  "ProcArrayAdd b pgprocno =
     (if length (pgprocnos b) \<ge> maxProcs b then (b, Inl too_many_clients)
      else (b\<lparr>pgprocnos := takeWhile (\<lambda>i. \<not> i > pgprocno) (pgprocnos b) @ pgprocno # dropWhile (\<lambda>i. \<not> i > pgprocno) (pgprocnos b)\<rparr>, Inr ()))"

definition ProcArrayRemove :: "Backend \<Rightarrow> nat \<Rightarrow> TransactionId \<Rightarrow> Backend" where
  "ProcArrayRemove b pgprocno latestXid =
     (let b = (if TransactionIdIsValid latestXid then advance_latest b latestXid else b)
      in b\<lparr>pgprocnos := remove1 pgprocno (pgprocnos b)\<rparr>)"

definition clear_pgxact :: "PGXACT \<Rightarrow> PGXACT" where
  "clear_pgxact p = p\<lparr>pgxact_xid := InvalidTransactionId, pgxact_xmin := InvalidTransactionId,
     vacuumFlags := vacuumFlags p AND NOT PROC_VACUUM_STATE_MASK, nxids := 0, overflowed := False\<rparr>"

definition ProcArrayEndTransactionInternal :: "Backend \<Rightarrow> nat \<Rightarrow> TransactionId \<Rightarrow> Backend" where
  "ProcArrayEndTransactionInternal b pgprocno latestXid =
     advance_latest (upd_pgxact b pgprocno (clear_pgxact (allPgXact b pgprocno))) latestXid"

definition ProcArrayEndTransaction :: "Backend \<Rightarrow> nat \<Rightarrow> TransactionId \<Rightarrow> Backend" where
  "ProcArrayEndTransaction b pgprocno latestXid =
     (if TransactionIdIsValid latestXid then ProcArrayEndTransactionInternal b pgprocno latestXid
      else
        let p = allPgXact b pgprocno
        in upd_pgxact b pgprocno (p\<lparr>pgxact_xmin := InvalidTransactionId, vacuumFlags := vacuumFlags p AND NOT PROC_VACUUM_STATE_MASK\<rparr>))"

definition ProcArrayClearTransaction :: "Backend \<Rightarrow> nat \<Rightarrow> Backend" where
  "ProcArrayClearTransaction b pgprocno = upd_pgxact b pgprocno (clear_pgxact (allPgXact b pgprocno))"

text \<open>XidCacheRemove, and the loop that looks for the subtransaction from the end of the cache.\<close>

definition XidCacheRemove :: "PGXACT \<Rightarrow> nat \<Rightarrow> PGXACT" where
  "XidCacheRemove p i = p\<lparr>subxids_xids := (subxids_xids p)(i := subxids_xids p (nxids p - 1)), nxids := nxids p - 1\<rparr>"

definition remove_subxid :: "TransactionId \<Rightarrow> PGXACT \<Rightarrow> PGXACT" where
  "remove_subxid xid p =
     (case List.find (\<lambda>j. subxids_xids p j = xid) (rev [0..<nxids p]) of None \<Rightarrow> p | Some j \<Rightarrow> XidCacheRemove p j)"

definition XidCacheRemoveRunningXids :: "Backend \<Rightarrow> TransactionId \<Rightarrow> TransactionId list \<Rightarrow> TransactionId \<Rightarrow> Backend" where
  "XidCacheRemoveRunningXids b xid xids latestXid =
     (let p = fold remove_subxid (rev xids) (allPgXact b (MyProcno b));
          p = remove_subxid xid p
      in advance_latest (upd_pgxact b (MyProcno b) p) latestXid)"

definition ProcArraySetReplicationSlotXmin :: "Backend \<Rightarrow> TransactionId \<Rightarrow> TransactionId \<Rightarrow> Backend" where
  "ProcArraySetReplicationSlotXmin b xmin catalog_xmin = b\<lparr>replication_slot_xmin := xmin, replication_slot_catalog_xmin := catalog_xmin\<rparr>"

definition ProcArrayGetReplicationSlotXmin :: "Backend \<Rightarrow> TransactionId \<times> TransactionId" where
  "ProcArrayGetReplicationSlotXmin b = (replication_slot_xmin b, replication_slot_catalog_xmin b)"

definition ProcArrayInstallRestoredXmin :: "Backend \<Rightarrow> TransactionId \<Rightarrow> nat \<Rightarrow> Backend \<times> bool" where
  "ProcArrayInstallRestoredXmin b xmin pgprocno =
     (let xid = pgxact_xmin (allPgXact b pgprocno)
      in if proc_databaseId b pgprocno = MyDatabaseId b \<and> TransactionIdIsNormal xid \<and> TransactionIdPrecedesOrEquals xid xmin
         then (upd_pgxact (b\<lparr>trans_log := (trans_log b)\<lparr>TransactionXmin := xmin\<rparr>\<rparr>) (MyProcno b)
                 ((allPgXact b (MyProcno b))\<lparr>pgxact_xmin := xmin\<rparr>), True)
         else (b, False))"

section \<open>The own transaction\<close>

text \<open>The binary search for \<open>xid\<close> in an array ordered by \<open>before\<close>.\<close>

function xid_bsearch :: "(TransactionId \<Rightarrow> TransactionId \<Rightarrow> bool) \<Rightarrow> TransactionId list \<Rightarrow> TransactionId \<Rightarrow> int \<Rightarrow> int \<Rightarrow> bool" where
  "xid_bsearch before xids xid low high =
     (if low \<le> high then
        let middle = low + (high - low) div 2; probe = xids ! nat middle
        in if probe = xid then True
           else if before probe xid then xid_bsearch before xids xid (middle + 1) high
           else xid_bsearch before xids xid low (middle - 1)
      else False)"
  by pat_completeness auto
termination by (relation "measure (\<lambda>(before, xids, xid, low, high). nat (high + 1 - low))") auto

declare xid_bsearch.simps [simp del]

definition TransactionIdIsCurrentTransactionId :: "Backend \<Rightarrow> TransactionId \<Rightarrow> bool" where
  "TransactionIdIsCurrentTransactionId b xid =
     (if \<not> TransactionIdIsNormal xid then False
      else if ParallelCurrentXids b \<noteq> []
      then xid_bsearch (<) (ParallelCurrentXids b) xid 0 (int (length (ParallelCurrentXids b)) - 1)
      else list_ex (\<lambda>s. xact_state s \<noteq> TRANS_ABORT \<and> fxid_value (fullTransactionId s) \<noteq> 0
                     \<and> (xid = XidFromFullTransactionId (fullTransactionId s)
                        \<or> xid_bsearch TransactionIdPrecedes (childXids s) xid 0 (int (length (childXids s)) - 1)))
             (CurrentTransactionState b))"

section \<open>Running transactions\<close>

text \<open>The scan of the array: True if \<open>xid\<close> is found, else the main ids with uncached children.\<close>

primrec scan_procs :: "Backend \<Rightarrow> TransactionId \<Rightarrow> nat list \<Rightarrow> TransactionId list \<Rightarrow> bool \<times> TransactionId list" where
  "scan_procs b xid [] xids = (False, xids)"
| "scan_procs b xid (pgprocno # procs) xids =
     (let pgxact = allPgXact b pgprocno; pxid = pgxact_xid pgxact
      in if pgprocno = MyProcno b then scan_procs b xid procs xids
         else if \<not> TransactionIdIsValid pxid then scan_procs b xid procs xids
         else if pxid = xid then (True, xids)
         else if TransactionIdPrecedes xid pxid then scan_procs b xid procs xids
         else if list_ex (\<lambda>j. subxids_xids pgxact j = xid) (rev [0..<nxids pgxact]) then (True, xids)
         else scan_procs b xid procs (if overflowed pgxact then xids @ [pxid] else xids))"

definition TransactionIdIsInProgress :: "Backend \<Rightarrow> TransactionId \<Rightarrow> (Backend \<times> bool result) option" where
  "TransactionIdIsInProgress b xid =
     (if TransactionIdPrecedes xid (RecentXmin b) then Some (b, Inr False)
      else if TransactionIdIsKnownCompleted (trans_log b) xid then Some (b, Inr False)
      else if TransactionIdIsCurrentTransactionId b xid then Some (b, Inr True)
      else if TransactionIdPrecedes (latestCompletedXid b) xid then Some (b, Inr True)
      else case scan_procs b xid (pgprocnos b) [] of
             (True, _) \<Rightarrow> Some (b, Inr True)
           | (False, []) \<Rightarrow> Some (b, Inr False)
           | (False, xids) \<Rightarrow>
               (case TransactionIdDidAbort (trans_log b) xid of
                  None \<Rightarrow> None
                | Some (l, Inl e) \<Rightarrow> Some (b\<lparr>trans_log := l\<rparr>, Inl e)
                | Some (l, Inr True) \<Rightarrow> Some (b\<lparr>trans_log := l\<rparr>, Inr False)
                | Some (l, Inr False) \<Rightarrow>
                    (case SubTransGetTopmostTransaction (SubLog l) (TransactionXmin l) xid of
                       None \<Rightarrow> None
                     | Some (s, Inl e) \<Rightarrow> Some (b\<lparr>trans_log := l\<lparr>SubLog := s\<rparr>\<rparr>, Inl e)
                     | Some (s, Inr topxid) \<Rightarrow>
                         Some (b\<lparr>trans_log := l\<lparr>SubLog := s\<rparr>\<rparr>, Inr (topxid \<noteq> xid \<and> topxid \<in> set xids)))))"

definition TransactionIdIsActive :: "Backend \<Rightarrow> TransactionId \<Rightarrow> bool" where
  "TransactionIdIsActive b xid =
     (if TransactionIdPrecedes xid (RecentXmin b) then False
      else list_ex (\<lambda>i. TransactionIdIsValid (pgxact_xid (allPgXact b i)) \<and> proc_pid b i \<noteq> 0 \<and> pgxact_xid (allPgXact b i) = xid) (pgprocnos b))"

definition older :: "TransactionId \<Rightarrow> TransactionId \<Rightarrow> TransactionId" where
  "older xid result = (if TransactionIdIsNormal xid \<and> TransactionIdPrecedes xid result then xid else result)"

text \<open>The relation is None for a limit for all relations, else whether it is shared and whether it is
  accessible in logical decoding.\<close>

definition GetOldestXmin :: "Backend \<Rightarrow> (bool \<times> bool) option \<Rightarrow> uint8 \<Rightarrow> TransactionId" where
  "GetOldestXmin b rel flags =
     (let allDbs = (case rel of None \<Rightarrow> True | Some (relisshared, _) \<Rightarrow> relisshared);
          result = TransactionIdAdvance (latestCompletedXid b);
          result = fold (\<lambda>i result.
                     let pgxact = allPgXact b i
                     in if vacuumFlags pgxact AND (flags AND PROCARRAY_PROC_FLAGS_MASK) \<noteq> 0 then result
                        else if allDbs \<or> proc_databaseId b i = MyDatabaseId b \<or> proc_databaseId b i = 0
                        then older (pgxact_xmin pgxact) (older (pgxact_xid pgxact) result)
                        else result) (pgprocnos b) result;
          result = result - vacuum_defer_cleanup_age b;
          result = (if \<not> TransactionIdIsNormal result then FirstNormalTransactionId else result);
          result = (if flags AND PROCARRAY_SLOTS_XMIN = 0 \<and> TransactionIdIsValid (replication_slot_xmin b)
                       \<and> NormalTransactionIdPrecedes (replication_slot_xmin b) result
                    then replication_slot_xmin b else result)
      in if flags AND PROCARRAY_SLOTS_XMIN = 0
            \<and> (case rel of None \<Rightarrow> True | Some (_, decodable) \<Rightarrow> decodable)
            \<and> TransactionIdIsValid (replication_slot_catalog_xmin b)
            \<and> NormalTransactionIdPrecedes (replication_slot_catalog_xmin b) result
         then replication_slot_catalog_xmin b else result)"

definition GetOldestActiveTransactionId :: "Backend \<Rightarrow> FullTransactionId \<Rightarrow> TransactionId" where
  "GetOldestActiveTransactionId b next =
     fold (\<lambda>i. older (pgxact_xid (allPgXact b i))) (pgprocnos b) (XidFromFullTransactionId next)"

section \<open>Snapshots\<close>

datatype SnapshotType = SNAPSHOT_MVCC | SNAPSHOT_SELF | SNAPSHOT_ANY | SNAPSHOT_TOAST | SNAPSHOT_DIRTY
  | SNAPSHOT_HISTORIC_MVCC | SNAPSHOT_NON_VACUUMABLE

record SnapshotData =
  snapshot_type :: SnapshotType
  snap_xmin :: TransactionId
  snap_xmax :: TransactionId
  xip :: "TransactionId list"
  subxip :: "TransactionId list"
  suboverflowed :: bool
  takenDuringRecovery :: bool
  snap_curcid :: CommandId
  speculativeToken :: uint32

text \<open>The loop of GetSnapshotData over the array, with its local variables.\<close>

record snapshot_scan =
  scan_xmin :: TransactionId
  scan_globalxmin :: TransactionId
  scan_xip :: "TransactionId list"
  scan_subxip :: "TransactionId list"
  scan_suboverflowed :: bool

definition scan_proc :: "Backend \<Rightarrow> TransactionId \<Rightarrow> nat \<Rightarrow> snapshot_scan \<Rightarrow> snapshot_scan" where
  "scan_proc b xmax pgprocno sc =
     (let pgxact = allPgXact b pgprocno; xid = pgxact_xid pgxact; pxmin = pgxact_xmin pgxact
      in if vacuumFlags pgxact AND (PROC_IN_LOGICAL_DECODING OR PROC_IN_VACUUM) \<noteq> 0 then sc
         else
           let sc = (if TransactionIdIsNormal pxmin \<and> NormalTransactionIdPrecedes pxmin (scan_globalxmin sc)
                     then sc\<lparr>scan_globalxmin := pxmin\<rparr> else sc)
           in if \<not> TransactionIdIsNormal xid \<or> \<not> NormalTransactionIdPrecedes xid xmax then sc
              else
                let sc = (if NormalTransactionIdPrecedes xid (scan_xmin sc) then sc\<lparr>scan_xmin := xid\<rparr> else sc)
                in if pgprocno = MyProcno b then sc
                   else
                     let sc = sc\<lparr>scan_xip := scan_xip sc @ [xid]\<rparr>
                     in if scan_suboverflowed sc then sc
                        else if overflowed pgxact then sc\<lparr>scan_suboverflowed := True\<rparr>
                        else sc\<lparr>scan_subxip := scan_subxip sc @ map (subxids_xids pgxact) [0..<nxids pgxact]\<rparr>)"

text \<open>The snapshot is returned by value; the fields for old snapshots and reference counts are left out.\<close>

definition GetSnapshotData :: "Backend \<Rightarrow> Backend \<times> SnapshotData" where
  "GetSnapshotData b =
     (let xmax = TransactionIdAdvance (latestCompletedXid b);
          sc = fold (scan_proc b xmax) (pgprocnos b)
                 \<lparr>scan_xmin = xmax, scan_globalxmin = xmax, scan_xip = [], scan_subxip = [], scan_suboverflowed = False\<rparr>;
          xmin = scan_xmin sc;
          me = allPgXact b (MyProcno b);
          b = (if \<not> TransactionIdIsValid (pgxact_xmin me)
               then upd_pgxact (b\<lparr>trans_log := (trans_log b)\<lparr>TransactionXmin := xmin\<rparr>\<rparr>) (MyProcno b) (me\<lparr>pgxact_xmin := xmin\<rparr>)
               else b);
          globalxmin = (if TransactionIdPrecedes xmin (scan_globalxmin sc) then xmin else scan_globalxmin sc);
          global = globalxmin - vacuum_defer_cleanup_age b;
          global = (if \<not> TransactionIdIsNormal global then FirstNormalTransactionId else global);
          global = (if TransactionIdIsValid (replication_slot_xmin b) \<and> NormalTransactionIdPrecedes (replication_slot_xmin b) global
                    then replication_slot_xmin b else global);
          global_data = global;
          global = (if TransactionIdIsNormal (replication_slot_catalog_xmin b)
                       \<and> NormalTransactionIdPrecedes (replication_slot_catalog_xmin b) global
                    then replication_slot_catalog_xmin b else global)
      in (b\<lparr>RecentGlobalDataXmin := global_data, RecentGlobalXmin := global, RecentXmin := xmin\<rparr>,
          \<lparr>snapshot_type = SNAPSHOT_MVCC, snap_xmin = xmin, snap_xmax = xmax, xip = scan_xip sc, subxip = scan_subxip sc,
           suboverflowed = scan_suboverflowed sc, takenDuringRecovery = False, snap_curcid = currentCommandId b, speculativeToken = 0\<rparr>))"

text \<open>The conversion to the topmost transaction; None says that the transaction is too old to be in the snapshot.\<close>

definition snapshot_topmost :: "Backend \<Rightarrow> TransactionId \<Rightarrow> SnapshotData \<Rightarrow> (Backend \<times> TransactionId option result) option" where
  "snapshot_topmost b xid snapshot =
     (let l = trans_log b
      in case SubTransGetTopmostTransaction (SubLog l) (TransactionXmin l) xid of
           None \<Rightarrow> None
         | Some (s, Inl e) \<Rightarrow> Some (b\<lparr>trans_log := l\<lparr>SubLog := s\<rparr>\<rparr>, Inl e)
         | Some (s, Inr topxid) \<Rightarrow>
             Some (b\<lparr>trans_log := l\<lparr>SubLog := s\<rparr>\<rparr>, Inr (if TransactionIdPrecedes topxid (snap_xmin snapshot) then None else Some topxid)))"

definition XidInMVCCSnapshot :: "Backend \<Rightarrow> TransactionId \<Rightarrow> SnapshotData \<Rightarrow> (Backend \<times> bool result) option" where
  "XidInMVCCSnapshot b xid snapshot =
     (if TransactionIdPrecedes xid (snap_xmin snapshot) then Some (b, Inr False)
      else if TransactionIdFollowsOrEquals xid (snap_xmax snapshot) then Some (b, Inr True)
      else if \<not> takenDuringRecovery snapshot then
        (if \<not> suboverflowed snapshot then
           Some (b, Inr (xid \<in> set (subxip snapshot) \<or> xid \<in> set (xip snapshot)))
         else case snapshot_topmost b xid snapshot of
                None \<Rightarrow> None
              | Some (b, Inl e) \<Rightarrow> Some (b, Inl e)
              | Some (b, Inr None) \<Rightarrow> Some (b, Inr False)
              | Some (b, Inr (Some topxid)) \<Rightarrow> Some (b, Inr (topxid \<in> set (xip snapshot))))
      else
        case (if suboverflowed snapshot then snapshot_topmost b xid snapshot else Some (b, Inr (Some xid))) of
          None \<Rightarrow> None
        | Some (b, Inl e) \<Rightarrow> Some (b, Inl e)
        | Some (b, Inr None) \<Rightarrow> Some (b, Inr False)
        | Some (b, Inr (Some topxid)) \<Rightarrow> Some (b, Inr (topxid \<in> set (subxip snapshot))))"

section \<open>Ids in a window\<close>

text \<open>Ids are compared within half of the id space: all ids in use are less than \<open>2\<^sup>3\<^sup>1\<close> after the oldest.\<close>

definition dist :: "TransactionId \<Rightarrow> TransactionId \<Rightarrow> nat" where
  "dist old x = unat (x - old)"

definition in_window :: "TransactionId \<Rightarrow> TransactionId \<Rightarrow> bool" where
  "in_window old x \<longleftrightarrow> TransactionIdIsNormal x \<and> dist old x < 2147483640"

named_theorems window_simps

lemma follows_not_precedes: "TransactionIdFollowsOrEquals x y \<longleftrightarrow> \<not> TransactionIdPrecedes x y"
  by (auto simp: TransactionIdFollowsOrEquals_def TransactionIdPrecedes_def)

lemma window_precedes:
  assumes "TransactionIdIsNormal x" "TransactionIdIsNormal y" "dist old x < 2147483648" "dist old y < 2147483648"
  shows "TransactionIdPrecedes x y \<longleftrightarrow> dist old x < dist old y" "NormalTransactionIdPrecedes x y \<longleftrightarrow> dist old x < dist old y"
proof -
  show "TransactionIdPrecedes x y \<longleftrightarrow> dist old x < dist old y"
    using follows_from [of x y old] assms by (auto simp: dist_def follows_not_precedes)
  then show "NormalTransactionIdPrecedes x y \<longleftrightarrow> dist old x < dist old y"
    using assms(1,2) by (simp add: NormalTransactionIdPrecedes_def TransactionIdPrecedes_def)
qed

lemma in_window_precedes [window_simps]:
  assumes "in_window old x" "in_window old y"
  shows "TransactionIdPrecedes x y \<longleftrightarrow> dist old x < dist old y" "NormalTransactionIdPrecedes x y \<longleftrightarrow> dist old x < dist old y"
  using window_precedes [of x y old] assms by (simp_all add: in_window_def)

lemma in_window_normal: "in_window old x \<Longrightarrow> TransactionIdIsNormal x \<and> TransactionIdIsValid x"
  by (auto simp: in_window_def xid_defs)

lemma dist_eq: "dist old x = dist old y \<longleftrightarrow> x = y"
  by (simp add: dist_def word_unat_eq_iff [symmetric])

lemma dist_advance:
  assumes "TransactionIdIsNormal x" and "dist old x < 2147483636"
  shows "in_window old (TransactionIdAdvance x)" "dist old x < dist old (TransactionIdAdvance x)"
proof -
  have add: "dist old (x + of_nat k) = dist old x + k" if "k \<le> 4" for k
  proof -
    have "x + of_nat k - old = (x - old) + of_nat k" by simp
    moreover have "unat ((x - old) + of_nat k) = unat (x - old) + k"
      using assms(2) that by (simp add: dist_def unat_word_ariths unat_of_nat)
    ultimately show ?thesis unfolding dist_def by argo
  qed
  have "\<exists>k. k \<le> 4 \<and> 0 < k \<and> TransactionIdAdvance x = x + of_nat k" using assms(1)
  proof (cases rule: TransactionIdAdvance_cases)
    case wrap
    then show ?thesis by (intro exI [of _ 4]) (simp add: xid_defs)
  next
    case succ
    then show ?thesis by (intro exI [of _ 1]) simp
  qed
  then obtain k where k: "k \<le> 4" "0 < k" "TransactionIdAdvance x = x + of_nat k" by blast
  show "in_window old (TransactionIdAdvance x)" "dist old x < dist old (TransactionIdAdvance x)"
    using k assms(2) add [OF k(1)] TransactionIdAdvance_normal [of x] by (simp_all add: in_window_def)
qed

section \<open>Topmost transactions\<close>

text \<open>The transaction in whose tree a transaction counts, as far up as its ancestors are recorded.\<close>

inductive topmost :: "TransLog \<Rightarrow> TransactionId \<Rightarrow> TransactionId \<Rightarrow> bool" for l where
  old: "TransactionIdPrecedes x (TransactionXmin l) \<Longrightarrow> topmost l x x"
| top: "subtrans_parent (SubLog l) x = Some InvalidTransactionId \<Longrightarrow> topmost l x x"
| up: "\<not> TransactionIdPrecedes x (TransactionXmin l) \<Longrightarrow> subtrans_parent (SubLog l) x = Some p \<Longrightarrow> TransactionIdIsValid p \<Longrightarrow>
    topmost l p t \<Longrightarrow> topmost l x t"

lemma topmost_det: "topmost l x t \<Longrightarrow> topmost l x u \<Longrightarrow> t = u"
proof (induction arbitrary: u rule: topmost.induct)
  case (old x)
  from old(2) show ?case by (cases rule: topmost.cases) (use old(1) in simp_all)
next
  case (top x)
  from top(2) show ?case by (cases rule: topmost.cases) (use top(1) in \<open>simp_all add: TransactionIdIsValid_def\<close>)
next
  case (up x p t)
  from up.prems show ?case
  proof (cases rule: topmost.cases)
    case (up q)
    then show ?thesis using \<open>subtrans_parent (SubLog l) x = Some p\<close> up.IH by simp
  qed (use up.hyps in \<open>simp_all add: TransactionIdIsValid_def\<close>)
qed

lemma topmost_loop_gives:
  assumes inv: "log_inv l" and fine: "io_fine (SubLog l)" and known: "known l X"
  shows "x \<in> X \<Longrightarrow> TransactionIdIsValid x \<Longrightarrow> keeps (SubLog l) s \<Longrightarrow>
    \<exists>s' t. topmost_loop s (TransactionXmin l) x prev = Some (s', Inr t) \<and> keeps (SubLog l) s' \<and> topmost l x t"
proof (induction "unat (x - TransactionXmin l)" arbitrary: x s prev rule: less_induct)
  case less
  note x = less.prems(1) and valid = less.prems(2) and s = less.prems(3)
  have xmin: "TransactionIdIsNormal (TransactionXmin l)" and links: "links_ok l" using inv by (simp_all add: log_inv_def)
  show ?case
  proof (cases "TransactionIdPrecedes x (TransactionXmin l)")
    case True
    then show ?thesis using valid s by (subst topmost_loop.simps) (auto intro: topmost.old)
  next
    case False
    note normal = not_precedes_normal(1) [OF xmin valid False]
    obtain p where p: "subtrans_parent (SubLog l) x = Some p" using known x False unfolding known_def by blast
    have "slru_inv s" using s by (simp add: keeps_def)
    then show ?thesis using normal
    proof (cases rule: SubTransGetParent_cases)
      case (failed t e)
      with p io_fine_keeps [OF s fine] keeps_parent [OF s] show ?thesis by simp
    next
      case (found t q)
      note t = keeps_trans [OF s found(2)]
      have q: "q = p" using found(3) keeps_parent [OF t p] by simp
      show ?thesis
      proof (cases "TransactionIdIsValid p")
        case False
        then have p0: "p = InvalidTransactionId" by (simp add: TransactionIdIsValid_def)
        moreover have "TransactionIdPrecedes InvalidTransactionId x" using valid by (simp add: TransactionIdPrecedes_def xid_defs word_neq_0_conv)
        ultimately show ?thesis using found(1) q valid \<open>\<not> TransactionIdPrecedes x (TransactionXmin l)\<close> p t
          by (subst topmost_loop.simps, subst topmost_loop.simps) (auto simp: TransactionIdIsValid_def intro: topmost.top)
      next
        case True
        have less: "TransactionIdPrecedes p x" using links p True unfolding links_ok_def by blast
        have pX: "p \<in> X" using known x p True False unfolding known_def by blast
        have "\<exists>s' u. topmost_loop t (TransactionXmin l) p x = Some (s', Inr u) \<and> keeps (SubLog l) s' \<and> topmost l p u"
        proof (cases "TransactionIdPrecedes p (TransactionXmin l)")
          case True
          with t \<open>TransactionIdIsValid p\<close> show ?thesis by (subst topmost_loop.simps) (auto intro: topmost.old)
        next
          case young: False
          from precedes_distance [OF xmin normal False True young less] show ?thesis by (rule less.hyps) (use pX True t in auto)
        qed
        with found(1) q valid False less topmost.up [OF False p True] show ?thesis by (subst topmost_loop.simps) auto
      qed
    qed
  qed
qed

lemma SubTransGetTopmostTransaction_gives:
  assumes "log_inv l" and "log_fine l" and "known l X" and "x \<in> X" and "TransactionIdIsValid x"
  shows "\<exists>s t. SubTransGetTopmostTransaction (SubLog l) (TransactionXmin l) x = Some (s, Inr t)
    \<and> log_step l (l\<lparr>SubLog := s\<rparr>) \<and> topmost l x t"
proof -
  have "io_fine (SubLog l)" "keeps (SubLog l) (SubLog l)" using assms(1,2) by (simp_all add: log_fine_def log_inv_def keeps_refl)
  from topmost_loop_gives [OF assms(1) this(1) assms(3-5) this(2), of x] show ?thesis
    using log_step_sub [OF assms(1)] unfolding SubTransGetTopmostTransaction_def by blast
qed

lemma topmost_step: "topmost l x t \<Longrightarrow> log_step l m \<Longrightarrow> topmost m x t"
proof (induction rule: topmost.induct)
  case (up x p t)
  then show ?case using log_step_parent [of l m] by (intro topmost.up [of x m p]) (simp_all add: log_step_def)
next
  case (old x)
  then show ?case by (intro topmost.old) (simp add: log_step_def)
next
  case (top x)
  then show ?case by (intro topmost.top) (rule log_step_parent)
qed

section \<open>The fate of a transaction\<close>

lemma query_gives:
  assumes "query_post l X P res" and "log_fine l" and "known l X" and "\<And>m. log_step l m \<Longrightarrow> P m = P l"
  shows "\<exists>m. res = Some (m, Inr (P l)) \<and> log_step l m"
proof -
  from assms(1) obtain m r where r: "res = Some (m, r)" "log_step l m" "case r of Inr b \<Rightarrow> b = P m | Inl e \<Rightarrow> \<not> log_fine l \<or> \<not> known l X"
    unfolding query_post_def by blast
  then have "r = Inr (P l)" using assms(2-4) by (cases r) simp_all
  with r show ?thesis by blast
qed

lemma did_commit_step: "log_step l m \<Longrightarrow> known l X \<Longrightarrow> x \<in> X \<Longrightarrow> did_commit m x = did_commit l x"
  using did_commit_mono did_commit_back by blast

lemma did_abort_step: "log_step l m \<Longrightarrow> known l X \<Longrightarrow> x \<in> X \<Longrightarrow> did_abort m x = did_abort l x"
  using did_abort_mono did_abort_back by blast

lemma TransactionIdDidCommit_gives:
  assumes "log_inv l" and "log_fine l" and "known l X" and "x \<in> X" and "TransactionIdIsValid x"
  shows "\<exists>m. TransactionIdDidCommit l x = Some (m, Inr (did_commit l x)) \<and> log_step l m"
  by (rule query_gives [OF commit_query.run_post [OF assms(1,5,4)] assms(2,3)]) (rule did_commit_step [OF _ assms(3,4)])

lemma TransactionIdDidAbort_gives:
  assumes "log_inv l" and "log_fine l" and "known l X" and "x \<in> X" and "TransactionIdIsValid x"
  shows "\<exists>m. TransactionIdDidAbort l x = Some (m, Inr (did_abort l x)) \<and> log_step l m"
  by (rule query_gives [OF abort_query.run_post [OF assms(1,5,4)] assms(2,3)]) (rule did_abort_step [OF _ assms(3,4)])

section \<open>The scan of a snapshot\<close>

text \<open>Whether the scan looks at the id of a process, and whether it takes the id into the snapshot.\<close>

definition scanned :: "Backend \<Rightarrow> TransactionId \<Rightarrow> nat \<Rightarrow> bool" where
  "scanned b xmax i \<longleftrightarrow> vacuumFlags (allPgXact b i) AND (PROC_IN_LOGICAL_DECODING OR PROC_IN_VACUUM) = 0
     \<and> TransactionIdIsNormal (pgxact_xid (allPgXact b i)) \<and> NormalTransactionIdPrecedes (pgxact_xid (allPgXact b i)) xmax"

definition cached :: "PGXACT \<Rightarrow> TransactionId set" where
  "cached p = subxids_xids p ` {..<nxids p}"

lemma scan_proc_fields:
  "scan_xip (scan_proc b xmax i sc) = scan_xip sc @ (if scanned b xmax i \<and> i \<noteq> MyProcno b then [pgxact_xid (allPgXact b i)] else [])"
  "scan_suboverflowed (scan_proc b xmax i sc) \<longleftrightarrow>
     scan_suboverflowed sc \<or> scanned b xmax i \<and> i \<noteq> MyProcno b \<and> overflowed (allPgXact b i)"
  "set (scan_subxip (scan_proc b xmax i sc)) = set (scan_subxip sc) \<union>
     (if scanned b xmax i \<and> i \<noteq> MyProcno b \<and> \<not> scan_suboverflowed sc \<and> \<not> overflowed (allPgXact b i) then cached (allPgXact b i) else {})"
  "scan_xmin (scan_proc b xmax i sc) =
     (if scanned b xmax i \<and> NormalTransactionIdPrecedes (pgxact_xid (allPgXact b i)) (scan_xmin sc) then pgxact_xid (allPgXact b i) else scan_xmin sc)"
  by (auto simp: scan_proc_def scanned_def Let_def cached_def)

definition taken :: "Backend \<Rightarrow> TransactionId \<Rightarrow> nat set \<Rightarrow> nat set" where
  "taken b xmax I = {i \<in> I. scanned b xmax i \<and> i \<noteq> MyProcno b}"

lemma taken_insert: "taken b xmax (insert i I) = (if scanned b xmax i \<and> i \<noteq> MyProcno b then insert i (taken b xmax I) else taken b xmax I)"
  by (auto simp: taken_def)

lemma scan_content:
  "set (scan_xip (fold (scan_proc b xmax) ps sc)) = set (scan_xip sc) \<union> (\<lambda>i. pgxact_xid (allPgXact b i)) ` taken b xmax (set ps)"
  "scan_suboverflowed (fold (scan_proc b xmax) ps sc) \<longleftrightarrow> scan_suboverflowed sc \<or> (\<exists>i \<in> taken b xmax (set ps). overflowed (allPgXact b i))"
  "\<not> scan_suboverflowed (fold (scan_proc b xmax) ps sc) \<Longrightarrow>
     set (scan_subxip (fold (scan_proc b xmax) ps sc)) = set (scan_subxip sc) \<union> (\<Union>i \<in> taken b xmax (set ps). cached (allPgXact b i))"
proof (induction ps arbitrary: sc)
  case (Cons i ps)
  {
    case 1
    show ?case using Cons.IH(1) [of "scan_proc b xmax i sc"] by (auto simp: scan_proc_fields taken_insert)
  next
    case 2
    show ?case using Cons.IH(2) [of "scan_proc b xmax i sc"] by (auto simp: scan_proc_fields taken_insert)
  next
    case 3
    then have "\<not> scan_suboverflowed (scan_proc b xmax i sc)" using Cons.IH(2) [of "scan_proc b xmax i sc"] by simp
    then have "\<not> scan_suboverflowed sc" "\<not> (scanned b xmax i \<and> i \<noteq> MyProcno b \<and> overflowed (allPgXact b i))"
      by (simp_all add: scan_proc_fields)
    then show ?case using Cons.IH(3) [of "scan_proc b xmax i sc"] 3 by (auto simp: scan_proc_fields taken_insert)
  }
qed (simp_all add: taken_def)

text \<open>The smallest id that was looked at.\<close>

lemma scan_xmin_least:
  assumes "\<And>i. i \<in> set ps \<Longrightarrow> scanned b xmax i \<Longrightarrow> in_window old (pgxact_xid (allPgXact b i))" and "in_window old (scan_xmin sc)"
  shows "in_window old (scan_xmin (fold (scan_proc b xmax) ps sc)) \<and> dist old (scan_xmin (fold (scan_proc b xmax) ps sc)) \<le> dist old (scan_xmin sc)
    \<and> (\<forall>i \<in> set ps. scanned b xmax i \<longrightarrow> dist old (scan_xmin (fold (scan_proc b xmax) ps sc)) \<le> dist old (pgxact_xid (allPgXact b i)))"
  using assms
proof (induction ps arbitrary: sc)
  case (Cons i ps)
  let ?sc = "scan_proc b xmax i sc"
  have w: "in_window old (scan_xmin ?sc)" "dist old (scan_xmin ?sc) \<le> dist old (scan_xmin sc)"
    "scanned b xmax i \<longrightarrow> dist old (scan_xmin ?sc) \<le> dist old (pgxact_xid (allPgXact b i))"
    using Cons.prems(1) [of i] Cons.prems(2) by (auto simp: scan_proc_fields window_simps)
  from Cons.IH [of ?sc] Cons.prems(1) w show ?case by fastforce
qed simp

section \<open>The test against a snapshot\<close>

text \<open>What a query keeps of the backend: only pages and the cached status of the logs change.\<close>

definition backend_step :: "Backend \<Rightarrow> Backend \<Rightarrow> bool" where
  "backend_step b c \<longleftrightarrow> (\<exists>l. c = b\<lparr>trans_log := l\<rparr> \<and> log_step (trans_log b) l)"

lemma backend_step_refl: "log_inv (trans_log b) \<Longrightarrow> backend_step b b"
  unfolding backend_step_def by (rule exI [of _ "trans_log b"]) (simp add: log_step_refl)

lemma backend_step_trans:
  assumes "backend_step b c" and "backend_step c d"
  shows "backend_step b d"
proof -
  from assms obtain l m where "c = b\<lparr>trans_log := l\<rparr>" "d = c\<lparr>trans_log := m\<rparr>" "log_step (trans_log b) l" "log_step (trans_log c) m"
    unfolding backend_step_def by blast
  then have "d = b\<lparr>trans_log := m\<rparr> \<and> log_step (trans_log b) m" using log_step_trans by simp
  then show ?thesis unfolding backend_step_def by blast
qed

lemma backend_stepI: "log_step (trans_log b) l \<Longrightarrow> backend_step b (b\<lparr>trans_log := l\<rparr>)"
  by (auto simp: backend_step_def)

text \<open>What a snapshot says of a transaction, by its content and the recorded families.\<close>

definition in_snapshot :: "TransLog \<Rightarrow> SnapshotData \<Rightarrow> TransactionId \<Rightarrow> bool" where
  "in_snapshot l snap x \<longleftrightarrow>
     (if TransactionIdPrecedes x (snap_xmin snap) then False
      else if \<not> TransactionIdPrecedes x (snap_xmax snap) then True
      else if suboverflowed snap then
        \<exists>t. topmost l x t \<and> \<not> TransactionIdPrecedes t (snap_xmin snap) \<and> t \<in> set (if takenDuringRecovery snap then subxip snap else xip snap)
      else if takenDuringRecovery snap then x \<in> set (subxip snap)
      else x \<in> set (subxip snap) \<or> x \<in> set (xip snap))"

lemma XidInMVCCSnapshot_gives:
  assumes "log_inv (trans_log b)" and "log_fine (trans_log b)" and "known (trans_log b) X" and "x \<in> X" and "TransactionIdIsValid x"
  shows "\<exists>c. XidInMVCCSnapshot b x snap = Some (c, Inr (in_snapshot (trans_log b) snap x)) \<and> backend_step b c"
proof (cases "suboverflowed snap \<and> \<not> TransactionIdPrecedes x (snap_xmin snap) \<and> TransactionIdPrecedes x (snap_xmax snap)")
  case True
  from SubTransGetTopmostTransaction_gives [OF assms] obtain s t where
    t: "SubTransGetTopmostTransaction (SubLog (trans_log b)) (TransactionXmin (trans_log b)) x = Some (s, Inr t)"
    "log_step (trans_log b) ((trans_log b)\<lparr>SubLog := s\<rparr>)" "topmost (trans_log b) x t" by blast
  have top: "(\<exists>u. topmost (trans_log b) x u \<and> P u) \<longleftrightarrow> P t" for P using t(3) topmost_det by blast
  show ?thesis using True t(1) backend_stepI [OF t(2)]
    by (simp add: follows_not_precedes XidInMVCCSnapshot_def snapshot_topmost_def in_snapshot_def top)
next
  case False
  show ?thesis using False backend_step_refl [OF assms(1)]
    by (auto simp: follows_not_precedes XidInMVCCSnapshot_def in_snapshot_def)
qed

section \<open>Running families\<close>

text \<open>
  What the array and pg_subtrans say of one process: \<open>S\<close> are its running subtransactions.  All of them are
  cached unless the cache overflowed, and their parents lead to the main id of the process.
\<close>

definition proc_ok :: "TransactionId \<Rightarrow> TransLog \<Rightarrow> PGXACT \<Rightarrow> TransactionId set \<Rightarrow> bool" where
  "proc_ok old l p S \<longleftrightarrow>
     (if TransactionIdIsValid (pgxact_xid p)
      then in_window old (pgxact_xid p) \<and> (\<not> overflowed p \<longrightarrow> S \<subseteq> cached p)
        \<and> subtrans_parent (SubLog l) (pgxact_xid p) = Some InvalidTransactionId
        \<and> (\<forall>x \<in> S. in_window old x \<and> dist old (pgxact_xid p) < dist old x
             \<and> (\<exists>q \<in> insert (pgxact_xid p) S. subtrans_parent (SubLog l) x = Some q))
      else S = {})"

definition family :: "PGXACT \<Rightarrow> TransactionId set \<Rightarrow> TransactionId set" where
  "family p S = (if TransactionIdIsValid (pgxact_xid p) then insert (pgxact_xid p) S else {})"

lemma family_window: "proc_ok old l p S \<Longrightarrow> x \<in> family p S \<Longrightarrow>
    in_window old (pgxact_xid p) \<and> in_window old x \<and> dist old (pgxact_xid p) \<le> dist old x"
  by (auto simp: proc_ok_def family_def split: if_splits)

lemma topmost_family:
  assumes ok: "proc_ok old l p S" and links: "links_ok l"
    and xmin: "in_window old (TransactionXmin l)" "dist old (TransactionXmin l) \<le> dist old (pgxact_xid p)"
  shows "x \<in> family p S \<Longrightarrow> topmost l x (pgxact_xid p)"
proof (induction "dist old x" arbitrary: x rule: less_induct)
  case less
  show ?case
  proof (cases "x = pgxact_xid p")
    case True
    with ok less.prems show ?thesis by (auto simp: proc_ok_def family_def intro: topmost.top split: if_splits)
  next
    case False
    with ok less.prems obtain q where q: "subtrans_parent (SubLog l) x = Some q" "q \<in> family p S"
      by (auto simp: proc_ok_def family_def split: if_splits)
    note w = family_window [OF ok less.prems] family_window [OF ok q(2)]
    have "TransactionIdPrecedes q x" using links q(1) w in_window_normal unfolding links_ok_def by blast
    then have "dist old q < dist old x" using w by (simp add: in_window_precedes [of old])
    from less.hyps [OF this q(2)] q(1) w xmin show ?thesis
      by (intro topmost.up [of x l q]) (auto simp: in_window_precedes [of old] dest: in_window_normal)
  qed
qed

text \<open>The array as a whole, with \<open>l\<close> the logs in which the families are recorded.  A backend that already
  advertises an xmin has a TransactionXmin that is not after any running transaction.\<close>

definition procs_ok :: "TransactionId \<Rightarrow> (nat \<Rightarrow> TransactionId set) \<Rightarrow> Backend \<Rightarrow> TransLog \<Rightarrow> bool" where
  "procs_ok old subs b l \<longleftrightarrow> TransactionIdIsNormal (latestCompletedXid b) \<and> dist old (latestCompletedXid b) < 2147483636
     \<and> (\<forall>i \<in> set (pgprocnos b). proc_ok old l (allPgXact b i) (subs i))
     \<and> (TransactionIdIsValid (pgxact_xmin (allPgXact b (MyProcno b))) \<longrightarrow>
          in_window old (TransactionXmin (trans_log b))
          \<and> (\<forall>i \<in> set (pgprocnos b). TransactionIdIsValid (pgxact_xid (allPgXact b i)) \<longrightarrow>
               dist old (TransactionXmin (trans_log b)) \<le> dist old (pgxact_xid (allPgXact b i))))"

definition shown :: "Backend \<Rightarrow> nat \<Rightarrow> bool" where
  "shown b i \<longleftrightarrow> i \<in> set (pgprocnos b) \<and> i \<noteq> MyProcno b \<and> vacuumFlags (allPgXact b i) AND (PROC_IN_LOGICAL_DECODING OR PROC_IN_VACUUM) = 0"

lemma procs_ok_scanned:
  assumes "procs_ok old subs b l" and "i \<in> set (pgprocnos b)" and "scanned b xmax i"
  shows "TransactionIdIsValid (pgxact_xid (allPgXact b i))" "in_window old (pgxact_xid (allPgXact b i))"
proof -
  show v: "TransactionIdIsValid (pgxact_xid (allPgXact b i))" using assms(3) by (auto simp: scanned_def xid_defs)
  with assms(1,2) show "in_window old (pgxact_xid (allPgXact b i))" by (auto simp: procs_ok_def proc_ok_def)
qed

definition scan_start :: "TransactionId \<Rightarrow> snapshot_scan" where
  "scan_start xmax = \<lparr>scan_xmin = xmax, scan_globalxmin = xmax, scan_xip = [], scan_subxip = [], scan_suboverflowed = False\<rparr>"

lemma GetSnapshotData_fields:
  fixes b :: Backend
  defines "xmax \<equiv> TransactionIdAdvance (latestCompletedXid b)"
  defines "sc \<equiv> fold (scan_proc b xmax) (pgprocnos b) (scan_start xmax)"
  assumes "GetSnapshotData b = (b', snap)"
  shows "snap_xmax snap = xmax" "snap_xmin snap = scan_xmin sc" "xip snap = scan_xip sc" "subxip snap = scan_subxip sc"
    "suboverflowed snap = scan_suboverflowed sc" "takenDuringRecovery snap = False" "snap_curcid snap = currentCommandId b" "snapshot_type snap = SNAPSHOT_MVCC"
    "TransactionXmin (trans_log b') =
       (if TransactionIdIsValid (pgxact_xmin (allPgXact b (MyProcno b))) then TransactionXmin (trans_log b) else scan_xmin sc)"
    "pgxact_xmin (allPgXact b' (MyProcno b)) =
       (if TransactionIdIsValid (pgxact_xmin (allPgXact b (MyProcno b))) then pgxact_xmin (allPgXact b (MyProcno b)) else scan_xmin sc)"
  using assms(3) unfolding GetSnapshotData_def Let_def scan_start_def [symmetric] xmax_def [symmetric] sc_def [symmetric]
  by (auto simp: upd_pgxact_def)

lemma GetSnapshotData_content:
  assumes ok: "procs_ok old subs b l" and snap: "GetSnapshotData b = (b', snap)"
  defines "T \<equiv> taken b (snap_xmax snap) (set (pgprocnos b))"
  shows "in_window old (snap_xmax snap)" "in_window old (snap_xmin snap)" "in_window old (TransactionXmin (trans_log b'))"
    "takenDuringRecovery snap = False" "set (xip snap) = (\<lambda>i. pgxact_xid (allPgXact b i)) ` T"
    "suboverflowed snap \<longleftrightarrow> (\<exists>i \<in> T. overflowed (allPgXact b i))"
    "\<not> suboverflowed snap \<Longrightarrow> set (subxip snap) = (\<Union>i \<in> T. cached (allPgXact b i))"
    "\<forall>i \<in> T. dist old (snap_xmin snap) \<le> dist old (pgxact_xid (allPgXact b i))
       \<and> dist old (TransactionXmin (trans_log b')) \<le> dist old (pgxact_xid (allPgXact b i))"
    "dist old (snap_xmin snap) \<le> dist old (snap_xmax snap)"
proof -
  note f = GetSnapshotData_fields [OF snap]
  show x: "in_window old (snap_xmax snap)" using ok by (simp add: procs_ok_def f(1) dist_advance(1))
  have start: "in_window old (scan_xmin (scan_start (snap_xmax snap)))" using x by (simp add: scan_start_def)
  from scan_xmin_least [OF procs_ok_scanned(2) [OF ok] start] have "in_window old (snap_xmin snap)
      \<and> dist old (snap_xmin snap) \<le> dist old (scan_xmin (scan_start (snap_xmax snap)))
      \<and> (\<forall>i \<in> set (pgprocnos b). scanned b (snap_xmax snap) i \<longrightarrow> dist old (snap_xmin snap) \<le> dist old (pgxact_xid (allPgXact b i)))"
    by (simp add: f(1,2))
  then have m: "in_window old (snap_xmin snap)" "\<And>i. i \<in> T \<Longrightarrow> dist old (snap_xmin snap) \<le> dist old (pgxact_xid (allPgXact b i))"
    "dist old (snap_xmin snap) \<le> dist old (snap_xmax snap)"
    by (auto simp: T_def taken_def scan_start_def)
  then show "in_window old (snap_xmin snap)" "in_window old (TransactionXmin (trans_log b'))"
    using ok by (auto simp: f(2,9) procs_ok_def)
  have "TransactionIdIsValid (pgxact_xid (allPgXact b i))" if "i \<in> T" for i
    using that procs_ok_scanned(1) [OF ok] by (auto simp: T_def taken_def)
  then show "\<forall>i \<in> T. dist old (snap_xmin snap) \<le> dist old (pgxact_xid (allPgXact b i))
       \<and> dist old (TransactionXmin (trans_log b')) \<le> dist old (pgxact_xid (allPgXact b i))"
    using ok m(2) by (auto simp: f(2,9) procs_ok_def T_def taken_def)
  show "takenDuringRecovery snap = False" "dist old (snap_xmin snap) \<le> dist old (snap_xmax snap)" by (rule f(6), rule m(3))
  show "set (xip snap) = (\<lambda>i. pgxact_xid (allPgXact b i)) ` T" "suboverflowed snap \<longleftrightarrow> (\<exists>i \<in> T. overflowed (allPgXact b i))"
    unfolding T_def f(1,3,5) scan_content(1,2) by (simp_all add: scan_start_def)
  show "\<not> suboverflowed snap \<Longrightarrow> set (subxip snap) = (\<Union>i \<in> T. cached (allPgXact b i))"
    unfolding T_def f(1,4,5) by (subst scan_content(3)) (simp_all add: scan_start_def)
qed

lemma in_snapshot_running:
  assumes ok: "procs_ok old subs b l" and snap: "GetSnapshotData b = (b', snap)"
    and l: "links_ok l" "TransactionXmin l = TransactionXmin (trans_log b')"
    and x: "shown b i" "x \<in> family (allPgXact b i) (subs i)"
  shows "in_snapshot l snap x"
proof -
  let ?p = "allPgXact b i" and ?T = "taken b (snap_xmax snap) (set (pgprocnos b))"
  note c = GetSnapshotData_content [OF ok snap]
  have p: "proc_ok old l ?p (subs i)" using ok x(1) by (simp add: procs_ok_def shown_def)
  note w = family_window [OF p x(2)]
  show ?thesis
  proof (cases "NormalTransactionIdPrecedes (pgxact_xid ?p) (snap_xmax snap)")
    case False
    then have "dist old (snap_xmax snap) \<le> dist old x" using w c(1) by (simp add: in_window_precedes [of old])
    then show ?thesis using w c(1,2,9) by (simp add: in_snapshot_def in_window_precedes [of old])
  next
    case True
    then have i: "i \<in> ?T" using x(1) w in_window_normal by (auto simp: taken_def shown_def scanned_def)
    have young: "\<not> TransactionIdPrecedes x (snap_xmin snap)" "\<not> TransactionIdPrecedes (pgxact_xid ?p) (snap_xmin snap)"
      using c(2,8) w i by (auto simp: in_window_precedes [of old])
    have "topmost l x (pgxact_xid ?p)" using topmost_family [OF p l(1) _ _ x(2)] c(3,8) i by (simp add: l(2))
    moreover have "x \<in> set (subxip snap) \<or> x \<in> set (xip snap)" if "\<not> suboverflowed snap"
      using c(5-7) that p i x(2) by (auto simp: proc_ok_def family_def split: if_splits)
    ultimately show ?thesis using young c(4,5) i by (auto simp: in_snapshot_def)
  qed
qed

lemma in_snapshot_finished:
  assumes ok: "procs_ok old subs b l" and snap: "GetSnapshotData b = (b', snap)" and x: "TransactionIdPrecedes x (snap_xmax snap)"
    "\<And>i. shown b i \<Longrightarrow> x \<noteq> pgxact_xid (allPgXact b i) \<and> x \<notin> cached (allPgXact b i) \<and> \<not> topmost l x (pgxact_xid (allPgXact b i))"
  shows "\<not> in_snapshot l snap x"
proof -
  note c = GetSnapshotData_content [OF ok snap]
  have T: "x \<noteq> pgxact_xid (allPgXact b i) \<and> x \<notin> cached (allPgXact b i) \<and> \<not> topmost l x (pgxact_xid (allPgXact b i))"
    if "i \<in> taken b (snap_xmax snap) (set (pgprocnos b))" for i
    by (rule x(2)) (use that in \<open>auto simp: taken_def shown_def scanned_def\<close>)
  then have "\<not> topmost l x t" if "t \<in> set (xip snap)" for t using that c(5) by auto
  moreover have "x \<notin> set (xip snap)" using T c(5) by auto
  moreover have "x \<notin> set (subxip snap)" if "\<not> suboverflowed snap" using T c(7) [OF that] by auto
  ultimately show ?thesis using c(4) x(1) by (auto simp: in_snapshot_def)
qed

lemma in_snapshot_future:
  assumes "procs_ok old subs b l" and "GetSnapshotData b = (b', snap)" and "in_window old x" and "\<not> TransactionIdPrecedes x (snap_xmax snap)"
  shows "in_snapshot l snap x"
  using GetSnapshotData_content(1,2,9) [OF assms(1,2)] assms(3,4) by (simp add: in_snapshot_def in_window_precedes [of old])

section \<open>Asking for running transactions\<close>

text \<open>The transactions of the other processes.\<close>

definition running :: "(nat \<Rightarrow> TransactionId set) \<Rightarrow> Backend \<Rightarrow> TransactionId \<Rightarrow> bool" where
  "running subs b x \<longleftrightarrow> (\<exists>i \<in> set (pgprocnos b). i \<noteq> MyProcno b \<and> x \<in> family (allPgXact b i) (subs i))"

text \<open>
  What the shortcuts of TransactionIdIsInProgress rely on: the remembered xmin values are not after a
  running transaction, and the log does not call a running transaction finished.
\<close>

definition unfinished :: "TransLog \<Rightarrow> TransactionId \<Rightarrow> bool" where
  "unfinished l x \<longleftrightarrow> (xact_status l x = Some TRANSACTION_STATUS_IN_PROGRESS \<or> xact_status l x = Some TRANSACTION_STATUS_SUB_COMMITTED)
     \<and> \<not> did_abort l x"

lemma unfinished_not_cached:
  assumes "unfinished l x" and "log_inv l" and "TransactionIdIsValid x"
  shows "cachedFetchXid l \<noteq> x"
  using assms by (auto simp: unfinished_def log_inv_def cache_ok_def xact_status_def status_defs TransactionIdIsValid_def split: if_splits)

definition recent_ok :: "TransactionId \<Rightarrow> (nat \<Rightarrow> TransactionId set) \<Rightarrow> Backend \<Rightarrow> bool" where
  "recent_ok old subs b \<longleftrightarrow> in_window old (RecentXmin b) \<and> in_window old (TransactionXmin (trans_log b))
     \<and> (\<forall>i \<in> set (pgprocnos b). proc_ok old (trans_log b) (allPgXact b i) (subs i)
          \<and> (TransactionIdIsValid (pgxact_xid (allPgXact b i)) \<longrightarrow>
               dist old (RecentXmin b) \<le> dist old (pgxact_xid (allPgXact b i))
               \<and> dist old (TransactionXmin (trans_log b)) \<le> dist old (pgxact_xid (allPgXact b i))))
     \<and> (\<forall>x. running subs b x \<longrightarrow> unfinished (trans_log b) x)"

lemma scan_procs_mono: "set xs \<subseteq> set (snd (scan_procs b x ps xs))"
proof (induction ps arbitrary: xs)
  case (Cons i ps)
  show ?case using Cons.IH [of xs] Cons.IH [of "xs @ [pgxact_xid (allPgXact b i)]"] by (auto simp: Let_def)
qed simp

lemma scan_procs_found:
  assumes "i \<in> set ps" and "i \<noteq> MyProcno b" and "TransactionIdIsValid (pgxact_xid (allPgXact b i))"
    and "\<not> TransactionIdPrecedes x (pgxact_xid (allPgXact b i))"
    and "x = pgxact_xid (allPgXact b i) \<or> x \<in> cached (allPgXact b i) \<or> overflowed (allPgXact b i)"
  shows "fst (scan_procs b x ps xs) \<or> x \<noteq> pgxact_xid (allPgXact b i) \<and> pgxact_xid (allPgXact b i) \<in> set (snd (scan_procs b x ps xs))"
  using assms(1)
proof (induction ps arbitrary: xs)
  case (Cons j ps)
  show ?case
  proof (cases "j = i")
    case True
    have "x \<in> cached (allPgXact b i) \<longleftrightarrow> (\<exists>k \<in> {0..<nxids (allPgXact b i)}. subxids_xids (allPgXact b i) k = x)" by (auto simp: cached_def)
    then show ?thesis using True assms(2-5) scan_procs_mono [of "xs @ [pgxact_xid (allPgXact b i)]" b x ps]
      by (auto simp: Let_def list_ex_iff)
  next
    case False
    with Cons.prems have "i \<in> set ps" by simp
    with Cons.IH show ?thesis by (auto simp: Let_def)
  qed
qed simp

lemma TransactionIdIsInProgress_gives:
  assumes inv: "log_inv (trans_log b)" "log_fine (trans_log b)" "known (trans_log b) X" "x \<in> X" "TransactionIdIsValid x"
    and ok: "recent_ok old subs b"
  shows "\<exists>c r. TransactionIdIsInProgress b x = Some (c, Inr r) \<and> backend_step b c \<and> (running subs b x \<longrightarrow> r)"
proof -
  let ?l = "trans_log b"
  have run: "i \<in> set (pgprocnos b) \<Longrightarrow> i \<noteq> MyProcno b \<Longrightarrow> x \<in> family (allPgXact b i) (subs i) \<Longrightarrow>
      proc_ok old ?l (allPgXact b i) (subs i) \<and> TransactionIdIsValid (pgxact_xid (allPgXact b i))
      \<and> \<not> TransactionIdPrecedes x (RecentXmin b) \<and> \<not> TransactionIdPrecedes x (pgxact_xid (allPgXact b i))" for i
    using ok family_window [of old ?l "allPgXact b i" "subs i" x]
    by (auto simp: recent_ok_def in_window_precedes [of old] dest: in_window_normal)
  show ?thesis
  proof (cases "TransactionIdPrecedes x (RecentXmin b) \<or> TransactionIdIsKnownCompleted ?l x \<or> TransactionIdIsCurrentTransactionId b x
      \<or> TransactionIdPrecedes (latestCompletedXid b) x")
    case True
    have "running subs b x \<Longrightarrow> \<not> TransactionIdPrecedes x (RecentXmin b) \<and> \<not> TransactionIdIsKnownCompleted ?l x"
      using run ok unfinished_not_cached [OF _ inv(1,5)] unfolding running_def TransactionIdIsKnownCompleted_def recent_ok_def by metis
    with True show ?thesis using backend_step_refl [OF inv(1)] by (auto simp: TransactionIdIsInProgress_def)
  next
    case slow: False
    obtain f xids where scan: "scan_procs b x (pgprocnos b) [] = (f, xids)" by fastforce
    have found: "f \<or> (\<exists>i \<in> set (pgprocnos b). x \<noteq> pgxact_xid (allPgXact b i) \<and> pgxact_xid (allPgXact b i) \<in> set xids \<and> topmost ?l x (pgxact_xid (allPgXact b i)))"
      if "running subs b x"
    proof -
      from that obtain i where i: "i \<in> set (pgprocnos b)" "i \<noteq> MyProcno b" "x \<in> family (allPgXact b i) (subs i)"
        unfolding running_def by blast
      note r = run [OF i]
      have "x = pgxact_xid (allPgXact b i) \<or> x \<in> cached (allPgXact b i) \<or> overflowed (allPgXact b i)"
        using r i(3) by (auto simp: proc_ok_def family_def)
      moreover have "topmost ?l x (pgxact_xid (allPgXact b i))"
        by (rule topmost_family [of old]) (use r i ok inv(1) in \<open>auto simp: recent_ok_def log_inv_def\<close>)
      ultimately show ?thesis using scan_procs_found [OF i(1,2), of x "[]"] r i(1) by (auto simp: scan)
    qed
    consider (found) "f" | (none) "\<not> f" "xids = []" | (lookup) "\<not> f" "xids \<noteq> []" by blast
    then show ?thesis
    proof cases
      case lookup
      from TransactionIdDidAbort_gives [OF inv] obtain l where
        l: "TransactionIdDidAbort ?l x = Some (l, Inr (did_abort ?l x))" "log_step ?l l" by blast
      note l' = log_step_known [OF l(2) inv(3)] log_step_fine [OF l(2) inv(2)]
      have "log_inv l" using l(2) by (simp add: log_step_def)
      from SubTransGetTopmostTransaction_gives [OF this l'(2,1) inv(4,5)] obtain s t where
        t: "SubTransGetTopmostTransaction (SubLog l) (TransactionXmin l) x = Some (s, Inr t)" "log_step l (l\<lparr>SubLog := s\<rparr>)" "topmost l x t" by blast
      have "t \<noteq> x \<and> t \<in> set xids \<and> \<not> did_abort ?l x" if "running subs b x"
        using found [OF that] lookup(1) topmost_step [OF _ l(2)] topmost_det [OF t(3)] that ok unfolding recent_ok_def unfinished_def by metis
      then show ?thesis using slow scan lookup l t backend_stepI [OF l(2)] backend_stepI [OF log_step_trans [OF l(2) t(2)]]
        by (cases "did_abort ?l x"; cases xids) (auto simp: TransactionIdIsInProgress_def)
    qed (use slow scan found backend_step_refl [OF inv(1)] in \<open>auto simp: TransactionIdIsInProgress_def split: list.splits\<close>)
  qed
qed

section \<open>Later states of the logs\<close>

lemma in_snapshot_step:
  assumes "log_inv l" and "log_fine l" and "known l X" and "x \<in> X" and "TransactionIdIsValid x" and "log_step l m"
  shows "in_snapshot m snap x = in_snapshot l snap x"
proof -
  obtain t where t: "topmost l x t" using SubTransGetTopmostTransaction_gives [OF assms(1-5)] by blast
  have "topmost m x u = topmost l x u" for u using t topmost_step [OF _ assms(6)] topmost_det [of m x] topmost_det [of l x] by metis
  then show ?thesis by (simp add: in_snapshot_def)
qed

lemma proc_ok_step: "proc_ok old l p S \<Longrightarrow> log_step l m \<Longrightarrow> proc_ok old m p S"
  using log_step_parent [of l m] by (auto simp: proc_ok_def split: if_splits)

lemma backend_step_same:
  assumes "backend_step b c"
  shows "running subs c = running subs b" "TransactionIdIsCurrentTransactionId c = TransactionIdIsCurrentTransactionId b"
  using assms by (auto simp: backend_step_def running_def TransactionIdIsCurrentTransactionId_def fun_eq_iff)

lemma unfinished_step: "unfinished l x \<Longrightarrow> log_step l m \<Longrightarrow> known l X \<Longrightarrow> x \<in> X \<Longrightarrow> unfinished m x"
  using log_step_status [of l m x] did_abort_step [of l m X x] by (auto simp: unfinished_def)

lemma recent_ok_step:
  assumes ok: "recent_ok old subs b" and step: "backend_step b c" and known: "known (trans_log b) X" and X: "\<And>x. running subs b x \<Longrightarrow> x \<in> X"
  shows "recent_ok old subs c"
proof -
  have run: "running subs c = running subs b" using backend_step_same(1) [OF step] .
  from step obtain l where c: "c = b\<lparr>trans_log := l\<rparr>" and l: "log_step (trans_log b) l" unfolding backend_step_def by blast
  have "TransactionXmin l = TransactionXmin (trans_log b)" using l by (simp add: log_step_def)
  moreover have "unfinished l x" if "running subs b x" for x
    using ok that unfinished_step [OF _ l known X [OF that]] by (simp add: recent_ok_def)
  ultimately show ?thesis using ok run proc_ok_step [OF _ l] unfolding recent_ok_def by (simp add: c)
qed

section \<open>Properties\<close>

text \<open>C3. A snapshot separates running from finished transactions, also for every later test against it.
  Let the running subtransactions of each process be cached or its cache be marked overflowed, and let
  pg_subtrans lead from them to the id of the process.  Then for each transaction that the logs know,
  XidInMVCCSnapshot ends without an error and without changing more than log buffers; it says True
  for every transaction, at any depth of nesting, that was running in another process when
  GetSnapshotData looked, unless that process was in a lazy vacuum or decoding, and for every id not
  yet assigned then, and False for every older transaction that belongs to no such process.\<close>

theorem snapshot_separates:
  assumes ok: "procs_ok old subs b (trans_log c)" and snap: "GetSnapshotData b = (b', snap)"
    and xmin: "TransactionXmin (trans_log c) = TransactionXmin (trans_log b')"
    and inv: "log_inv (trans_log c)" "log_fine (trans_log c)" "known (trans_log c) X" "x \<in> X" "in_window old x"
  shows "\<exists>c' r. XidInMVCCSnapshot c x snap = Some (c', Inr r) \<and> backend_step c c'
    \<and> ((\<exists>i. shown b i \<and> x \<in> family (allPgXact b i) (subs i)) \<longrightarrow> r)
    \<and> (\<not> TransactionIdPrecedes x (snap_xmax snap) \<longrightarrow> r)
    \<and> (TransactionIdPrecedes x (snap_xmax snap)
         \<and> (\<forall>i. shown b i \<longrightarrow> x \<noteq> pgxact_xid (allPgXact b i) \<and> x \<notin> cached (allPgXact b i)
                  \<and> \<not> topmost (trans_log c) x (pgxact_xid (allPgXact b i))) \<longrightarrow> \<not> r)"
proof -
  have valid: "TransactionIdIsValid x" and links: "links_ok (trans_log c)" using inv(1,5) by (auto simp: log_inv_def dest: in_window_normal)
  from XidInMVCCSnapshot_gives [OF inv(1-4) valid, of snap] obtain c' where
    c': "XidInMVCCSnapshot c x snap = Some (c', Inr (in_snapshot (trans_log c) snap x))" "backend_step c c'" by blast
  show ?thesis
    by (intro exI [of _ c'] exI [of _ "in_snapshot (trans_log c) snap x"] conjI impI c')
      (use in_snapshot_running [OF ok snap links xmin] in_snapshot_future [OF ok snap inv(5)] in_snapshot_finished [OF ok snap] in blast)+
qed

text \<open>A process that runs transaction 5 with the uncached subtransaction 7, seen by another process.\<close>

definition small_backend :: "TransLog \<Rightarrow> Backend" where
  "small_backend l =
     \<lparr>pgprocnos = [0, 1], maxProcs = 4,
      allPgXact = (\<lambda>i. \<lparr>pgxact_xid = (if i = 1 then 5 else InvalidTransactionId), pgxact_xmin = InvalidTransactionId,
        vacuumFlags = 0, overflowed = (i = 1), nxids = 0, subxids_xids = (\<lambda>_. InvalidTransactionId)\<rparr>),
      proc_databaseId = (\<lambda>_. 1), proc_pid = (\<lambda>i. i + 100), replication_slot_xmin = InvalidTransactionId,
      replication_slot_catalog_xmin = InvalidTransactionId, latestCompletedXid = 8, MyProcno = 0, MyDatabaseId = 1,
      RecentXmin = 4, RecentGlobalXmin = 4, RecentGlobalDataXmin = 4, CurrentTransactionState = [], ParallelCurrentXids = [],
      currentCommandId = 0, vacuum_defer_cleanup_age = 0, trans_log = l\<rparr>"

lemma small_backend_ok:
  assumes "SubLog l = small_subtrans"
  shows "procs_ok 3 (\<lambda>i. if i = 1 then {7} else {}) (small_backend m) l"
  using assms by (auto simp: procs_ok_def proc_ok_def small_backend_def in_window_def dist_def xid_defs small_subtrans(3) small_log_pages)

lemma small_backend_snapshot: "\<exists>c snap. GetSnapshotData (small_backend l) = (c, snap) \<and> trans_log c = l\<lparr>TransactionXmin := 5\<rparr>"
  by (simp add: GetSnapshotData_def small_backend_def scan_proc_def upd_pgxact_def xid_defs TransactionIdAdvance_def NormalTransactionIdPrecedes_def Let_def)

theorem snapshot_separates_witness:
  "\<exists>c snap c'. GetSnapshotData (small_backend (small_log zeroes)) = (c, snap) \<and> XidInMVCCSnapshot c 7 snap = Some (c', Inr True)"
proof -
  let ?b = "small_backend (small_log zeroes)" and ?subs = "\<lambda>i::nat. if i = 1 then {7} else {} :: TransactionId set"
  from small_backend_snapshot [of "small_log zeroes"] obtain c snap where
    c: "GetSnapshotData ?b = (c, snap)" "trans_log c = (small_log zeroes)\<lparr>TransactionXmin := 5\<rparr>" by blast
  have sub: "SubLog (trans_log c) = small_subtrans" by (simp add: c(2) small_log_pages)
  have inv: "log_inv (trans_log c)" "log_fine (trans_log c)"
    using small_log(1,2) [of zeroes] by (simp_all add: c(2) log_inv_def log_fine_def links_ok_def cache_ok_def xid_defs)
  have "xact_status (trans_log c) x = xact_status (small_log zeroes) x" for x by (simp add: c(2) xact_status_def)
  then have "known (trans_log c) {5, 7}" using small_log_tree by (auto simp: known_def sub small_subtrans(3) small_log_pages xid_defs)
  moreover have "in_window 3 7" by (simp add: in_window_def dist_def xid_defs)
  moreover have "shown ?b 1 \<and> 7 \<in> family (allPgXact ?b 1) (?subs 1)" by (simp add: shown_def family_def small_backend_def xid_defs)
  ultimately obtain c' where "XidInMVCCSnapshot c 7 snap = Some (c', Inr True)"
    using snapshot_separates [OF small_backend_ok [OF sub] c(1) refl inv, of "{5, 7}" 7] by auto
  with c(1) show ?thesis by blast
qed

end
