(* ===== verification/ProcArrayOps.thy ===== *)
theory ProcArrayOps
  imports ProcArray
begin

text \<open>
  The operations of the process array keep it well-formed: a step relation over the operations of theory
  ProcArray and the advertising of new ids of theory Varsup, with the running subtransactions of each
  process as ghost state.  The cache of subtransactions stays complete or marked overflowed, on which
  the theorem on snapshots in theory ProcArray relies.
\<close>

section \<open>Well-formed entries\<close>

definition pgxact_wf :: "PGXACT \<Rightarrow> TransactionId set \<Rightarrow> bool" where
  "pgxact_wf p S \<longleftrightarrow> (TransactionIdIsValid (pgxact_xid p) \<longrightarrow> TransactionIdIsNormal (pgxact_xid p))
     \<and> (TransactionIdIsValid (pgxact_xmin p) \<longrightarrow> TransactionIdIsNormal (pgxact_xmin p))
     \<and> nxids p \<le> PGPROC_MAX_CACHED_SUBXIDS \<and> inj_on (subxids_xids p) {..<nxids p} \<and> cached p \<subseteq> S
     \<and> (\<not> overflowed p \<longrightarrow> cached p = S) \<and> (\<forall>x \<in> S. TransactionIdIsNormal x)
     \<and> (\<not> TransactionIdIsValid (pgxact_xid p) \<longrightarrow> S = {} \<and> \<not> overflowed p)"

definition array_wf :: "(nat \<Rightarrow> TransactionId set) \<Rightarrow> Backend \<Rightarrow> bool" where
  "array_wf subs b \<longleftrightarrow> sorted_wrt (<) (pgprocnos b) \<and> length (pgprocnos b) \<le> maxProcs b
     \<and> TransactionIdIsNormal (latestCompletedXid b) \<and> (\<forall>i. pgxact_wf (allPgXact b i) (subs i))"

lemma pgxact_wf_clear: "pgxact_wf (clear_pgxact p) {}"
  by (simp add: pgxact_wf_def clear_pgxact_def cached_def xid_defs)

lemma pgxact_wf_xmin: "pgxact_wf p S \<Longrightarrow> (TransactionIdIsValid x \<longrightarrow> TransactionIdIsNormal x) \<Longrightarrow> pgxact_wf (p\<lparr>pgxact_xmin := x\<rparr>) S"
  by (simp add: pgxact_wf_def cached_def)

lemma pgxact_wf_flags: "pgxact_wf p S \<Longrightarrow> pgxact_wf (p\<lparr>vacuumFlags := f\<rparr>) S"
  by (simp add: pgxact_wf_def cached_def)

lemma pgxact_wf_advertise:
  assumes "pgxact_wf p S" and "TransactionIdIsNormal x" and "x \<notin> S" and "sub = TransactionIdIsValid (pgxact_xid p)"
  shows "pgxact_wf (advertise_xid p x sub) (if sub then insert x S else S)"
proof -
  have "inj_on ((subxids_xids p)(nxids p := x)) {..<Suc (nxids p)}"
    using assms(1,3) by (auto simp: pgxact_wf_def cached_def inj_on_def lessThan_Suc)
  moreover have "cached (p\<lparr>subxids_xids := (subxids_xids p)(nxids p := x), nxids := nxids p + 1\<rparr>) = insert x (cached p)"
    by (auto simp: cached_def lessThan_Suc)
  moreover have "cached (p\<lparr>pgxact_xid := x\<rparr>) = cached p" "cached (p\<lparr>overflowed := True\<rparr>) = cached p" by (simp_all add: cached_def)
  moreover have "TransactionIdIsValid x" using assms(2) by (auto simp: xid_defs)
  ultimately show ?thesis using assms by (auto simp: pgxact_wf_def advertise_xid_def)
qed

section \<open>Removing subtransactions from the cache\<close>

lemma XidCacheRemove_cached:
  assumes inj: "inj_on (subxids_xids p) {..<nxids p}" and j: "j < nxids p"
  shows "cached (XidCacheRemove p j) = cached p - {subxids_xids p j}" "inj_on (subxids_xids (XidCacheRemove p j)) {..<nxids (XidCacheRemove p j)}"
proof -
  let ?f = "subxids_xids p" and ?n = "nxids p"
  have eq: "?f k = ?f m \<longleftrightarrow> k = m" if "k < ?n" "m < ?n" for k m using inj_on_eq_iff [OF inj] that by simp
  show "inj_on (subxids_xids (XidCacheRemove p j)) {..<nxids (XidCacheRemove p j)}"
    using j by (auto simp: XidCacheRemove_def inj_on_def eq split: if_splits)
  show "cached (XidCacheRemove p j) = cached p - {?f j}"
  proof (intro equalityI subsetI)
    fix x assume "x \<in> cached (XidCacheRemove p j)"
    then obtain k where k: "k < ?n - 1" "x = (if k = j then ?f (?n - 1) else ?f k)" by (auto simp: cached_def XidCacheRemove_def)
    then show "x \<in> cached p - {?f j}" using j eq [of "?n - 1" j] eq [of k j] by (auto simp: cached_def)
  next
    fix x assume "x \<in> cached p - {?f j}"
    then obtain k where k: "k < ?n" "x = ?f k" "k \<noteq> j" by (auto simp: cached_def)
    have "(if k = ?n - 1 then j else k) < ?n - 1 \<and> x = (if (if k = ?n - 1 then j else k) = j then ?f (?n - 1) else ?f (if k = ?n - 1 then j else k))"
      using k j by auto
    then show "x \<in> cached (XidCacheRemove p j)" unfolding cached_def XidCacheRemove_def by (auto split: if_splits)
  qed
qed

lemma remove_subxid_fields:
  "pgxact_xid (remove_subxid x p) = pgxact_xid p" "pgxact_xmin (remove_subxid x p) = pgxact_xmin p" "overflowed (remove_subxid x p) = overflowed p"
  "nxids (remove_subxid x p) \<le> nxids p"
  by (auto simp: remove_subxid_def XidCacheRemove_def split: option.splits)

lemma find_Some_member: "List.find P xs = Some x \<Longrightarrow> P x \<and> x \<in> set xs"
  by (induction xs) (auto split: if_splits)

lemma remove_subxid_cached:
  assumes "inj_on (subxids_xids p) {..<nxids p}"
  shows "cached (remove_subxid x p) = cached p - {x}" "inj_on (subxids_xids (remove_subxid x p)) {..<nxids (remove_subxid x p)}"
proof -
  have "x \<notin> cached p" if "List.find (\<lambda>j. subxids_xids p j = x) (rev [0..<nxids p]) = None"
    using that by (auto simp: cached_def find_None_iff)
  moreover have "j < nxids p \<and> subxids_xids p j = x" if "List.find (\<lambda>j. subxids_xids p j = x) (rev [0..<nxids p]) = Some j" for j
    using find_Some_member [OF that] by simp
  ultimately show "cached (remove_subxid x p) = cached p - {x}" "inj_on (subxids_xids (remove_subxid x p)) {..<nxids (remove_subxid x p)}"
    using assms XidCacheRemove_cached [OF assms] by (auto simp: remove_subxid_def split: option.splits)
qed

lemma pgxact_wf_remove: "pgxact_wf p S \<Longrightarrow> pgxact_wf (remove_subxid x p) (S - {x})"
  using remove_subxid_fields [of x p] remove_subxid_cached [of p x] by (auto simp: pgxact_wf_def)

lemma pgxact_wf_removes: "pgxact_wf p S \<Longrightarrow> pgxact_wf (fold remove_subxid xs p) (S - set xs)"
proof (induction xs arbitrary: p S)
  case (Cons x xs)
  have "S - {x} - set xs = S - set (x # xs)" by auto
  with Cons.IH [OF pgxact_wf_remove [OF Cons.prems, of x]] show ?case by simp
qed simp

section \<open>Steps of the array\<close>

text \<open>
  Each rule is one call, under what its Asserts and its callers guarantee: a process added is new and
  has no transaction, a new id is fresh, subtransactions get ids after their main transaction, and a
  transaction without an id ends with an invalid latest id.
\<close>

inductive array_step :: "(nat \<Rightarrow> TransactionId set) \<times> Backend \<Rightarrow> (nat \<Rightarrow> TransactionId set) \<times> Backend \<Rightarrow> bool" where
  add: "i \<notin> set (pgprocnos b) \<Longrightarrow> ProcArrayAdd b i = (c, r) \<Longrightarrow> array_step (subs, b) (subs, c)"
| remove: "TransactionIdIsValid x \<longrightarrow> TransactionIdIsNormal x \<Longrightarrow> array_step (subs, b) (subs, ProcArrayRemove b i x)"
| assign: "TransactionIdIsNormal x \<Longrightarrow> x \<notin> subs i \<Longrightarrow> isSub = TransactionIdIsValid (pgxact_xid (allPgXact b i)) \<Longrightarrow>
    array_step (subs, b) (if isSub then subs(i := insert x (subs i)) else subs, upd_pgxact b i (advertise_xid (allPgXact b i) x isSub))"
| finish: "TransactionIdIsValid x = TransactionIdIsValid (pgxact_xid (allPgXact b i)) \<Longrightarrow> TransactionIdIsValid x \<longrightarrow> TransactionIdIsNormal x \<Longrightarrow>
    array_step (subs, b) (subs(i := {}), ProcArrayEndTransaction b i x)"
| clear: "array_step (subs, b) (subs(i := {}), ProcArrayClearTransaction b i)"
| abort_subs: "TransactionIdIsNormal latest \<Longrightarrow>
    array_step (subs, b) (subs(MyProcno b := subs (MyProcno b) - insert x (set xs)), XidCacheRemoveRunningXids b x xs latest)"
| restore: "TransactionIdIsNormal x \<Longrightarrow> ProcArrayInstallRestoredXmin b x i = (c, r) \<Longrightarrow> array_step (subs, b) (subs, c)"
| slots: "array_step (subs, b) (subs, ProcArraySetReplicationSlotXmin b x y)"
| snapshot: "GetSnapshotData b = (c, snap) \<Longrightarrow> array_step (subs, b) (subs, c)"
| switch: "array_step (subs, b) (subs, b\<lparr>MyProcno := i\<rparr>)"

lemma sorted_insert_at:
  assumes "sorted_wrt (<) xs" and "(i::nat) \<notin> set xs"
  shows "sorted_wrt (<) (takeWhile (\<lambda>k. \<not> k > i) xs @ i # dropWhile (\<lambda>k. \<not> k > i) xs)"
  using assms
proof (induction xs)
  case (Cons k xs)
  then show ?case by (auto simp: not_less le_less dest: set_takeWhileD set_dropWhileD intro: less_trans)
qed simp

lemma length_insert_at: "length (takeWhile P xs @ i # dropWhile P xs) = Suc (length xs)"
  by (induction xs) auto

lemma wf_update: "array_wf subs b \<Longrightarrow> pgxact_wf p S \<Longrightarrow> array_wf (subs(i := S)) (upd_pgxact b i p)"
  by (simp add: array_wf_def upd_pgxact_def)

lemma wf_latest: "array_wf subs b \<Longrightarrow> TransactionIdIsNormal x \<Longrightarrow> array_wf subs (advance_latest b x)"
  by (simp add: array_wf_def advance_latest_def)

lemma wf_entry: "array_wf subs b \<Longrightarrow> pgxact_wf (allPgXact b i) (subs i)"
  by (simp add: array_wf_def)

lemma sorted_remove1: "sorted_wrt (<) xs \<Longrightarrow> sorted_wrt (<) (remove1 (i::nat) xs)"
  by (induction xs) (auto dest: notin_set_remove1)

lemma scan_xmin_normal: "TransactionIdIsNormal (scan_xmin sc) \<Longrightarrow> TransactionIdIsNormal (scan_xmin (fold (scan_proc b xmax) ps sc))"
  by (induction ps arbitrary: sc) (simp_all add: scan_proc_fields scanned_def)

lemma GetSnapshotData_array:
  assumes "GetSnapshotData b = (c, snap)"
  shows "pgprocnos c = pgprocnos b \<and> maxProcs c = maxProcs b \<and> latestCompletedXid c = latestCompletedXid b
    \<and> allPgXact c = (if TransactionIdIsValid (pgxact_xmin (allPgXact b (MyProcno b))) then allPgXact b
        else (allPgXact b)(MyProcno b := (allPgXact b (MyProcno b))\<lparr>pgxact_xmin := snap_xmin snap\<rparr>))"
  using assms by (auto simp: GetSnapshotData_def Let_def upd_pgxact_def)

lemma GetSnapshotData_wf:
  assumes wf: "array_wf subs b" and snap: "GetSnapshotData b = (c, snap)"
  shows "array_wf subs c"
proof -
  have "TransactionIdIsNormal (snap_xmin snap)"
    unfolding GetSnapshotData_fields(2) [OF snap] by (rule scan_xmin_normal) (simp add: scan_start_def TransactionIdAdvance_normal)
  then show ?thesis using wf GetSnapshotData_array [OF snap] pgxact_wf_xmin [OF wf_entry [OF wf, of "MyProcno b"], of "snap_xmin snap"]
    by (auto simp: array_wf_def)
qed

lemma ProcArrayEndTransaction_wf:
  assumes wf: "array_wf subs b" and x: "TransactionIdIsValid x = TransactionIdIsValid (pgxact_xid (allPgXact b i))"
    "TransactionIdIsValid x \<longrightarrow> TransactionIdIsNormal x"
  shows "array_wf (subs(i := {})) (ProcArrayEndTransaction b i x)"
proof (cases "TransactionIdIsValid x")
  case True
  then show ?thesis using x(2) wf_latest [OF wf_update [OF wf pgxact_wf_clear]]
    by (simp add: ProcArrayEndTransaction_def ProcArrayEndTransactionInternal_def)
next
  case False
  then have S: "subs i = {}" using wf_entry [OF wf, of i] x(1) by (simp add: pgxact_wf_def)
  have "pgxact_wf ((allPgXact b i)\<lparr>pgxact_xmin := InvalidTransactionId, vacuumFlags := f\<rparr>) (subs i)" for f
    by (intro pgxact_wf_flags pgxact_wf_xmin wf_entry [OF wf]) (simp add: TransactionIdIsValid_def)
  with False S wf_update [OF wf] show ?thesis by (simp add: ProcArrayEndTransaction_def Let_def)
qed

lemma array_step_wf: "array_step s t \<Longrightarrow> array_wf (fst s) (snd s) \<Longrightarrow> array_wf (fst t) (snd t)"
proof (induction rule: array_step.induct)
  case (add i b c r subs)
  then show ?case using sorted_insert_at [of "pgprocnos b" i] length_insert_at [of "\<lambda>k. \<not> k > i" "pgprocnos b" i]
    by (auto simp: ProcArrayAdd_def array_wf_def simp del: length_append split: if_splits)
next
  case (remove x subs b i)
  then show ?case using sorted_remove1 [of "pgprocnos b" i]
    by (auto simp: ProcArrayRemove_def array_wf_def advance_latest_def length_remove1 Let_def)
next
  case (assign x subs i isSub b)
  then have wf: "array_wf subs b" by simp
  have "array_wf (subs(i := if isSub then insert x (subs i) else subs i)) (upd_pgxact b i (advertise_xid (allPgXact b i) x isSub))"
    by (rule wf_update [OF wf pgxact_wf_advertise [OF wf_entry [OF wf] assign.hyps]])
  then show ?case by (cases isSub) (simp_all only: if_True if_False fst_conv snd_conv fun_upd_triv)
next
  case (finish x b i subs)
  from ProcArrayEndTransaction_wf [OF _ this(1,2)] this(3) show ?case by (simp only: fst_conv snd_conv)
next
  case (clear subs b i)
  from wf_update [OF _ pgxact_wf_clear] this show ?case by (simp only: fst_conv snd_conv ProcArrayClearTransaction_def)
next
  case (abort_subs latest subs b x xs)
  have "subs (MyProcno b) - set (rev xs) - {x} = subs (MyProcno b) - insert x (set xs)" by auto
  moreover have wf: "array_wf subs b" using abort_subs by simp
  moreover have "array_wf (subs(MyProcno b := subs (MyProcno b) - set (rev xs) - {x}))
      (advance_latest (upd_pgxact b (MyProcno b) (remove_subxid x (fold remove_subxid (rev xs) (allPgXact b (MyProcno b))))) latest)"
    by (rule wf_latest [OF wf_update [OF wf pgxact_wf_remove [OF pgxact_wf_removes [OF wf_entry [OF wf]]]] abort_subs.hyps])
  ultimately show ?case by (simp only: fst_conv snd_conv XidCacheRemoveRunningXids_def Let_def)
next
  case (restore x b i c r subs)
  then show ?case using pgxact_wf_xmin [OF wf_entry, of subs b x "MyProcno b"]
    by (auto simp: ProcArrayInstallRestoredXmin_def array_wf_def upd_pgxact_def Let_def split: if_splits)
next
  case (snapshot b c snap subs)
  then show ?case using GetSnapshotData_wf by simp
qed (simp_all add: array_wf_def ProcArraySetReplicationSlotXmin_def)

section \<open>Properties\<close>

text \<open>C9. The process array stays well-formed under every sequence of its operations and of assigned ids, by
  any process: the array is strictly ordered and not longer than allowed, ids and xmin values are
  invalid or normal, no cache holds more than 64 subtransactions or one twice, the cache holds only
  running subtransactions and, unless it is marked overflowed, all of them, and a process without a
  transaction has none.  Aborting subtransactions, whatever their place in the cache, and ending
  transactions take exactly the finished ones out.\<close>

theorem procarray_well_formed:
  assumes "array_step\<^sup>*\<^sup>* (subs, b) (subs', b')" and "array_wf subs b"
  shows "array_wf subs' b'"
proof -
  have "array_wf (fst t) (snd t)" if "array_step\<^sup>*\<^sup>* s t" "array_wf (fst s) (snd s)" for s t
    using that by (induction rule: rtranclp_induct) (auto dest: array_step_wf)
  from this [OF assms(1)] assms(2) show ?thesis by simp
qed

text \<open>Process 0 starts transaction 9; then process 1 commits transaction 5 with its uncached subtransaction 7.\<close>

theorem procarray_well_formed_witness:
  "\<exists>subs b. array_step\<^sup>*\<^sup>* (\<lambda>i. if i = 1 then {7} else {}, small_backend (small_log zeroes)) (subs, b) \<and> array_wf subs b
    \<and> pgxact_xid (allPgXact b 0) = 9 \<and> pgxact_xid (allPgXact b 1) = InvalidTransactionId \<and> latestCompletedXid b = 8"
proof -
  let ?S = "\<lambda>i::nat. if i = 1 then {7} else {} :: TransactionId set" and ?b = "small_backend (small_log zeroes)"
  let ?c = "upd_pgxact ?b 0 (advertise_xid (allPgXact ?b 0) 9 False)"
  note defs = upd_pgxact_def advertise_xid_def xid_defs small_backend_def
  have "array_step (?S, ?b) (?S, ?c)"
    by (rule array_step.assign [of 9 ?S 0 False ?b, unfolded if_False]) (simp_all add: defs)
  moreover have "array_step (?S, ?c) (?S(1 := {}), ProcArrayEndTransaction ?c 1 7)"
    by (rule array_step.finish) (simp_all add: defs)
  ultimately have run: "array_step\<^sup>*\<^sup>* (?S, ?b) (?S(1 := {}), ProcArrayEndTransaction ?c 1 7)"
    by (rule converse_rtranclp_into_rtranclp [OF _ r_into_rtranclp])
  have "array_wf ?S ?b" by (simp add: array_wf_def pgxact_wf_def small_backend_def cached_def xid_defs)
  note wf = procarray_well_formed [OF run this]
  show ?thesis
    by (intro exI conjI, rule run, rule wf)
      (simp_all add: defs ProcArrayEndTransaction_def ProcArrayEndTransactionInternal_def clear_pgxact_def advance_latest_def TransactionIdPrecedes_def)
qed

end
