(* ===== verification/FsmPage.thy ===== *)
theory FsmPage
  imports Prelude
begin

text \<open>
  One page of the free space map, \<open>src/backend/storage/freespace/fsmpage.c\<close> and
  \<open>src/include/storage/fsm_internals.h\<close>: a binary tree of bytes stored in an array in which every
  upper node is meant to hold the maximum of its children.  The array \<open>fp_nodes\<close> is a function from
  node numbers to bytes, of which the code uses the numbers below \<open>NodesPerPage\<close>.  The lemmas show
  that setting a slot keeps the tree consistent, that a search on a consistent page finds a slot
  exactly when there is one, and that a search on a torn page repairs it and ends.
\<close>

section \<open>Layout\<close>

text \<open>\<open>MAXALIGN(SizeOfPageHeaderData)\<close> is 24 and \<open>fp_nodes\<close> starts 4 bytes into the contents.\<close>

definition NodesPerPage :: nat where
  "NodesPerPage = BLCKSZ - 24 - 4"

definition NonLeafNodesPerPage :: nat where
  "NonLeafNodesPerPage = BLCKSZ div 2 - 1"

definition LeafNodesPerPage :: nat where
  "LeafNodesPerPage = NodesPerPage - NonLeafNodesPerPage"

lemmas layout_defs = BLCKSZ_def NodesPerPage_def NonLeafNodesPerPage_def LeafNodesPerPage_def

type_synonym fsm_nodes = "nat \<Rightarrow> uint8"

record FSMPageData =
  fp_next_slot :: int
  fp_nodes :: fsm_nodes

definition leftchild :: "nat \<Rightarrow> nat" where
  "leftchild x = 2 * x + 1"

definition rightchild :: "nat \<Rightarrow> nat" where
  "rightchild x = 2 * x + 2"

definition parentof :: "nat \<Rightarrow> nat" where
  "parentof x = (x - 1) div 2"

definition rightneighbor :: "nat \<Rightarrow> nat" where
  "rightneighbor x =
     (let x = x + 1
      in if (x + 1) AND x = 0 then parentof x else x)"

section \<open>Rebuilding\<close>

text \<open>The value fsm_rebuild_page gives to an upper node.\<close>

definition children_max :: "fsm_nodes \<Rightarrow> nat \<Rightarrow> uint8" where
  "children_max nodes nodeno =
     (let lchild = leftchild nodeno;
          rchild = lchild + 1;
          newvalue = 0;
          newvalue = (if lchild < NodesPerPage then nodes lchild else newvalue)
      in if rchild < NodesPerPage then max newvalue (nodes rchild) else newvalue)"

definition rebuild_node :: "nat \<Rightarrow> fsm_nodes \<times> bool \<Rightarrow> fsm_nodes \<times> bool" where
  "rebuild_node nodeno st =
     (let (nodes, changed) = st; newvalue = children_max nodes nodeno
      in if nodes nodeno \<noteq> newvalue then (nodes(nodeno := newvalue), True) else (nodes, changed))"

definition fsm_rebuild_page :: "FSMPageData \<Rightarrow> FSMPageData \<times> bool" where
  "fsm_rebuild_page page =
     (let (nodes, changed) = fold rebuild_node (rev [0..<NonLeafNodesPerPage]) (fp_nodes page, False)
      in (page\<lparr>fp_nodes := nodes\<rparr>, changed))"

section \<open>Setting and reading slots\<close>

lemma parentof_less: "0 < x \<Longrightarrow> parentof x < x"
  by (auto simp: parentof_def)

text \<open>The \<open>do ... while (nodeno > 0)\<close> loop of fsm_set_avail.\<close>

function set_avail_loop :: "fsm_nodes \<Rightarrow> nat \<Rightarrow> fsm_nodes" where
  "set_avail_loop nodes nodeno =
     (let nodeno = parentof nodeno;
          lchild = leftchild nodeno;
          rchild = lchild + 1;
          newvalue = nodes lchild;
          newvalue = (if rchild < NodesPerPage then max newvalue (nodes rchild) else newvalue);
          oldvalue = nodes nodeno
      in if oldvalue = newvalue then nodes
         else let nodes = nodes(nodeno := newvalue)
              in if nodeno > 0 then set_avail_loop nodes nodeno else nodes)"
  by pat_completeness auto
termination
  by (relation "measure snd") (auto simp: parentof_def)

declare set_avail_loop.simps [simp del]

definition fsm_set_avail :: "FSMPageData \<Rightarrow> nat \<Rightarrow> uint8 \<Rightarrow> FSMPageData \<times> bool" where
  "fsm_set_avail page slot value =
     (let nodeno = NonLeafNodesPerPage + slot;
          oldvalue = fp_nodes page nodeno
      in if oldvalue = value \<and> value \<le> fp_nodes page 0 then (page, False)
         else let nodes = set_avail_loop ((fp_nodes page)(nodeno := value)) nodeno;
                  page = page\<lparr>fp_nodes := nodes\<rparr>
              in (if value > nodes 0 then fst (fsm_rebuild_page page) else page, True))"

definition fsm_get_avail :: "FSMPageData \<Rightarrow> nat \<Rightarrow> uint8" where
  "fsm_get_avail page slot = fp_nodes page (NonLeafNodesPerPage + slot)"

definition fsm_get_max_avail :: "FSMPageData \<Rightarrow> uint8" where
  "fsm_get_max_avail page = fp_nodes page 0"

definition fsm_truncate_avail :: "FSMPageData \<Rightarrow> nat \<Rightarrow> FSMPageData \<times> bool" where
  "fsm_truncate_avail page nslots =
     (let (nodes, changed) =
            fold (\<lambda>i (nodes, changed). (nodes(i := 0), changed \<or> nodes i \<noteq> 0))
              [NonLeafNodesPerPage + nslots..<NodesPerPage] (fp_nodes page, False);
          page = page\<lparr>fp_nodes := nodes\<rparr>
      in if changed then (fst (fsm_rebuild_page page), True) else (page, False))"

section \<open>Consistent pages\<close>

definition fsm_ok :: "fsm_nodes \<Rightarrow> bool" where
  "fsm_ok nodes \<longleftrightarrow> (\<forall>x < NonLeafNodesPerPage. nodes x = children_max nodes x)"

definition same_leaves :: "fsm_nodes \<Rightarrow> fsm_nodes \<Rightarrow> bool" where
  "same_leaves nodes nodes' \<longleftrightarrow> (\<forall>x \<ge> NonLeafNodesPerPage. nodes' x = nodes x)"

lemma parentof_iff: "0 < x \<Longrightarrow> parentof x = p \<longleftrightarrow> x = leftchild p \<or> x = leftchild p + 1"
  by (auto simp: parentof_def leftchild_def)

lemma children_max_upd: "0 < x \<Longrightarrow> y \<noteq> parentof x \<Longrightarrow> children_max (nodes(x := v)) y = children_max nodes y"
  using parentof_iff [of x y] by (auto simp: children_max_def Let_def)

lemma children_max_upd_self: "children_max (nodes(x := v)) x = children_max nodes x"
  by (auto simp: children_max_def Let_def leftchild_def)

lemma rebuild_loop:
  assumes "n \<le> NonLeafNodesPerPage" and "\<forall>x. n \<le> x \<and> x < NonLeafNodesPerPage \<longrightarrow> nodes x = children_max nodes x"
  shows "fsm_ok (fst (fold rebuild_node (rev [0..<n]) (nodes, changed)))
    \<and> same_leaves nodes (fst (fold rebuild_node (rev [0..<n]) (nodes, changed)))
    \<and> (snd (fold rebuild_node (rev [0..<n]) (nodes, changed)) \<longleftrightarrow>
         changed \<or> fst (fold rebuild_node (rev [0..<n]) (nodes, changed)) \<noteq> nodes)"
  using assms
proof (induction n arbitrary: nodes changed)
  case 0
  then show ?case by (simp add: fsm_ok_def same_leaves_def)
next
  case (Suc n)
  define m where "m = nodes(n := children_max nodes n)"
  define ch where "ch = (changed \<or> nodes n \<noteq> children_max nodes n)"
  have step: "rebuild_node n (nodes, changed) = (m, ch)"
    by (auto simp: rebuild_node_def Let_def m_def ch_def)
  have ok: "\<forall>x. n \<le> x \<and> x < NonLeafNodesPerPage \<longrightarrow> m x = children_max m x"
  proof (intro allI impI)
    fix x assume x: "n \<le> x \<and> x < NonLeafNodesPerPage"
    show "m x = children_max m x"
    proof (cases "x = n")
      case True
      then show ?thesis by (simp add: m_def children_max_upd_self)
    next
      case False
      then have "x \<noteq> parentof n \<or> n = 0" using x parentof_less [of n] by (cases "n = 0") auto
      moreover have "children_max m x = children_max nodes x" if "n = 0"
        using False that by (auto simp: m_def children_max_def leftchild_def Let_def)
      ultimately have "children_max m x = children_max nodes x" using children_max_upd [of n x] by (auto simp: m_def)
      with Suc.prems(2) x False show ?thesis by (simp add: m_def)
    qed
  qed
  have keep: "fst (fold rebuild_node (rev [0..<n]) (m, ch)) n = children_max nodes n"
  proof -
    have "fst (fold rebuild_node (rev [0..<k]) st) n = fst st n" if "k \<le> n" for k st
      using that
      by (induction k arbitrary: st) (auto simp: rebuild_node_def Let_def split: prod.split)
    then show ?thesis by (simp add: m_def)
  qed
  define R where "R = fold rebuild_node (rev [0..<n]) (m, ch)"
  have fold: "fold rebuild_node (rev [0..<Suc n]) (nodes, changed) = R" by (simp add: R_def step)
  have IH: "fsm_ok (fst R)" "same_leaves m (fst R)" "snd R \<longleftrightarrow> ch \<or> fst R \<noteq> m"
    using Suc.IH [OF _ ok, of ch] Suc.prems(1) by (simp_all add: R_def)
  have "same_leaves nodes (fst R)" using IH(2) Suc.prems(1) by (simp add: same_leaves_def m_def)
  moreover have "snd R \<longleftrightarrow> changed \<or> fst R \<noteq> nodes"
  proof (cases "nodes n = children_max nodes n")
    case True
    then have "m = nodes" by (auto simp: m_def)
    with True IH(3) show ?thesis by (simp add: ch_def)
  next
    case False
    then have "fst R \<noteq> nodes" using keep by (auto simp: R_def)
    with False IH(3) show ?thesis by (simp add: ch_def)
  qed
  ultimately show ?case unfolding fold using IH(1) by blast
qed

lemma fsm_rebuild_page_spec:
  assumes "fsm_rebuild_page page = (page', changed)"
  shows "fsm_ok (fp_nodes page')" and "same_leaves (fp_nodes page) (fp_nodes page')"
    and "changed \<longleftrightarrow> fp_nodes page' \<noteq> fp_nodes page" and "fp_next_slot page' = fp_next_slot page"
proof -
  have none: "\<forall>x. NonLeafNodesPerPage \<le> x \<and> x < NonLeafNodesPerPage \<longrightarrow> fp_nodes page x = children_max (fp_nodes page) x"
    by auto
  show "fsm_ok (fp_nodes page')" "same_leaves (fp_nodes page) (fp_nodes page')"
    "changed \<longleftrightarrow> fp_nodes page' \<noteq> fp_nodes page" "fp_next_slot page' = fp_next_slot page"
    using assms rebuild_loop [OF order_refl none, of False] by (auto simp: fsm_rebuild_page_def split: prod.splits)
qed

section \<open>Setting a slot\<close>

definition leaf :: "nat \<Rightarrow> bool" where
  "leaf x \<longleftrightarrow> NonLeafNodesPerPage \<le> x \<and> x < NodesPerPage"

lemma parentof_nonleaf: "x < NodesPerPage \<Longrightarrow> parentof x < NonLeafNodesPerPage"
  by (simp add: parentof_def layout_defs)

lemma children_max_set:
  assumes "0 < x" "x < NodesPerPage"
  shows "children_max nodes (parentof x) =
    (let l = leftchild (parentof x) in if l + 1 < NodesPerPage then max (nodes l) (nodes (l + 1)) else nodes l)"
proof -
  have "x = leftchild (parentof x) \<or> x = leftchild (parentof x) + 1" using parentof_iff [OF assms(1)] by blast
  with assms(2) have "leftchild (parentof x) < NodesPerPage" by linarith
  then show ?thesis by (simp add: children_max_def Let_def)
qed

lemma set_avail_loop_step:
  assumes "0 < x" "x < NodesPerPage"
  shows "set_avail_loop nodes x =
    (let p = parentof x in if nodes p = children_max nodes p then nodes
     else if p > 0 then set_avail_loop (nodes(p := children_max nodes p)) p else nodes(p := children_max nodes p))"
  unfolding children_max_set [OF assms] Let_def by (simp add: set_avail_loop.simps [of nodes x] Let_def)

lemma set_avail_loop_ok:
  assumes "0 < x" "x < NodesPerPage"
    and "\<forall>y < NonLeafNodesPerPage. y \<noteq> parentof x \<longrightarrow> nodes y = children_max nodes y"
  shows "fsm_ok (set_avail_loop nodes x)"
  using assms
proof (induction x arbitrary: nodes rule: less_induct)
  case (less x)
  define p where "p = parentof x"
  define m where "m = nodes(p := children_max nodes p)"
  have p: "p < NonLeafNodesPerPage" "p < x" using less.prems by (simp_all add: p_def parentof_nonleaf parentof_less)
  note step = set_avail_loop_step [OF less.prems(1,2), of nodes, folded p_def, unfolded Let_def, folded m_def]
  have own: "m p = children_max m p" by (simp add: m_def children_max_upd_self)
  consider "nodes p = children_max nodes p" | "nodes p \<noteq> children_max nodes p" "0 < p"
    | "nodes p \<noteq> children_max nodes p" "p = 0" by blast
  then show ?case
  proof cases
    case 1
    then have "fsm_ok nodes" using less.prems(3) unfolding fsm_ok_def p_def [symmetric] by metis
    with 1 step show ?thesis by simp
  next
    case 2
    have "m y = children_max m y" if "y < NonLeafNodesPerPage" "y \<noteq> parentof p" for y
      using that own less.prems(3) children_max_upd [OF 2(2) that(2)]
      by (cases "y = p") (auto simp: m_def p_def [symmetric])
    then have "fsm_ok (set_avail_loop m p)" using p 2 by (intro less.IH) (auto simp: layout_defs)
    with 2 step show ?thesis by simp
  next
    case 3
    have "m y = children_max m y" if "y < NonLeafNodesPerPage" for y
    proof (cases "y = p")
      case False
      then have "children_max m y = children_max nodes y"
        using 3 by (auto simp: m_def children_max_def leftchild_def Let_def)
      with less.prems(3) that False show ?thesis by (simp add: m_def p_def [symmetric])
    qed (simp add: own)
    then have "fsm_ok m" by (simp add: fsm_ok_def)
    with 3 step show ?thesis by simp
  qed
qed

lemma set_avail_loop_leaves:
  assumes "0 < x" "x < NodesPerPage"
  shows "same_leaves nodes (set_avail_loop nodes x)"
  using assms
proof (induction x arbitrary: nodes rule: less_induct)
  case (less x)
  define p where "p = parentof x"
  define m where "m = nodes(p := children_max nodes p)"
  have p: "p < NonLeafNodesPerPage" "p < x" using less.prems by (simp_all add: p_def parentof_nonleaf parentof_less)
  note step = set_avail_loop_step [OF less.prems, of nodes, folded p_def, unfolded Let_def, folded m_def]
  have "same_leaves nodes m" using p by (simp add: same_leaves_def m_def)
  moreover have "same_leaves m (set_avail_loop m p)" if "0 < p"
    using that p by (intro less.IH) (auto simp: layout_defs)
  ultimately show ?case unfolding step by (auto simp: same_leaves_def)
qed

text \<open>In a consistent tree the root is the maximum of the leaves.\<close>

lemma child_le: "0 < x \<Longrightarrow> x < NodesPerPage \<Longrightarrow> nodes x \<le> children_max nodes (parentof x)"
proof -
  assume x: "0 < x" "x < NodesPerPage"
  have "x = leftchild (parentof x) \<or> x = leftchild (parentof x) + 1" using parentof_iff [OF x(1)] by blast
  then show ?thesis
  proof
    assume "x = leftchild (parentof x)"
    with x(2) show ?thesis by (simp add: children_max_def Let_def)
  next
    assume "x = leftchild (parentof x) + 1"
    with x(2) show ?thesis by (simp add: children_max_def Let_def)
  qed
qed

lemma node_le_root: "fsm_ok nodes \<Longrightarrow> x < NodesPerPage \<Longrightarrow> nodes x \<le> nodes 0"
proof (induction x rule: less_induct)
  case (less x)
  show ?case
  proof (cases "x = 0")
    case False
    then have "parentof x < x" "parentof x < NonLeafNodesPerPage"
      using less.prems by (simp_all add: parentof_less parentof_nonleaf)
    moreover have "nodes x \<le> children_max nodes (parentof x)" using False less.prems by (intro child_le) auto
    ultimately show ?thesis using less by (simp add: fsm_ok_def) (metis less_trans order_trans)
  qed simp
qed

lemma fsm_set_avail_spec:
  assumes "slot < LeafNodesPerPage" and "fsm_set_avail page slot value = (page', changed)"
  shows "fsm_get_avail page' slot = value"
    and "\<And>s. s \<noteq> slot \<Longrightarrow> fsm_get_avail page' s = fsm_get_avail page s"
    and "fsm_ok (fp_nodes page) \<Longrightarrow> fsm_ok (fp_nodes page')"
    and "value \<le> fsm_get_max_avail page'"
    and "\<not> changed \<Longrightarrow> page' = page"
    and "fp_next_slot page' = fp_next_slot page"
proof -
  let ?n = "NonLeafNodesPerPage + slot"
  let ?nodes = "(fp_nodes page)(?n := value)"
  let ?loop = "set_avail_loop ?nodes ?n"
  have n: "0 < ?n" "?n < NodesPerPage" using assms(1) by (simp_all add: layout_defs)
  have leaves: "same_leaves ?nodes ?loop" using n by (rule set_avail_loop_leaves)
  have loop_ok: "fsm_ok ?loop" if "fsm_ok (fp_nodes page)"
  proof (rule set_avail_loop_ok [OF n])
    show "\<forall>y < NonLeafNodesPerPage. y \<noteq> parentof ?n \<longrightarrow> ?nodes y = children_max ?nodes y"
      using that children_max_upd [OF n(1)] by (simp add: fsm_ok_def)
  qed
  obtain q c where q: "fsm_rebuild_page (page\<lparr>fp_nodes := ?loop\<rparr>) = (q, c)" by fastforce
  note reb = fsm_rebuild_page_spec [OF q]
  consider "page' = page" "\<not> changed" "fp_nodes page ?n = value" "value \<le> fp_nodes page 0"
    | "changed" "page' = page\<lparr>fp_nodes := ?loop\<rparr>" "value \<le> ?loop 0" | "changed" "page' = q"
    using assms(2) q by (auto simp: fsm_set_avail_def Let_def not_less split: if_splits)
  then have "fsm_get_avail page' slot = value \<and> (\<forall>s. s \<noteq> slot \<longrightarrow> fsm_get_avail page' s = fsm_get_avail page s)
      \<and> (fsm_ok (fp_nodes page) \<longrightarrow> fsm_ok (fp_nodes page')) \<and> value \<le> fsm_get_max_avail page'
      \<and> (\<not> changed \<longrightarrow> page' = page) \<and> fp_next_slot page' = fp_next_slot page"
  proof cases
    case 1
    then show ?thesis by (simp add: fsm_get_avail_def fsm_get_max_avail_def)
  next
    case 2
    then show ?thesis using leaves loop_ok
      by (simp add: fsm_get_avail_def fsm_get_max_avail_def same_leaves_def)
  next
    case 3
    have "value = fp_nodes q ?n" using leaves reb(2) by (simp add: same_leaves_def)
    also have "\<dots> \<le> fp_nodes q 0" using reb(1) n(2) by (rule node_le_root)
    finally show ?thesis using 3 leaves reb
      by (simp add: fsm_get_avail_def fsm_get_max_avail_def same_leaves_def)
  qed
  then show "fsm_get_avail page' slot = value" "\<And>s. s \<noteq> slot \<Longrightarrow> fsm_get_avail page' s = fsm_get_avail page s"
    "fsm_ok (fp_nodes page) \<Longrightarrow> fsm_ok (fp_nodes page')" "value \<le> fsm_get_max_avail page'"
    "\<not> changed \<Longrightarrow> page' = page" "fp_next_slot page' = fp_next_slot page" by blast+
qed

section \<open>Searching\<close>

lemma parentof_rightneighbor: "0 < x \<Longrightarrow> parentof (rightneighbor x) \<le> x div 2"
  by (auto simp: rightneighbor_def parentof_def Let_def)

text \<open>\<open>while (nodeno > 0) ...\<close>: move right and up until a node has enough space.\<close>

function climb :: "fsm_nodes \<Rightarrow> uint8 \<Rightarrow> nat \<Rightarrow> nat" where
  "climb nodes minvalue nodeno =
     (if nodeno > 0 then
        if nodes nodeno \<ge> minvalue then nodeno
        else climb nodes minvalue (parentof (rightneighbor nodeno))
      else nodeno)"
  by pat_completeness auto
termination
proof (relation "measure (\<lambda>(_, _, nodeno). nodeno)")
  fix nodes :: fsm_nodes and minvalue :: uint8 and nodeno :: nat
  assume "0 < nodeno"
  with parentof_rightneighbor [OF this]
  show "((nodes, minvalue, parentof (rightneighbor nodeno)), nodes, minvalue, nodeno) \<in> measure (\<lambda>(_, _, nodeno). nodeno)"
    by auto
qed simp

declare climb.simps [simp del]

text \<open>\<open>while (nodeno < NonLeafNodesPerPage) ...\<close>: go down a path with enough space; \<open>None\<close> where the
  code finds that no child keeps the promise of its parent.\<close>

function descend :: "fsm_nodes \<Rightarrow> uint8 \<Rightarrow> nat \<Rightarrow> nat option" where
  "descend nodes minvalue nodeno =
     (if nodeno < NonLeafNodesPerPage then
        let childnodeno = leftchild nodeno
        in if childnodeno < NodesPerPage \<and> nodes childnodeno \<ge> minvalue
           then descend nodes minvalue childnodeno
           else let childnodeno = childnodeno + 1
                in if childnodeno < NodesPerPage \<and> nodes childnodeno \<ge> minvalue
                   then descend nodes minvalue childnodeno
                   else None
      else Some nodeno)"
  by pat_completeness auto
termination
  by (relation "measure (\<lambda>(_, _, nodeno). NonLeafNodesPerPage - nodeno)") (auto simp: leftchild_def)

declare descend.simps [simp del]

definition search_target :: "FSMPageData \<Rightarrow> nat" where
  "search_target page =
     (let target = fp_next_slot page;
          target = (if target < 0 \<or> target \<ge> int LeafNodesPerPage then 0 else nat target)
      in target + NonLeafNodesPerPage)"

lemma search_target_leaf: "leaf (search_target page)"
  by (auto simp: search_target_def leaf_def Let_def layout_defs)

lemma climb_spec:
  assumes "x < NodesPerPage"
  shows "climb nodes v x < NodesPerPage" and "climb nodes v x = 0 \<or> v \<le> nodes (climb nodes v x)"
    and "v = 0 \<Longrightarrow> climb nodes v x = x"
  using assms
proof (induction nodes v x rule: climb.induct)
  case (1 nodes v x)
  have "parentof (rightneighbor x) < NodesPerPage" if "0 < x" "x < NodesPerPage"
    using parentof_rightneighbor [OF that(1)] that(2) by linarith
  { case 1 then show ?case using "1.IH"(1) \<open>_ \<Longrightarrow> _ \<Longrightarrow> parentof _ < _\<close> by (subst climb.simps) auto }
  { case 2 then show ?case using "1.IH"(2) \<open>_ \<Longrightarrow> _ \<Longrightarrow> parentof _ < _\<close> by (subst (1 2) climb.simps) auto }
  { case 3 then show ?case by (subst climb.simps) auto }
qed

lemma descend_leaf: "descend nodes v x = Some y \<Longrightarrow> x < NodesPerPage \<Longrightarrow> v \<le> nodes x \<or> x < NonLeafNodesPerPage \<Longrightarrow>
    leaf y \<and> v \<le> nodes y"
proof (induction nodes v x rule: descend.induct)
  case (1 nodes v x)
  show ?case
  proof (cases "x < NonLeafNodesPerPage")
    case False
    with "1.prems" show ?thesis by (simp add: descend.simps [of nodes v x] leaf_def)
  next
    case True
    let ?l = "leftchild x"
    from "1.prems"(1) [unfolded descend.simps [of nodes v x]] True
    consider "?l < NodesPerPage \<and> v \<le> nodes ?l" "descend nodes v ?l = Some y"
      | "\<not> (?l < NodesPerPage \<and> v \<le> nodes ?l)" "?l + 1 < NodesPerPage \<and> v \<le> nodes (?l + 1)"
        "descend nodes v (?l + 1) = Some y" by (auto simp: Let_def split: if_splits)
    then show ?thesis
      using "1.IH"(1) [OF True refl] "1.IH"(2) [OF True refl _ refl] by cases auto
  qed
qed

lemma descend_ok:
  assumes "fsm_ok nodes" "v \<le> nodes x" "x < NodesPerPage" "0 < v \<or> leaf x"
  shows "descend nodes v x \<noteq> None"
  using assms
proof (induction nodes v x rule: descend.induct)
  case (1 nodes v x)
  show ?case
  proof (cases "x < NonLeafNodesPerPage")
    case True
    with 1 have v: "0 < v" "v \<le> children_max nodes x" by (auto simp: leaf_def fsm_ok_def)
    let ?l = "leftchild x"
    have "(?l < NodesPerPage \<and> v \<le> nodes ?l) \<or> (?l + 1 < NodesPerPage \<and> v \<le> nodes (?l + 1))"
      using v by (auto simp: children_max_def Let_def max_def split: if_splits)
    with True 1 v show ?thesis by (subst descend.simps) (auto simp: Let_def)
  qed (simp add: descend.simps)
qed

lemma search_ok:
  assumes "fsm_ok (fp_nodes page)" and "v \<le> fp_nodes page 0"
  shows "descend (fp_nodes page) v (climb (fp_nodes page) v (search_target page)) \<noteq> None"
proof -
  let ?t = "search_target page"
  have t: "?t < NodesPerPage" "leaf ?t" using search_target_leaf [of page] by (simp_all add: leaf_def)
  note c = climb_spec [OF t(1), where nodes = "fp_nodes page" and v = v]
  have "0 < v \<or> leaf (climb (fp_nodes page) v ?t)" using c(3) t(2) by (cases "v = 0") (auto simp: word_gt_0)
  moreover have "v \<le> fp_nodes page (climb (fp_nodes page) v ?t)" using c(2) assms(2) by auto
  ultimately show ?thesis using descend_ok [OF assms(1) _ c(1)] by blast
qed

text \<open>
  \<open>others\<close> is what other backends do to the page while the buffer lock is released to be taken in
  exclusive mode.  The result is the slot number or \<open>-1\<close>, and the page.  The recursive call is
  \<open>goto restart\<close>; it happens at most once, because a rebuilt page keeps its promises.
\<close>

function fsm_search_avail :: "FSMPageData \<Rightarrow> uint8 \<Rightarrow> bool \<Rightarrow> bool \<Rightarrow> (FSMPageData \<Rightarrow> FSMPageData)
    \<Rightarrow> int \<times> FSMPageData" where
  "fsm_search_avail page minvalue advancenext exclusive_lock_held others =
     (if fp_nodes page 0 < minvalue then (-1, page)
      else case descend (fp_nodes page) minvalue (climb (fp_nodes page) minvalue (search_target page)) of
        None \<Rightarrow>
          let page = (if exclusive_lock_held then page else others page);
              page = fst (fsm_rebuild_page page)
          in fsm_search_avail page minvalue advancenext True others
      | Some nodeno \<Rightarrow>
          let slot = nodeno - NonLeafNodesPerPage
          in (int slot, page\<lparr>fp_next_slot := int slot + (if advancenext then 1 else 0)\<rparr>))"
  by pat_completeness auto
termination
proof (relation "measure (\<lambda>(page, minvalue, _).
    if minvalue \<le> fp_nodes page 0 \<and>
       descend (fp_nodes page) minvalue (climb (fp_nodes page) minvalue (search_target page)) = None then 1 else 0)")
  fix page minvalue advancenext excl others x xa
  assume a: "\<not> fp_nodes page 0 < minvalue"
    "descend (fp_nodes page) minvalue (climb (fp_nodes page) minvalue (search_target page)) = None"
    "xa = fst (fsm_rebuild_page x)"
  have "fsm_ok (fp_nodes xa)" using a(3) fsm_rebuild_page_spec(1) [of x] by (metis prod.collapse)
  then have "\<not> (minvalue \<le> fp_nodes xa 0 \<and>
      descend (fp_nodes xa) minvalue (climb (fp_nodes xa) minvalue (search_target xa)) = None)"
    using search_ok by blast
  then show "((xa, minvalue, advancenext, True, others), page, minvalue, advancenext, excl, others)
      \<in> measure (\<lambda>(page, minvalue, _). if minvalue \<le> fp_nodes page 0 \<and>
         descend (fp_nodes page) minvalue (climb (fp_nodes page) minvalue (search_target page)) = None then 1 else 0)"
    using a by (simp add: not_less)
qed simp

declare fsm_search_avail.simps [simp del]

lemma fsm_ok_rebuilt: "fsm_ok (fp_nodes (fst (fsm_rebuild_page page)))"
  using fsm_rebuild_page_spec(1) [of page] by (metis prod.collapse)

lemma same_leaves_rebuilt: "same_leaves (fp_nodes page) (fp_nodes (fst (fsm_rebuild_page page)))"
  using fsm_rebuild_page_spec(2) [of page] by (metis prod.collapse)

lemma same_leaves_trans: "same_leaves a b \<Longrightarrow> same_leaves b c \<Longrightarrow> same_leaves a c"
  by (simp add: same_leaves_def)

definition search_result :: "FSMPageData \<Rightarrow> uint8 \<Rightarrow> bool \<Rightarrow> int \<times> FSMPageData \<Rightarrow> bool" where
  "search_result page v advancenext res \<longleftrightarrow>
     (case res of (r, p) \<Rightarrow>
       if r = -1 then p = page \<and> fp_nodes page 0 < v
       else \<exists>slot < LeafNodesPerPage. r = int slot \<and> v \<le> fsm_get_avail page slot
          \<and> p = page\<lparr>fp_next_slot := r + (if advancenext then 1 else 0)\<rparr>)"

text \<open>One pass of the search, when it does not restart.\<close>

lemma search_pass:
  assumes "v \<le> fp_nodes page 0 \<Longrightarrow> descend (fp_nodes page) v (climb (fp_nodes page) v (search_target page)) \<noteq> None"
  shows "search_result page v adv (fsm_search_avail page v adv excl others)"
proof (cases "fp_nodes page 0 < v")
  case True
  then show ?thesis by (simp add: fsm_search_avail.simps [of page] search_result_def)
next
  case False
  let ?t = "search_target page"
  have t: "?t < NodesPerPage" using search_target_leaf [of page] by (simp add: leaf_def)
  note c = climb_spec [OF t, where nodes = "fp_nodes page" and v = v]
  from False assms obtain y where y: "descend (fp_nodes page) v (climb (fp_nodes page) v ?t) = Some y"
    by (auto simp: not_less)
  have "v \<le> fp_nodes page (climb (fp_nodes page) v ?t)" using c(2) False by (auto simp: not_less)
  with descend_leaf [OF y c(1)] have "leaf y" "v \<le> fp_nodes page y" by auto
  then show ?thesis using False y
    by (auto simp: fsm_search_avail.simps [of page] search_result_def fsm_get_avail_def leaf_def Let_def
        LeafNodesPerPage_def intro!: exI [of _ "y - NonLeafNodesPerPage"])
qed

lemma fsm_search_avail_ok:
  "fsm_ok (fp_nodes page) \<Longrightarrow> search_result page v adv (fsm_search_avail page v adv excl others)"
  by (rule search_pass) (rule search_ok)

lemma fsm_search_avail_any:
  "\<exists>q. search_result q v adv (fsm_search_avail page v adv excl others)
     \<and> (q = page \<or> q = fst (fsm_rebuild_page (if excl then page else others page)))"
proof (cases "fp_nodes page 0 < v \<or> descend (fp_nodes page) v (climb (fp_nodes page) v (search_target page)) \<noteq> None")
  case True
  then show ?thesis using search_pass [of v page adv excl others] by (auto simp: not_less [symmetric])
next
  case False
  let ?q = "fst (fsm_rebuild_page (if excl then page else others page))"
  have "fsm_search_avail page v adv excl others = fsm_search_avail ?q v adv True others"
    using False by (auto simp: fsm_search_avail.simps [of page] Let_def)
  then show ?thesis using fsm_search_avail_ok [OF fsm_ok_rebuilt] by metis
qed

lemma root_is_leaf:
  assumes "fsm_ok (fp_nodes page)"
  shows "\<exists>slot < LeafNodesPerPage. fsm_get_avail page slot = fp_nodes page 0"
proof -
  from fsm_search_avail_ok [OF assms, of "fp_nodes page 0" False True id]
  obtain slot where s: "slot < LeafNodesPerPage" "fp_nodes page 0 \<le> fsm_get_avail page slot"
    by (cases "fsm_search_avail page (fp_nodes page 0) False True id") (auto simp: search_result_def split: if_splits)
  moreover have "fsm_get_avail page slot \<le> fp_nodes page 0"
    unfolding fsm_get_avail_def using s(1) by (intro node_le_root assms) (simp add: layout_defs)
  ultimately show ?thesis by (meson order_antisym)
qed

lemma avail_le_max:
  "fsm_ok (fp_nodes page) \<Longrightarrow> slot < LeafNodesPerPage \<Longrightarrow> fsm_get_avail page slot \<le> fp_nodes page 0"
  unfolding fsm_get_avail_def by (rule node_le_root) (simp_all add: layout_defs)

lemma truncate_loop:
  "fold (\<lambda>i (nodes, changed). (nodes(i := 0), changed \<or> nodes i \<noteq> 0)) [a..<b] (nodes, c) =
     (\<lambda>i. if a \<le> i \<and> i < b then 0 else nodes i, c \<or> (\<exists>i. a \<le> i \<and> i < b \<and> nodes i \<noteq> 0))"
proof (induction b)
  case (Suc b)
  show ?case
  proof (cases "a \<le> b")
    case True
    then show ?thesis using Suc by (auto simp: fun_eq_iff less_Suc_eq)
  next
    case False
    then show ?thesis by (auto simp: fun_eq_iff)
  qed
qed (simp add: fun_eq_iff)

lemma fsm_truncate_avail_spec:
  assumes "fsm_truncate_avail page nslots = (page', changed)" "slot < LeafNodesPerPage"
  shows "fsm_get_avail page' slot = (if nslots \<le> slot then 0 else fsm_get_avail page slot)"
    and "fsm_ok (fp_nodes page) \<Longrightarrow> fsm_ok (fp_nodes page')"
    and "\<not> changed \<Longrightarrow> page' = page"
proof -
  let ?a = "NonLeafNodesPerPage + nslots"
  let ?cleared = "\<lambda>i. if ?a \<le> i \<and> i < NodesPerPage then 0 else fp_nodes page i"
  let ?p = "page\<lparr>fp_nodes := ?cleared\<rparr>"
  have res: "(page', changed) = (if \<exists>i. ?a \<le> i \<and> i < NodesPerPage \<and> fp_nodes page i \<noteq> 0
      then (fst (fsm_rebuild_page ?p), True) else (?p, False))"
    using assms(1) by (simp add: fsm_truncate_avail_def truncate_loop Let_def)
  have same: "?cleared = fp_nodes page" if "\<not> (\<exists>i. ?a \<le> i \<and> i < NodesPerPage \<and> fp_nodes page i \<noteq> 0)"
    using that by (auto simp: fun_eq_iff)
  have leaves: "same_leaves ?cleared (fp_nodes page')"
    using res same_leaves_rebuilt [of ?p] by (auto simp: same_leaves_def split: if_splits)
  show "fsm_get_avail page' slot = (if nslots \<le> slot then 0 else fsm_get_avail page slot)"
    using leaves assms(2) by (simp add: same_leaves_def fsm_get_avail_def layout_defs)
  show "fsm_ok (fp_nodes page')" if "fsm_ok (fp_nodes page)"
    using res same that fsm_ok_rebuilt [of ?p] by (auto split: if_splits)
  show "page' = page" if "\<not> changed" using res same that by (auto split: if_splits)
qed

section \<open>The page as a store of slots\<close>

text \<open>What freespace.c relies on: a slot holds what was last stored in it, the maximum is known, and
  a search finds a slot whenever the maximum promises one.\<close>

locale slot_page =
  fixes inv :: "'p \<Rightarrow> bool"
    and n :: nat
    and get :: "'p \<Rightarrow> nat \<Rightarrow> uint8"
    and set :: "'p \<Rightarrow> nat \<Rightarrow> uint8 \<Rightarrow> 'p"
    and top :: "'p \<Rightarrow> uint8"
  assumes get_set: "s < n \<Longrightarrow> get (set p s v) s = v"
    and get_other: "s < n \<Longrightarrow> t \<noteq> s \<Longrightarrow> get (set p s v) t = get p t"
    and inv_set: "inv p \<Longrightarrow> s < n \<Longrightarrow> inv (set p s v)"
    and top_ge: "inv p \<Longrightarrow> s < n \<Longrightarrow> get p s \<le> top p"
    and top_attained: "inv p \<Longrightarrow> \<exists>s<n. get p s = top p"
begin

lemma set_all:
  "inv p \<Longrightarrow> k \<le> n \<Longrightarrow> let q = fold (\<lambda>s p. set p s (f s)) [0..<k] p
     in inv q \<and> (\<forall>s. get q s = (if s < k then f s else get p s))"
proof (induction k)
  case (Suc k)
  let ?q = "fold (\<lambda>s p. set p s (f s)) [0..<k] p"
  from Suc have q: "inv ?q" "\<forall>s. get ?q s = (if s < k then f s else get p s)" by (simp_all add: Let_def)
  have "get (set ?q k (f k)) s = (if s < Suc k then f s else get p s)" for s
    using q(2) get_set [of k ?q "f k"] get_other [of k s ?q "f k"] Suc.prems(2) by (cases "s = k") auto
  moreover have "inv (set ?q k (f k))" using q(1) Suc.prems(2) by (intro inv_set) auto
  ultimately show ?case by (simp add: Let_def)
qed simp

lemma top_eq_Max: "inv p \<Longrightarrow> top p = Max (get p ` {..<n})"
proof (rule sym, rule Max_eqI)
  assume "inv p"
  from top_attained [OF this] show "top p \<in> get p ` {..<n}" by force
  show "y \<le> top p" if "y \<in> get p ` {..<n}" for y using that top_ge [OF \<open>inv p\<close>] by auto
qed simp

end

interpretation sp: slot_page "\<lambda>p. fsm_ok (fp_nodes p)" LeafNodesPerPage fsm_get_avail
    "\<lambda>p s v. fst (fsm_set_avail p s v)" fsm_get_max_avail
proof
  fix p s v t
  assume s: "s < LeafNodesPerPage"
  obtain q c where q: "fsm_set_avail p s v = (q, c)" by fastforce
  note spec = fsm_set_avail_spec [OF s q]
  show "fsm_get_avail (fst (fsm_set_avail p s v)) s = v" using q spec(1) by simp
  show "fsm_get_avail (fst (fsm_set_avail p s v)) t = fsm_get_avail p t" if "t \<noteq> s" using q spec(2) that by simp
  show "fsm_ok (fp_nodes (fst (fsm_set_avail p s v)))" if "fsm_ok (fp_nodes p)" using q spec(3) that by simp
  show "fsm_get_avail p s \<le> fsm_get_max_avail p" if "fsm_ok (fp_nodes p)"
    unfolding fsm_get_max_avail_def using that s by (rule avail_le_max)
next
  fix p :: FSMPageData assume "fsm_ok (fp_nodes p)"
  then show "\<exists>s<LeafNodesPerPage. fsm_get_avail p s = fsm_get_max_avail p"
    unfolding fsm_get_max_avail_def by (rule root_is_leaf)
qed

lemma search_any_page:
  "(case fsm_search_avail page minvalue advancenext excl others of (r, page') \<Rightarrow>
     (if r = -1 then fsm_get_max_avail page' < minvalue
      else 0 \<le> r \<and> r < int LeafNodesPerPage \<and> minvalue \<le> fsm_get_avail page' (nat r))
     \<and> (excl \<longrightarrow> same_leaves (fp_nodes page) (fp_nodes page')))"
proof -
  obtain r p where rp: "fsm_search_avail page minvalue advancenext excl others = (r, p)" by fastforce
  from fsm_search_avail_any [of minvalue advancenext page excl others] obtain q
    where q: "search_result q minvalue advancenext (r, p)"
      "q = page \<or> q = fst (fsm_rebuild_page (if excl then page else others page))" unfolding rp by blast
  from q(1) have "fp_nodes p = fp_nodes q" by (auto simp: search_result_def split: if_splits)
  moreover have "same_leaves (fp_nodes page) (fp_nodes q)" if excl
    using q(2) that same_leaves_rebuilt [of page] by (auto simp: same_leaves_def)
  ultimately show ?thesis using q(1)
    by (auto simp: rp search_result_def fsm_get_max_avail_def fsm_get_avail_def split: if_splits)
qed

section \<open>Properties\<close>

text \<open>C32. fsm_set_avail stores the value in its slot and leaves every other slot alone; on a
  consistent page it keeps the tree consistent, and on any page, however corrupt, the root is
  afterwards at least the new value; it reports false only if the page did not change.\<close>

theorem fsm_set_avail_correct:
  assumes "slot < LeafNodesPerPage"
  shows "(case fsm_set_avail page slot v of (page', changed) \<Rightarrow>
     fsm_get_avail page' slot = v
     \<and> (\<forall>s. s \<noteq> slot \<longrightarrow> fsm_get_avail page' s = fsm_get_avail page s)
     \<and> (fsm_ok (fp_nodes page) \<longrightarrow> fsm_ok (fp_nodes page'))
     \<and> v \<le> fsm_get_max_avail page'
     \<and> (\<not> changed \<longrightarrow> page' = page))"
  using fsm_set_avail_spec [OF assms] by (auto split: prod.split)

theorem fsm_set_avail_correct_witness:
  "fsm_get_avail (fst (fsm_set_avail \<lparr>fp_next_slot = 0, fp_nodes = \<lambda>_. 0\<rparr> 7 200)) 7 = 200"
  using fsm_set_avail_correct [where slot = 7 and page = "\<lparr>fp_next_slot = 0, fp_nodes = \<lambda>_. 0\<rparr>" and v = 200]
  by (simp add: layout_defs split: prod.splits)

text \<open>C33. On a consistent page fsm_search_avail returns \<open>-1\<close> if and only if no slot has the
  requested category; otherwise it returns a slot that has it, changes nothing but the
  next-slot hint, and sets the hint to that slot or the one after it.\<close>

theorem fsm_search_avail_correct:
  assumes "fsm_ok (fp_nodes page)"
  shows "(case fsm_search_avail page minvalue advancenext excl others of (r, page') \<Rightarrow>
     fp_nodes page' = fp_nodes page
     \<and> (r = -1 \<longleftrightarrow> (\<forall>slot < LeafNodesPerPage. fsm_get_avail page slot < minvalue))
     \<and> (r \<noteq> -1 \<longrightarrow> 0 \<le> r \<and> r < int LeafNodesPerPage \<and> minvalue \<le> fsm_get_avail page (nat r)
          \<and> fp_next_slot page' = r + (if advancenext then 1 else 0)))"
proof -
  obtain r q where rq: "fsm_search_avail page minvalue advancenext excl others = (r, q)" by fastforce
  note res = fsm_search_avail_ok [OF assms, of minvalue advancenext excl others, unfolded rq search_result_def prod.case]
  show ?thesis
  proof (cases "r = -1")
    case True
    with res have "q = page" "fp_nodes page 0 < minvalue" by simp_all
    moreover from this(2) have "fsm_get_avail page slot < minvalue" if "slot < LeafNodesPerPage" for slot
      using avail_le_max [OF assms that] by simp
    ultimately show ?thesis using True by (simp add: rq)
  next
    case False
    with res obtain slot where "slot < LeafNodesPerPage" "r = int slot" "minvalue \<le> fsm_get_avail page slot"
      "q = page\<lparr>fp_next_slot := r + (if advancenext then 1 else 0)\<rparr>" by auto
    with False show ?thesis by (auto simp: rq not_less [symmetric])
  qed
qed

theorem fsm_search_avail_correct_witness:
  "fst (fsm_search_avail \<lparr>fp_next_slot = 5, fp_nodes = \<lambda>_. 0\<rparr> 1 True False id) = -1"
proof -
  have "fsm_ok (fp_nodes \<lparr>fp_next_slot = 5, fp_nodes = \<lambda>_. 0\<rparr>)" by (simp add: fsm_ok_def children_max_def)
  from fsm_search_avail_correct [OF this, of 1 True False id] show ?thesis
    by (auto simp: fsm_get_avail_def split: prod.splits)
qed

text \<open>C34. On any page, even one torn by a crash, and whatever other backends do to it while the lock
  is being upgraded, fsm_search_avail ends; the slot it returns has the requested category on
  the page it leaves behind, and it returns \<open>-1\<close> only when the root of that page is below the
  request.  Under an exclusive lock it changes no slot.\<close>

theorem fsm_search_avail_any_page:
  "(case fsm_search_avail page minvalue advancenext excl others of (r, page') \<Rightarrow>
     (if r = -1 then fsm_get_max_avail page' < minvalue
      else 0 \<le> r \<and> r < int LeafNodesPerPage \<and> minvalue \<le> fsm_get_avail page' (nat r))
     \<and> (excl \<longrightarrow> same_leaves (fp_nodes page) (fp_nodes page')))"
  by (rule search_any_page)

theorem fsm_search_avail_any_page_witness:
  "same_leaves (\<lambda>i. if i = 0 then 9 else 0)
     (fp_nodes (snd (fsm_search_avail \<lparr>fp_next_slot = 3, fp_nodes = \<lambda>i. if i = 0 then 9 else 0\<rparr> 5 False True id)))"
  using fsm_search_avail_any_page [where page = "\<lparr>fp_next_slot = 3, fp_nodes = \<lambda>i. if i = 0 then 9 else 0\<rparr>"
      and minvalue = 5 and advancenext = False and excl = True and others = id]
  by (simp split: prod.splits)

text \<open>C35. fsm_truncate_avail clears exactly the slots from \<open>nslots\<close> on and keeps a consistent page
  consistent, so that its root is again the maximum of the slots.\<close>

theorem fsm_truncate_avail_correct:
  assumes "fsm_ok (fp_nodes page)"
  shows "(case fsm_truncate_avail page nslots of (page', changed) \<Rightarrow>
     (\<forall>slot < LeafNodesPerPage. fsm_get_avail page' slot = (if nslots \<le> slot then 0 else fsm_get_avail page slot))
     \<and> fsm_ok (fp_nodes page') \<and> fsm_get_max_avail page' = Max (fsm_get_avail page' ` {..<LeafNodesPerPage}))"
proof -
  obtain q c where q: "fsm_truncate_avail page nslots = (q, c)" by fastforce
  have ok: "fsm_ok (fp_nodes q)" using fsm_truncate_avail_spec(2) [OF q, of 0] assms by (simp add: layout_defs)
  show ?thesis using fsm_truncate_avail_spec(1) [OF q] ok sp.top_eq_Max [OF ok] by (simp add: q)
qed

theorem fsm_truncate_avail_correct_witness:
  "fsm_get_avail (fst (fsm_truncate_avail \<lparr>fp_next_slot = 0, fp_nodes = \<lambda>_. 0\<rparr> 3)) 3 = 0"
proof -
  have "fsm_ok (fp_nodes \<lparr>fp_next_slot = 0, fp_nodes = \<lambda>_. 0\<rparr>)" by (simp add: fsm_ok_def children_max_def)
  from fsm_truncate_avail_correct [OF this, of 3] show ?thesis
    by (auto simp: layout_defs split: prod.splits)
qed

end
