(* ===== verification/Freespace.thy ===== *)
theory Freespace
  imports FsmPage
begin

text \<open>
  The free space map of a relation, \<open>src/backend/storage/freespace/freespace.c\<close> and
  \<open>indexfsm.c\<close>: a three-level tree of the pages of theory FsmPage, addressed by level and logical
  page number.  The state is the FSM fork as one backend sees it: its length, its pages, which of
  them are still all zero, and the length cached in the smgr relation.  Buffer locks and WAL records
  do not appear; where fsm_search_avail gives up its lock, the effect of other backends is the
  function \<open>others\<close>.
\<close>

section \<open>Categories\<close>

definition FSM_CATEGORIES :: nat where
  "FSM_CATEGORIES = 256"

definition FSM_CAT_STEP :: nat where
  "FSM_CAT_STEP = BLCKSZ div FSM_CATEGORIES"

text \<open>\<open>BLCKSZ - MAXALIGN(SizeOfPageHeaderData + sizeof(ItemIdData))\<close>\<close>

definition MaxHeapTupleSize :: nat where
  "MaxHeapTupleSize = BLCKSZ - 32"

definition MaxFSMRequestSize :: nat where
  "MaxFSMRequestSize = MaxHeapTupleSize"

lemmas cat_defs = FSM_CATEGORIES_def FSM_CAT_STEP_def MaxHeapTupleSize_def MaxFSMRequestSize_def BLCKSZ_def

definition fsm_space_avail_to_cat :: "nat \<Rightarrow> uint8" where
  "fsm_space_avail_to_cat avail =
     (if avail \<ge> MaxFSMRequestSize then 255
      else let cat = avail div FSM_CAT_STEP;
               cat = (if cat > 254 then 254 else cat)
           in of_nat cat)"

definition fsm_space_cat_to_avail :: "uint8 \<Rightarrow> nat" where
  "fsm_space_cat_to_avail cat = (if cat = 255 then MaxFSMRequestSize else unat cat * FSM_CAT_STEP)"

definition fsm_space_needed_to_cat :: "nat \<Rightarrow> uint8 result" where
  "fsm_space_needed_to_cat needed =
     (if needed > MaxFSMRequestSize then Inl (ERROR ''invalid FSM request size'')
      else if needed = 0 then Inr 1
      else let cat = (needed + FSM_CAT_STEP - 1) div FSM_CAT_STEP;
               cat = (if cat > 255 then 255 else cat)
           in Inr (of_nat cat))"

section \<open>Addresses\<close>

definition SlotsPerFSMPage :: nat where
  "SlotsPerFSMPage = LeafNodesPerPage"

definition FSM_TREE_DEPTH :: nat where
  "FSM_TREE_DEPTH = (if SlotsPerFSMPage \<ge> 1626 then 3 else 4)"

definition FSM_ROOT_LEVEL :: nat where
  "FSM_ROOT_LEVEL = FSM_TREE_DEPTH - 1"

definition FSM_BOTTOM_LEVEL :: nat where
  "FSM_BOTTOM_LEVEL = 0"

record FSMAddress =
  level :: nat
  logpageno :: nat

definition FSM_ROOT_ADDRESS :: FSMAddress where
  "FSM_ROOT_ADDRESS = \<lparr>level = FSM_ROOT_LEVEL, logpageno = 0\<rparr>"

definition InvalidBlockNumber :: BlockNumber where
  "InvalidBlockNumber = 0xFFFFFFFF"

text \<open>The two loops of fsm_logical_to_physical.\<close>

definition first_leafno :: "FSMAddress \<Rightarrow> nat" where
  "first_leafno addr = ((\<lambda>leafno. leafno * SlotsPerFSMPage) ^^ level addr) (logpageno addr)"

definition pages_upto_leaf :: "nat \<Rightarrow> nat" where
  "pages_upto_leaf leafno =
     fst (((\<lambda>(pages, leafno). (pages + leafno + 1, leafno div SlotsPerFSMPage)) ^^ FSM_TREE_DEPTH) (0, leafno))"

definition fsm_logical_to_physical :: "FSMAddress \<Rightarrow> BlockNumber" where
  "fsm_logical_to_physical addr =
     (let leafno = first_leafno addr;
          pages = pages_upto_leaf leafno;
          pages = pages - level addr
      in of_nat (pages - 1))"

definition fsm_get_location :: "BlockNumber \<Rightarrow> FSMAddress \<times> nat" where
  "fsm_get_location heapblk =
     (\<lparr>level = FSM_BOTTOM_LEVEL, logpageno = unat heapblk div SlotsPerFSMPage\<rparr>, unat heapblk mod SlotsPerFSMPage)"

definition fsm_get_heap_blk :: "FSMAddress \<Rightarrow> nat \<Rightarrow> BlockNumber" where
  "fsm_get_heap_blk addr slot = of_nat (logpageno addr * SlotsPerFSMPage + slot)"

definition fsm_get_parent :: "FSMAddress \<Rightarrow> FSMAddress \<times> nat" where
  "fsm_get_parent child =
     (\<lparr>level = level child + 1, logpageno = logpageno child div SlotsPerFSMPage\<rparr>, logpageno child mod SlotsPerFSMPage)"

definition fsm_get_child :: "FSMAddress \<Rightarrow> nat \<Rightarrow> FSMAddress" where
  "fsm_get_child parent slot = \<lparr>level = level parent - 1, logpageno = logpageno parent * SlotsPerFSMPage + slot\<rparr>"

section \<open>The fork\<close>

record FSMRel =
  fsm_exists :: bool
  fsm_nblocks :: BlockNumber
  fsm_page :: "BlockNumber \<Rightarrow> FSMPageData"
  fsm_page_new :: "BlockNumber \<Rightarrow> bool"
  smgr_fsm_nblocks :: BlockNumber

definition zero_page :: FSMPageData where
  "zero_page = \<lparr>fp_next_slot = 0, fp_nodes = \<lambda>_. 0\<rparr>"

text \<open>Extension with initialised pages, up to \<open>n\<close> blocks; a no-op when the fork is long enough.\<close>

definition fsm_extend :: "FSMRel \<Rightarrow> BlockNumber \<Rightarrow> FSMRel" where
  "fsm_extend rel n =
     (let rel = (if (smgr_fsm_nblocks rel = 0 \<or> smgr_fsm_nblocks rel = InvalidBlockNumber) \<and> \<not> fsm_exists rel
                 then rel\<lparr>fsm_exists := True, fsm_nblocks := 0\<rparr> else rel);
          now = fsm_nblocks rel;
          rel = (if now < n then
                   rel\<lparr>fsm_page := (\<lambda>b. if now \<le> b \<and> b < n then zero_page else fsm_page rel b),
                       fsm_page_new := (\<lambda>b. if now \<le> b \<and> b < n then False else fsm_page_new rel b),
                       fsm_nblocks := n\<rparr>
                 else rel)
      in rel\<lparr>smgr_fsm_nblocks := fsm_nblocks rel\<rparr>)"

text \<open>\<open>None\<close> is InvalidBuffer; a valid buffer is named by its block number.\<close>

definition fsm_readbuf :: "FSMRel \<Rightarrow> FSMAddress \<Rightarrow> bool \<Rightarrow> FSMRel \<times> BlockNumber option" where
  "fsm_readbuf rel addr ext =
     (let blkno = fsm_logical_to_physical addr;
          rel = (if smgr_fsm_nblocks rel = InvalidBlockNumber \<or> blkno \<ge> smgr_fsm_nblocks rel
                 then rel\<lparr>smgr_fsm_nblocks := (if fsm_exists rel then fsm_nblocks rel else 0)\<rparr> else rel)
      in if blkno \<ge> smgr_fsm_nblocks rel \<and> \<not> ext then (rel, None)
         else let rel = (if blkno \<ge> smgr_fsm_nblocks rel then fsm_extend rel (blkno + 1) else rel);
                  rel = (if fsm_page_new rel blkno
                         then rel\<lparr>fsm_page := (fsm_page rel)(blkno := zero_page),
                                  fsm_page_new := (fsm_page_new rel)(blkno := False)\<rparr> else rel)
              in (rel, Some blkno))"

definition put_page :: "FSMRel \<Rightarrow> BlockNumber \<Rightarrow> FSMPageData \<Rightarrow> FSMRel" where
  "put_page rel blk page = rel\<lparr>fsm_page := (fsm_page rel)(blk := page)\<rparr>"

definition fsm_set_and_search :: "FSMRel \<Rightarrow> FSMAddress \<Rightarrow> nat \<Rightarrow> uint8 \<Rightarrow> uint8 \<Rightarrow> FSMRel \<times> int" where
  "fsm_set_and_search rel addr slot newValue minValue =
     (case fsm_readbuf rel addr True of
        (rel, None) \<Rightarrow> (rel, -1)
      | (rel, Some buf) \<Rightarrow>
          let rel = put_page rel buf (fst (fsm_set_avail (fsm_page rel buf) slot newValue))
          in if minValue \<noteq> 0 then
               let (newslot, page) =
                     fsm_search_avail (fsm_page rel buf) minValue (level addr = FSM_BOTTOM_LEVEL) True id
               in (put_page rel buf page, newslot)
             else (rel, -1))"

text \<open>One iteration of fsm_search up to the test of the slot: read and search the page.\<close>

definition visit_page :: "uint8 \<Rightarrow> (FSMPageData \<Rightarrow> FSMPageData) \<Rightarrow> FSMRel \<Rightarrow> FSMAddress \<Rightarrow> FSMRel \<times> int \<times> uint8" where
  "visit_page min_cat others rel addr =
     (case fsm_readbuf rel addr False of
        (rel, Some b) \<Rightarrow>
          (case fsm_search_avail (fsm_page rel b) min_cat (level addr = FSM_BOTTOM_LEVEL) False others of
             (slot, page) \<Rightarrow> (put_page rel b page, slot, if slot = -1 then fsm_get_max_avail page else 0))
      | (rel, None) \<Rightarrow> (rel, -1, 0))"

text \<open>The loop of fsm_search.\<close>

function fsm_search_loop :: "uint8 \<Rightarrow> (FSMPageData \<Rightarrow> FSMPageData) \<Rightarrow> FSMRel \<Rightarrow> nat \<Rightarrow> FSMAddress
    \<Rightarrow> FSMRel \<times> BlockNumber" where
  "fsm_search_loop min_cat others rel restarts addr =
     (let (rel, slot, max_avail) = visit_page min_cat others rel addr
      in if slot \<noteq> -1 then
           if level addr = FSM_BOTTOM_LEVEL then (rel, fsm_get_heap_blk addr (nat slot))
           else fsm_search_loop min_cat others rel restarts (fsm_get_child addr (nat slot))
         else if level addr = FSM_ROOT_LEVEL then (rel, InvalidBlockNumber)
         else let (parent, parentslot) = fsm_get_parent addr;
                  (rel, _) = fsm_set_and_search rel parent parentslot max_avail 0
              in if restarts > 10000 then (rel, InvalidBlockNumber)
                 else fsm_search_loop min_cat others rel (restarts + 1) FSM_ROOT_ADDRESS)"
  by pat_completeness auto
termination
  by (relation "measures [\<lambda>(_, _, _, restarts, _). 10001 - restarts, \<lambda>(_, _, _, _, addr). level addr]")
    (auto simp: fsm_get_child_def FSM_BOTTOM_LEVEL_def)

declare fsm_search_loop.simps [simp del]

definition fsm_search :: "FSMRel \<Rightarrow> uint8 \<Rightarrow> (FSMPageData \<Rightarrow> FSMPageData) \<Rightarrow> FSMRel \<times> BlockNumber" where
  "fsm_search rel min_cat others = fsm_search_loop min_cat others rel 0 FSM_ROOT_ADDRESS"

section \<open>Public interface\<close>


definition RecordAndGetPageWithFreeSpace :: "FSMRel \<Rightarrow> BlockNumber \<Rightarrow> nat \<Rightarrow> nat \<Rightarrow> (FSMPageData \<Rightarrow> FSMPageData)
    \<Rightarrow> (FSMRel \<times> BlockNumber) result" where
  "RecordAndGetPageWithFreeSpace rel oldPage oldSpaceAvail spaceNeeded others =
     (let old_cat = fsm_space_avail_to_cat oldSpaceAvail
      in case fsm_space_needed_to_cat spaceNeeded of
        Inl e \<Rightarrow> Inl e
      | Inr search_cat \<Rightarrow>
          let (addr, slot) = fsm_get_location oldPage;
              (rel, search_slot) = fsm_set_and_search rel addr slot old_cat search_cat
          in Inr (if search_slot \<noteq> -1 then (rel, fsm_get_heap_blk addr (nat search_slot))
                  else fsm_search rel search_cat others))"

definition RecordPageWithFreeSpace :: "FSMRel \<Rightarrow> BlockNumber \<Rightarrow> nat \<Rightarrow> FSMRel" where
  "RecordPageWithFreeSpace rel heapBlk spaceAvail =
     (let new_cat = fsm_space_avail_to_cat spaceAvail;
          (addr, slot) = fsm_get_location heapBlk
      in fst (fsm_set_and_search rel addr slot new_cat 0))"

definition GetRecordedFreeSpace :: "FSMRel \<Rightarrow> BlockNumber \<Rightarrow> FSMRel \<times> nat" where
  "GetRecordedFreeSpace rel heapBlk =
     (let (addr, slot) = fsm_get_location heapBlk
      in case fsm_readbuf rel addr False of
           (rel, None) \<Rightarrow> (rel, 0)
         | (rel, Some buf) \<Rightarrow> (rel, fsm_space_cat_to_avail (fsm_get_avail (fsm_page rel buf) slot)))"

text \<open>WAL replay: XLogReadBufferExtended lengthens the fork with zero pages if it is too short.\<close>

definition XLogRecordPageWithFreeSpace :: "FSMRel \<Rightarrow> BlockNumber \<Rightarrow> nat \<Rightarrow> FSMRel" where
  "XLogRecordPageWithFreeSpace rel heapBlk spaceAvail =
     (let new_cat = fsm_space_avail_to_cat spaceAvail;
          (addr, slot) = fsm_get_location heapBlk;
          blkno = fsm_logical_to_physical addr;
          now = (if fsm_exists rel then fsm_nblocks rel else 0);
          rel = (if now \<le> blkno then
                   rel\<lparr>fsm_exists := True, fsm_nblocks := blkno + 1,
                       fsm_page_new := (\<lambda>b. if now \<le> b \<and> b \<le> blkno then True else fsm_page_new rel b)\<rparr>
                 else rel);
          rel = (if fsm_page_new rel blkno
                 then rel\<lparr>fsm_page := (fsm_page rel)(blkno := zero_page), fsm_page_new := (fsm_page_new rel)(blkno := False)\<rparr>
                 else rel)
      in put_page rel blkno (fst (fsm_set_avail (fsm_page rel blkno) slot new_cat)))"

text \<open>fsm_vacuum_page for a page of the given level.  The result is the state, the maximum on the
  page, and whether the page is past the end of the map.\<close>


definition slot_range :: "FSMAddress \<Rightarrow> BlockNumber \<Rightarrow> BlockNumber \<Rightarrow> int \<times> int" where
  "slot_range addr start end' =
     (let up = (\<lambda>(a, s). fsm_get_parent a);
          (fsm_start, fsm_start_slot) = (up ^^ level addr) (fsm_get_location start);
          (fsm_end, fsm_end_slot) = (up ^^ level addr) (fsm_get_location (end' - 1));
          start_slot = (if logpageno fsm_start = logpageno addr then int fsm_start_slot
                        else if logpageno fsm_start > logpageno addr then int SlotsPerFSMPage
                        else 0);
          end_slot = (if logpageno fsm_end = logpageno addr then int fsm_end_slot
                      else if logpageno fsm_end > logpageno addr then int SlotsPerFSMPage - 1
                      else -1)
      in (start_slot, end_slot))"

text \<open>The end of fsm_vacuum_page: read the maximum, reset the hint.\<close>

definition vacuum_finish :: "FSMRel \<Rightarrow> BlockNumber \<Rightarrow> FSMRel \<times> uint8 \<times> bool" where
  "vacuum_finish rel buf =
     (put_page rel buf ((fsm_page rel buf)\<lparr>fp_next_slot := 0\<rparr>), fsm_get_max_avail (fsm_page rel buf), False)"

text \<open>The body of the loop over the slots; \<open>child\<close> is the recursive call.\<close>

definition vacuum_slot :: "(FSMRel \<Rightarrow> nat \<Rightarrow> FSMRel \<times> uint8 \<times> bool) \<Rightarrow> FSMAddress \<Rightarrow> BlockNumber \<Rightarrow> int
    \<Rightarrow> FSMRel \<times> bool \<Rightarrow> FSMRel \<times> bool" where
  "vacuum_slot child addr buf slot st =
     (let (rel, eof) = st;
          (rel, child_avail, eof) =
            (if \<not> eof then child rel (logpageno (fsm_get_child addr (nat slot))) else (rel, 0, eof));
          page = fsm_page rel buf
      in if fsm_get_avail page (nat slot) \<noteq> child_avail
         then (put_page rel buf (fst (fsm_set_avail page (nat slot) child_avail)), eof)
         else (rel, eof))"

primrec vacuum_level :: "nat \<Rightarrow> BlockNumber \<Rightarrow> BlockNumber \<Rightarrow> FSMRel \<Rightarrow> nat \<Rightarrow> FSMRel \<times> uint8 \<times> bool" where
  "vacuum_level 0 start end' rel pageno =
     (case fsm_readbuf rel \<lparr>level = 0, logpageno = pageno\<rparr> False of
        (rel, None) \<Rightarrow> (rel, 0, True)
      | (rel, Some buf) \<Rightarrow> vacuum_finish rel buf)"
| "vacuum_level (Suc l) start end' rel pageno =
     (let addr = \<lparr>level = Suc l, logpageno = pageno\<rparr>
      in case fsm_readbuf rel addr False of
           (rel, None) \<Rightarrow> (rel, 0, True)
         | (rel, Some buf) \<Rightarrow>
             let (start_slot, end_slot) = slot_range addr start end';
                 (rel, _) = fold (vacuum_slot (vacuum_level l start end') addr buf) [start_slot..end_slot] (rel, False)
             in vacuum_finish rel buf)"

definition fsm_vacuum_page :: "FSMRel \<Rightarrow> FSMAddress \<Rightarrow> BlockNumber \<Rightarrow> BlockNumber \<Rightarrow> FSMRel \<times> uint8 \<times> bool" where
  "fsm_vacuum_page rel addr start end' = vacuum_level (level addr) start end' rel (logpageno addr)"

definition FreeSpaceMapVacuum :: "FSMRel \<Rightarrow> FSMRel" where
  "FreeSpaceMapVacuum rel = fst (fsm_vacuum_page rel FSM_ROOT_ADDRESS 0 InvalidBlockNumber)"

definition FreeSpaceMapVacuumRange :: "FSMRel \<Rightarrow> BlockNumber \<Rightarrow> BlockNumber \<Rightarrow> FSMRel" where
  "FreeSpaceMapVacuumRange rel start end' =
     (if end' > start then fst (fsm_vacuum_page rel FSM_ROOT_ADDRESS start end') else rel)"

definition FreeSpaceMapTruncateRel :: "FSMRel \<Rightarrow> BlockNumber \<Rightarrow> FSMRel" where
  "FreeSpaceMapTruncateRel rel nblocks =
     (if \<not> fsm_exists rel then rel
      else
        let (first_removed_address, first_removed_slot) = fsm_get_location nblocks;
            finish = (\<lambda>rel new_nfsmblocks.
              FreeSpaceMapVacuumRange
                (rel\<lparr>fsm_nblocks := new_nfsmblocks, smgr_fsm_nblocks := new_nfsmblocks\<rparr>) nblocks InvalidBlockNumber)
        in if first_removed_slot > 0 then
             (case fsm_readbuf rel first_removed_address False of
                (rel, None) \<Rightarrow> rel
              | (rel, Some buf) \<Rightarrow>
                  finish (put_page rel buf (fst (fsm_truncate_avail (fsm_page rel buf) first_removed_slot)))
                    (fsm_logical_to_physical first_removed_address + 1))
           else
             let new_nfsmblocks = fsm_logical_to_physical first_removed_address
             in if fsm_nblocks rel \<le> new_nfsmblocks then rel
                else finish rel new_nfsmblocks)"

section \<open>Index pages (indexfsm.c)\<close>




definition IndexFreeSpaceMapVacuum :: "FSMRel \<Rightarrow> FSMRel" where
  "IndexFreeSpaceMapVacuum rel = FreeSpaceMapVacuum rel"

section \<open>Categories: lemmas\<close>

lemma unat_of_nat8: "n < 256 \<Longrightarrow> unat (of_nat n :: uint8) = n"
  by (simp add: unat_of_nat)

lemma unat_avail_to_cat:
  "unat (fsm_space_avail_to_cat a) = (if a \<ge> MaxFSMRequestSize then 255 else min 254 (a div FSM_CAT_STEP))"
  by (auto simp: fsm_space_avail_to_cat_def Let_def unat_of_nat8 min_def)

lemma needed_to_cat:
  assumes "n \<le> MaxFSMRequestSize"
  shows "\<exists>c. fsm_space_needed_to_cat n = Inr c \<and> c \<noteq> 0
    \<and> unat c = (if n = 0 then 1 else min 255 ((n + 31) div 32))"
proof -
  have "(n + 31) div 32 \<noteq> 0" if "n \<noteq> 0" using that by (simp add: div_eq_0_iff)
  then show ?thesis
    using assms by (auto simp: fsm_space_needed_to_cat_def Let_def unat_of_nat8 min_def cat_defs unat_eq_zero [symmetric])
qed

section \<open>Addresses: lemmas\<close>

lemma Slots_eq: "SlotsPerFSMPage = 4069" and Depth_eq: "FSM_TREE_DEPTH = 3" and Root_eq: "FSM_ROOT_LEVEL = 2"
  by (simp_all add: SlotsPerFSMPage_def FSM_TREE_DEPTH_def FSM_ROOT_LEVEL_def layout_defs)

lemmas size_eqs = Slots_eq Depth_eq Root_eq FSM_BOTTOM_LEVEL_def

definition valid_addr :: "FSMAddress \<Rightarrow> bool" where
  "valid_addr a \<longleftrightarrow> level a \<le> FSM_ROOT_LEVEL \<and> logpageno a < SlotsPerFSMPage ^ (FSM_ROOT_LEVEL - level a)"

text \<open>Number of pages in front of the leaf page \<open>L\<close>, the leaf included, minus one.\<close>

definition leaf_pos :: "nat \<Rightarrow> nat" where
  "leaf_pos L = L + L div 4069 + L div (4069 * 4069) + 2"

lemma first_leafno_eq: "first_leafno a = logpageno a * 4069 ^ level a"
proof -
  have "((\<lambda>x. x * SlotsPerFSMPage) ^^ n) p = p * 4069 ^ n" for n p
    by (induction n) (simp_all add: Slots_eq)
  then show ?thesis by (simp add: first_leafno_def)
qed

lemma pages_upto_leaf_eq: "pages_upto_leaf L = leaf_pos L + 1"
  by (simp add: pages_upto_leaf_def size_eqs leaf_pos_def numeral_3_eq_3 div_mult2_eq)

lemma physical_eq:
  assumes "valid_addr a"
  shows "unat (fsm_logical_to_physical a) = leaf_pos (logpageno a * 4069 ^ level a) - level a"
proof -
  let ?L = "logpageno a * 4069 ^ level a"
  have lev: "level a \<le> 2" using assms by (simp add: valid_addr_def size_eqs)
  have "?L < 4069 ^ (2 - level a) * 4069 ^ level a"
    using assms by (simp add: valid_addr_def size_eqs)
  also have "\<dots> = 4069 ^ 2" using lev by (simp only: power_add [symmetric] le_add_diff_inverse2)
  finally have "?L < 16556761" by (simp add: power2_eq_square)
  moreover have "?L div 4069 \<le> ?L" "?L div (4069 * 4069) \<le> ?L" by (rule div_le_dividend)+
  ultimately have "leaf_pos ?L < 2 ^ 32" unfolding leaf_pos_def by simp
  then show ?thesis
    by (simp add: fsm_logical_to_physical_def first_leafno_eq pages_upto_leaf_eq Let_def unat_of_nat)
qed

lemma leaf_pos_mono: "L < M \<Longrightarrow> leaf_pos L < leaf_pos M"
  unfolding leaf_pos_def using div_le_mono [of L M 4069] div_le_mono [of L M "4069 * 4069"] by linarith

lemma leaf_pos_less_iff: "leaf_pos L < leaf_pos M \<longleftrightarrow> L < M"
  using leaf_pos_mono by (metis linorder_neq_iff order_less_asym)

text \<open>A leaf that is the first below a page of level \<open>m\<close> comes after \<open>m\<close> more upper pages.\<close>

lemma leaf_pos_gap:
  assumes "L < M" "m \<le> 2" "4069 ^ m dvd M"
  shows "leaf_pos L + m < leaf_pos M"
proof -
  have one: "(M - 1) div d < M div d" if "d dvd M" "0 < d" for d
  proof -
    from that(1) obtain k where k: "M = d * k" by blast
    with assms(1) obtain j where j: "k = Suc j" by (cases k) auto
    have "(M - 1) div d < k" using that(2) by (simp add: k j less_mult_imp_div_less mult.commute)
    then show ?thesis using k that(2) by simp
  qed
  have "leaf_pos L \<le> leaf_pos (M - 1)" using assms(1) leaf_pos_less_iff [of "M - 1" L] by (simp add: not_less [symmetric])
  moreover have "leaf_pos (M - 1) + m < leaf_pos M"
  proof -
    have M: "M = M - 1 + 1" using assms(1) by simp
    consider "m = 0" | "m = 1" | "m = 2" using assms(2) by linarith
    then show ?thesis
    proof cases
      case 1
      then show ?thesis using leaf_pos_mono [of "M - 1" M] M by simp
    next
      case 2
      with assms(3) one [of 4069] have "(M - 1) div 4069 < M div 4069" by simp
      moreover have "(M - 1) div (4069 * 4069) \<le> M div (4069 * 4069)" by (intro div_le_mono) simp
      ultimately show ?thesis using 2 M unfolding leaf_pos_def by linarith
    next
      case 3
      with assms(3) have d: "4069 * 4069 dvd M" by (simp add: power2_eq_square)
      then have "4069 dvd M" by (rule dvd_mult_left)
      then have "(M - 1) div 4069 < M div 4069" using one by simp
      moreover have "(M - 1) div (4069 * 4069) < M div (4069 * 4069)" using one [OF d] by simp
      ultimately show ?thesis using 3 M unfolding leaf_pos_def by linarith
    qed
  qed
  ultimately show ?thesis by linarith
qed

lemma physical_inj:
  assumes "valid_addr a" "valid_addr b" "fsm_logical_to_physical a = fsm_logical_to_physical b"
  shows "a = b"
proof -
  define L M where "L = logpageno a * 4069 ^ level a" and "M = logpageno b * 4069 ^ level b"
  have lev: "level a \<le> 2" "level b \<le> 2" using assms by (simp_all add: valid_addr_def size_eqs)
  have ge: "2 \<le> leaf_pos L" "2 \<le> leaf_pos M" by (simp_all add: leaf_pos_def)
  have eq: "leaf_pos L - level a = leaf_pos M - level b"
    using physical_eq [OF assms(1)] physical_eq [OF assms(2)] assms(3) by (simp add: L_def M_def)
  have "\<not> L < M" using leaf_pos_gap [of L M "level b"] eq lev ge by (auto simp: M_def)
  moreover have "\<not> M < L" using leaf_pos_gap [of M L "level a"] eq lev ge by (auto simp: L_def)
  ultimately have "L = M" by simp
  with eq lev ge have "level a = level b" by simp
  with \<open>L = M\<close> have "logpageno a = logpageno b" by (simp add: L_def M_def)
  with \<open>level a = level b\<close> show ?thesis by simp
qed

lemma location_heap_blk:
  "logpageno a * 4069 + slot < 2 ^ 32 \<Longrightarrow> slot < 4069 \<Longrightarrow> level a = 0 \<Longrightarrow> fsm_get_location (fsm_get_heap_blk a slot) = (a, slot)"
  by (simp add: fsm_get_location_def fsm_get_heap_blk_def size_eqs unat_of_nat del: of_nat_add of_nat_mult)

lemma heap_blk_location: "(case fsm_get_location blk of (a, slot) \<Rightarrow> fsm_get_heap_blk a slot) = blk"
  by (simp add: fsm_get_location_def fsm_get_heap_blk_def size_eqs del: of_nat_add of_nat_mult)

lemma parent_child: "slot < SlotsPerFSMPage \<Longrightarrow> 0 < level a \<Longrightarrow> fsm_get_parent (fsm_get_child a slot) = (a, slot)"
  by (simp add: fsm_get_parent_def fsm_get_child_def Slots_eq)

lemma child_parent: "(case fsm_get_parent a of (p, slot) \<Rightarrow> fsm_get_child p slot) = a"
  by (simp add: fsm_get_parent_def fsm_get_child_def Slots_eq)

lemma valid_root: "valid_addr FSM_ROOT_ADDRESS"
  by (simp add: valid_addr_def FSM_ROOT_ADDRESS_def)

lemma valid_child:
  assumes "valid_addr a" "slot < SlotsPerFSMPage" "0 < level a"
  shows "valid_addr (fsm_get_child a slot)"
proof -
  have "(logpageno a + 1) * 4069 \<le> 4069 ^ (2 - level a) * 4069"
    using assms(1) by (intro mult_le_mono1) (simp add: valid_addr_def size_eqs)
  then have "logpageno a * 4069 + slot < 4069 ^ (2 - level a) * 4069" using assms(2) by (simp add: Slots_eq)
  moreover have "Suc (2 - level a) = 2 - (level a - 1)" using assms(1,3) unfolding valid_addr_def size_eqs by linarith
  then have "(4069::nat) ^ (2 - level a) * 4069 = 4069 ^ (2 - (level a - 1))" by (metis power_Suc2)
  ultimately show ?thesis using assms by (simp add: valid_addr_def fsm_get_child_def size_eqs)
qed

section \<open>Reading and writing pages\<close>

definition rel_inv :: "FSMRel \<Rightarrow> bool" where
  "rel_inv rel \<longleftrightarrow> (\<not> fsm_exists rel \<longrightarrow> fsm_nblocks rel = 0)
     \<and> (smgr_fsm_nblocks rel = InvalidBlockNumber \<or> smgr_fsm_nblocks rel \<le> fsm_nblocks rel)"

text \<open>The content of a block as the code gets to see it.\<close>

definition page_of :: "FSMRel \<Rightarrow> BlockNumber \<Rightarrow> FSMPageData" where
  "page_of rel blk = (if fsm_page_new rel blk then zero_page else fsm_page rel blk)"

definition page_at :: "FSMRel \<Rightarrow> BlockNumber \<Rightarrow> FSMPageData" where
  "page_at rel blk = (if blk < fsm_nblocks rel then page_of rel blk else zero_page)"

lemma readbuf_noextend:
  assumes "rel_inv rel"
  shows "case fsm_readbuf rel addr False of (rel', buf) \<Rightarrow>
    rel_inv rel' \<and> fsm_exists rel' = fsm_exists rel \<and> fsm_nblocks rel' = fsm_nblocks rel \<and> page_of rel' = page_of rel
    \<and> buf = (if fsm_logical_to_physical addr < fsm_nblocks rel then Some (fsm_logical_to_physical addr) else None)
    \<and> (\<forall>b. buf = Some b \<longrightarrow> \<not> fsm_page_new rel' b)"
proof -
  let ?b = "fsm_logical_to_physical addr"
  define r where "r = (if smgr_fsm_nblocks rel = InvalidBlockNumber \<or> ?b \<ge> smgr_fsm_nblocks rel
      then rel\<lparr>smgr_fsm_nblocks := (if fsm_exists rel then fsm_nblocks rel else 0)\<rparr> else rel)"
  have r: "rel_inv r" "fsm_exists r = fsm_exists rel" "fsm_nblocks r = fsm_nblocks rel" "page_of r = page_of rel"
    "fsm_page_new r = fsm_page_new rel" "fsm_page r = fsm_page rel"
    using assms by (auto simp: r_def rel_inv_def page_of_def fun_eq_iff)
  have iff: "?b \<ge> smgr_fsm_nblocks r \<longleftrightarrow> \<not> ?b < fsm_nblocks rel"
    using assms by (auto simp: r_def rel_inv_def not_less)
  show ?thesis
  proof (cases "?b < fsm_nblocks rel")
    case False
    then have "fsm_readbuf rel addr False = (r, None)"
      using iff by (simp add: fsm_readbuf_def Let_def r_def [symmetric])
    with r False show ?thesis by simp
  next
    case True
    then have "fsm_readbuf rel addr False = (if fsm_page_new r ?b
        then r\<lparr>fsm_page := (fsm_page r)(?b := zero_page), fsm_page_new := (fsm_page_new r)(?b := False)\<rparr> else r, Some ?b)"
      using iff by (simp add: fsm_readbuf_def Let_def r_def [symmetric])
    with r True show ?thesis by (auto simp: rel_inv_def page_of_def fun_eq_iff)
  qed
qed

lemma extend_spec:
  assumes "rel_inv rel" "smgr_fsm_nblocks rel = (if fsm_exists rel then fsm_nblocks rel else 0)" "fsm_nblocks rel < n"
  shows "rel_inv (fsm_extend rel n) \<and> fsm_exists (fsm_extend rel n) \<and> fsm_nblocks (fsm_extend rel n) = n
    \<and> page_at (fsm_extend rel n) = page_at rel \<and> smgr_fsm_nblocks (fsm_extend rel n) = n"
proof -
  have "0 < n" using assms(3) by (metis bot_nat_0.not_eq_extremum unat_0 word_gt_0 word_less_nat_alt not_less_zero)
  with assms show ?thesis
    by (auto simp: fsm_extend_def rel_inv_def page_at_def page_of_def fun_eq_iff Let_def)
qed

text \<open>PageInit of a page that is still new changes nothing that can be seen.\<close>

definition init_page :: "FSMRel \<Rightarrow> BlockNumber \<Rightarrow> FSMRel" where
  "init_page q b = (if fsm_page_new q b
      then q\<lparr>fsm_page := (fsm_page q)(b := zero_page), fsm_page_new := (fsm_page_new q)(b := False)\<rparr> else q)"

lemma init_page_simps [simp]:
  "rel_inv (init_page q b) = rel_inv q" "fsm_nblocks (init_page q b) = fsm_nblocks q"
  "fsm_exists (init_page q b) = fsm_exists q" "page_of (init_page q b) = page_of q"
  "page_at (init_page q b) = page_at q" "\<not> fsm_page_new (init_page q b) b"
  by (auto simp: init_page_def rel_inv_def page_at_def page_of_def fun_eq_iff)

lemma readbuf_extend:
  assumes inv: "rel_inv rel" and phys: "unat (fsm_logical_to_physical addr) < 2 ^ 32 - 1"
  shows "case fsm_readbuf rel addr True of (rel', buf) \<Rightarrow>
    rel_inv rel' \<and> page_at rel' = page_at rel \<and> buf = Some (fsm_logical_to_physical addr)
    \<and> fsm_nblocks rel' = max (fsm_nblocks rel) (fsm_logical_to_physical addr + 1)
    \<and> \<not> fsm_page_new rel' (fsm_logical_to_physical addr)"
proof -
  let ?b = "fsm_logical_to_physical addr"
  define r where "r = (if smgr_fsm_nblocks rel = InvalidBlockNumber \<or> ?b \<ge> smgr_fsm_nblocks rel
      then rel\<lparr>smgr_fsm_nblocks := (if fsm_exists rel then fsm_nblocks rel else 0)\<rparr> else rel)"
  have r: "rel_inv r" "fsm_nblocks r = fsm_nblocks rel" "page_at r = page_at rel"
    using inv by (auto simp: r_def rel_inv_def page_at_def page_of_def fun_eq_iff)
  have iff: "?b \<ge> smgr_fsm_nblocks r \<longleftrightarrow> \<not> ?b < fsm_nblocks rel"
    using inv by (auto simp: r_def rel_inv_def not_less)
  have suc: "unat (?b + 1) = unat ?b + 1" using phys by (simp add: unat_word_ariths)
  define q where "q = (if \<not> ?b < fsm_nblocks rel then fsm_extend r (?b + 1) else r)"
  have q: "rel_inv q \<and> fsm_nblocks q = max (fsm_nblocks rel) (?b + 1) \<and> page_at q = page_at rel"
  proof (cases "?b < fsm_nblocks rel")
    case True
    then have "?b + 1 \<le> fsm_nblocks rel" using suc by (simp add: word_le_nat_alt word_less_nat_alt)
    then have "fsm_nblocks rel = max (fsm_nblocks rel) (?b + 1)" by (simp add: max_absorb1)
    with True r show ?thesis by (simp add: q_def)
  next
    case False
    then have less: "fsm_nblocks r < ?b + 1" using suc r(2) by (simp add: word_le_nat_alt word_less_nat_alt)
    have "smgr_fsm_nblocks r = (if fsm_exists r then fsm_nblocks r else 0)"
      using False iff inv by (auto simp: r_def rel_inv_def not_less split: if_splits)
    note e = extend_spec [OF r(1) this less]
    have "max (fsm_nblocks rel) (?b + 1) = ?b + 1" using less r(2) by (simp add: max_absorb2 order_less_imp_le)
    with e r False show ?thesis by (simp add: q_def)
  qed
  have "fsm_readbuf rel addr True = (init_page q ?b, Some ?b)"
    using iff by (simp add: fsm_readbuf_def Let_def r_def [symmetric] q_def init_page_def)
  with q show ?thesis by simp
qed

lemma page_at_read: "blk < fsm_nblocks rel \<Longrightarrow> \<not> fsm_page_new rel blk \<Longrightarrow> page_at rel blk = fsm_page rel blk"
  by (simp add: page_at_def page_of_def)

lemma page_at_cong: "fsm_nblocks rel' = fsm_nblocks rel \<Longrightarrow> page_of rel' = page_of rel \<Longrightarrow> page_at rel' = page_at rel"
  by (simp add: page_at_def fun_eq_iff)

lemma page_at_put:
  "blk < fsm_nblocks rel \<Longrightarrow> \<not> fsm_page_new rel blk \<Longrightarrow> page_at (put_page rel blk page) = (page_at rel)(blk := page)"
  by (auto simp: put_page_def page_at_def page_of_def fun_eq_iff)

lemma put_page_simps [simp]:
  "fsm_nblocks (put_page rel blk page) = fsm_nblocks rel" "rel_inv (put_page rel blk page) = rel_inv rel"
  "fsm_page_new (put_page rel blk page) = fsm_page_new rel" "fsm_page (put_page rel blk page) blk = page"
  by (simp_all add: put_page_def rel_inv_def)

lemma physical_bound: "valid_addr a \<Longrightarrow> unat (fsm_logical_to_physical a) < 2 ^ 32 - 1"
proof -
  assume a: "valid_addr a"
  let ?L = "logpageno a * 4069 ^ level a"
  have lev: "level a \<le> 2" using a by (simp add: valid_addr_def size_eqs)
  have "?L < 4069 ^ (2 - level a) * 4069 ^ level a" using a by (simp add: valid_addr_def size_eqs)
  also have "\<dots> = 4069 ^ 2" using lev by (simp only: power_add [symmetric] le_add_diff_inverse2)
  finally have "?L < 16556761" by (simp add: power2_eq_square)
  moreover have "?L div 4069 \<le> ?L" "?L div (4069 * 4069) \<le> ?L" by (rule div_le_dividend)+
  ultimately have "leaf_pos ?L < 2 ^ 32 - 1" unfolding leaf_pos_def by simp
  then show ?thesis using physical_eq [OF a] by simp
qed

lemma set_and_search_set:
  assumes "rel_inv rel" "valid_addr addr"
  defines "b \<equiv> fsm_logical_to_physical addr"
  shows "case fsm_set_and_search rel addr slot v 0 of (rel', r) \<Rightarrow>
    rel_inv rel' \<and> fsm_nblocks rel' = max (fsm_nblocks rel) (b + 1)
    \<and> page_at rel' = (page_at rel)(b := fst (fsm_set_avail (page_at rel b) slot v))"
proof -
  note ph = physical_bound [OF assms(2)]
  obtain r1 where r1: "fsm_readbuf rel addr True = (r1, Some b)" "rel_inv r1" "page_at r1 = page_at rel"
    "fsm_nblocks r1 = max (fsm_nblocks rel) (b + 1)" "\<not> fsm_page_new r1 b"
    using readbuf_extend [OF assms(1) ph] by (auto simp: b_def split: prod.splits)
  have "unat (b + 1) = unat b + 1" using ph by (simp add: b_def unat_word_ariths)
  then have "b < b + 1" by (simp add: word_less_nat_alt)
  then have less: "b < fsm_nblocks r1" using r1(4) by (simp add: less_max_iff_disj)
  then have "fsm_page r1 b = page_at rel b" using r1(3,5) page_at_read [of b r1] by simp
  then show ?thesis using r1 less by (simp add: fsm_set_and_search_def Let_def page_at_put)
qed

text \<open>The category recorded for a heap block.\<close>

definition recorded :: "FSMRel \<Rightarrow> BlockNumber \<Rightarrow> uint8" where
  "recorded rel blk = (case fsm_get_location blk of (a, slot) \<Rightarrow> fsm_get_avail (page_at rel (fsm_logical_to_physical a)) slot)"

lemma location_valid: "fsm_get_location blk = (a, slot) \<Longrightarrow> valid_addr a \<and> slot < LeafNodesPerPage"
proof -
  assume "fsm_get_location blk = (a, slot)"
  moreover have "unat blk < 2 ^ LENGTH(32)" by (rule unsigned_less)
  then have "unat blk div 4069 < 16556761" by (simp add: less_mult_imp_div_less)
  ultimately show ?thesis
    by (auto simp: fsm_get_location_def valid_addr_def size_eqs SlotsPerFSMPage_def [symmetric] power2_eq_square)
qed

lemma location_inj: "fsm_get_location b1 = fsm_get_location b2 \<Longrightarrow> b1 = b2"
  by (metis heap_blk_location)

lemma record_spec:
  assumes "rel_inv rel"
  shows "rel_inv (RecordPageWithFreeSpace rel blk avail)"
    and "recorded (RecordPageWithFreeSpace rel blk avail) b =
      (if b = blk then fsm_space_avail_to_cat avail else recorded rel b)"
proof -
  obtain a slot where loc: "fsm_get_location blk = (a, slot)" by fastforce
  obtain a2 slot2 where loc2: "fsm_get_location b = (a2, slot2)" by fastforce
  note v = location_valid [OF loc] and v2 = location_valid [OF loc2]
  let ?p = "fsm_logical_to_physical a"
  have eq: "RecordPageWithFreeSpace rel blk avail = fst (fsm_set_and_search rel a slot (fsm_space_avail_to_cat avail) 0)"
    by (simp add: RecordPageWithFreeSpace_def loc)
  obtain rel' r where sas: "fsm_set_and_search rel a slot (fsm_space_avail_to_cat avail) 0 = (rel', r)" by fastforce
  from set_and_search_set [OF assms conjunct1 [OF v], of slot "fsm_space_avail_to_cat avail"] sas
  have rel': "rel_inv rel'" "page_at rel' = (page_at rel)(?p := fst (fsm_set_avail (page_at rel ?p) slot (fsm_space_avail_to_cat avail)))"
    by simp_all
  then show "rel_inv (RecordPageWithFreeSpace rel blk avail)" using eq sas by simp
  have inj: "fsm_logical_to_physical a2 = ?p \<Longrightarrow> a2 = a" using physical_inj v v2 by blast
  have blk: "b = blk \<longleftrightarrow> a2 = a \<and> slot2 = slot"
  proof
    assume "a2 = a \<and> slot2 = slot"
    with loc loc2 show "b = blk" using location_inj by metis
  qed (use loc loc2 in simp)
  have rec: "recorded (RecordPageWithFreeSpace rel blk avail) b = fsm_get_avail (page_at rel' (fsm_logical_to_physical a2)) slot2"
    by (simp add: recorded_def loc2 eq sas)
  show "recorded (RecordPageWithFreeSpace rel blk avail) b =
      (if b = blk then fsm_space_avail_to_cat avail else recorded rel b)"
  proof (cases "a2 = a")
    case True
    then have "page_at rel' (fsm_logical_to_physical a2) = fst (fsm_set_avail (page_at rel ?p) slot (fsm_space_avail_to_cat avail))"
      using rel'(2) by simp
    then show ?thesis unfolding rec blk using True v sp.get_set [of slot] sp.get_other [of slot slot2]
      by (simp add: recorded_def loc2)
  next
    case False
    with inj have "page_at rel' (fsm_logical_to_physical a2) = page_at rel (fsm_logical_to_physical a2)"
      unfolding rel'(2) by (metis fun_upd_other)
    then show ?thesis unfolding rec blk using False by (simp add: recorded_def loc2)
  qed
qed

lemma recorded_space:
  assumes "rel_inv rel"
  shows "snd (GetRecordedFreeSpace rel blk) = fsm_space_cat_to_avail (recorded rel blk)"
proof -
  obtain a slot where loc: "fsm_get_location blk = (a, slot)" by fastforce
  let ?p = "fsm_logical_to_physical a"
  obtain rel' buf where rb: "fsm_readbuf rel a False = (rel', buf)" by fastforce
  from readbuf_noextend [OF assms, of a] rb
  have r: "fsm_nblocks rel' = fsm_nblocks rel" "page_of rel' = page_of rel" "buf = (if ?p < fsm_nblocks rel then Some ?p else None)"
    "\<forall>b. buf = Some b \<longrightarrow> \<not> fsm_page_new rel' b" by simp_all
  show ?thesis
  proof (cases "?p < fsm_nblocks rel")
    case True
    with r(1,3,4) have "page_at rel' ?p = fsm_page rel' ?p" by (simp add: page_at_read)
    then have "fsm_page rel' ?p = page_at rel ?p" using page_at_cong [OF r(1,2)] by simp
    with True r(3) show ?thesis by (simp add: GetRecordedFreeSpace_def loc rb recorded_def)
  next
    case False
    then show ?thesis using r(3)
      by (simp add: GetRecordedFreeSpace_def loc rb recorded_def page_at_def zero_page_def fsm_get_avail_def
          fsm_space_cat_to_avail_def)
  qed
qed

section \<open>The search\<close>

lemma valid_parent:
  assumes "valid_addr a" "level a < FSM_ROOT_LEVEL"
  shows "valid_addr (fst (fsm_get_parent a))"
proof -
  have "2 - level a = Suc (2 - (level a + 1))" using assms(2) by (simp add: Root_eq)
  then have "logpageno a < 4069 ^ (2 - (level a + 1)) * 4069"
    using assms by (simp add: valid_addr_def size_eqs mult.commute)
  then have "logpageno a div 4069 < 4069 ^ (2 - (level a + 1))" by (rule less_mult_imp_div_less)
  with assms show ?thesis by (simp add: valid_addr_def fsm_get_parent_def size_eqs)
qed

text \<open>A relation of up to \<open>2^32 - 4000\<close> blocks has a map of at most this many pages.\<close>

definition fsm_size_ok :: "FSMRel \<Rightarrow> bool" where
  "fsm_size_ok rel \<longleftrightarrow> unat (fsm_nblocks rel) \<le> 1055535"

lemma bottom_round_trip:
  assumes "valid_addr a" "level a = 0" "fsm_logical_to_physical a < fsm_nblocks rel" "fsm_size_ok rel"
    and "slot < LeafNodesPerPage"
  shows "fsm_get_location (fsm_get_heap_blk a slot) = (a, slot)"
proof -
  have "leaf_pos (logpageno a) < 1055535"
    using physical_eq [OF assms(1)] assms(2-4) by (simp add: fsm_size_ok_def word_less_nat_alt)
  then have "logpageno a \<le> 1055532" by (simp add: leaf_pos_def)
  moreover have "slot < 4069" using assms(5) Slots_eq by (simp add: SlotsPerFSMPage_def)
  ultimately show ?thesis using assms(2) by (intro location_heap_blk) simp_all
qed

text \<open>One visit of fsm_search to a page.\<close>

lemma search_visit:
  assumes "rel_inv rel" "fsm_readbuf rel addr False = (rel1, Some b)"
    and "fsm_search_avail (fsm_page rel1 b) c adv False others = (slot, page)"
  shows "rel_inv (put_page rel1 b page)" and "fsm_nblocks (put_page rel1 b page) = fsm_nblocks rel"
    and "b = fsm_logical_to_physical addr" and "b < fsm_nblocks rel"
    and "page_at (put_page rel1 b page) = (page_at rel)(b := page)"
    and "slot \<noteq> -1 \<Longrightarrow> 0 \<le> slot \<and> slot < int LeafNodesPerPage \<and> c \<le> fsm_get_avail page (nat slot)"
proof -
  from readbuf_noextend [OF assms(1), of addr] assms(2)
  have r: "rel_inv rel1" "fsm_nblocks rel1 = fsm_nblocks rel" "page_of rel1 = page_of rel" "\<not> fsm_page_new rel1 b"
    "b = fsm_logical_to_physical addr" "b < fsm_nblocks rel" by (auto split: if_splits)
  show "rel_inv (put_page rel1 b page)" "fsm_nblocks (put_page rel1 b page) = fsm_nblocks rel"
    "b = fsm_logical_to_physical addr" "b < fsm_nblocks rel" using r by simp_all
  show "page_at (put_page rel1 b page) = (page_at rel)(b := page)"
    using r page_at_cong [OF r(2,3)] by (simp add: page_at_put)
  show "0 \<le> slot \<and> slot < int LeafNodesPerPage \<and> c \<le> fsm_get_avail page (nat slot)" if "slot \<noteq> -1"
    using search_any_page [where page = "fsm_page rel1 b" and minvalue = c and advancenext = adv and excl = False
        and others = others] that by (simp add: assms(3))
qed

definition search_pre :: "FSMRel \<Rightarrow> FSMAddress \<Rightarrow> bool" where
  "search_pre rel addr \<longleftrightarrow> rel_inv rel \<and> fsm_size_ok rel \<and> valid_addr addr
     \<and> (addr = FSM_ROOT_ADDRESS \<or> fsm_logical_to_physical (fst (fsm_get_parent addr)) < fsm_nblocks rel)"

definition search_post :: "uint8 \<Rightarrow> FSMRel \<Rightarrow> FSMRel \<times> BlockNumber \<Rightarrow> bool" where
  "search_post c rel res \<longleftrightarrow> (case res of (rel', blk) \<Rightarrow>
     rel_inv rel' \<and> fsm_nblocks rel' = fsm_nblocks rel \<and> (blk \<noteq> InvalidBlockNumber \<longrightarrow> c \<le> recorded rel' blk))"

lemma search_hit_bottom:
  assumes "search_pre rel addr" "level addr = 0"
    and "fsm_readbuf rel addr False = (rel1, Some b)"
    and "fsm_search_avail (fsm_page rel1 b) c adv False others = (slot, page)" "slot \<noteq> -1"
  shows "search_post c rel (put_page rel1 b page, fsm_get_heap_blk addr (nat slot))"
proof -
  have inv: "rel_inv rel" using assms(1) by (simp add: search_pre_def)
  note v = search_visit [OF inv assms(3,4)]
  from v(6) [OF assms(5)] have s: "nat slot < LeafNodesPerPage" "c \<le> fsm_get_avail page (nat slot)" by auto
  have "fsm_get_location (fsm_get_heap_blk addr (nat slot)) = (addr, nat slot)"
    using assms(1,2) v(3,4) s(1) by (intro bottom_round_trip [of addr rel]) (auto simp: search_pre_def)
  then have "recorded (put_page rel1 b page) (fsm_get_heap_blk addr (nat slot)) = fsm_get_avail page (nat slot)"
    using v(3,5) by (simp add: recorded_def)
  with v s show ?thesis by (simp add: search_post_def)
qed

lemma search_hit_child:
  assumes "search_pre rel addr" "level addr \<noteq> 0"
    and "fsm_readbuf rel addr False = (rel1, Some b)"
    and "fsm_search_avail (fsm_page rel1 b) c adv False others = (slot, page)" "slot \<noteq> -1"
  shows "search_pre (put_page rel1 b page) (fsm_get_child addr (nat slot))"
proof -
  have inv: "rel_inv rel" using assms(1) by (simp add: search_pre_def)
  note v = search_visit [OF inv assms(3,4)]
  from v(6) [OF assms(5)] have s: "nat slot < SlotsPerFSMPage" by (auto simp: SlotsPerFSMPage_def)
  have "fsm_get_parent (fsm_get_child addr (nat slot)) = (addr, nat slot)" using s assms(2) by (intro parent_child) auto
  moreover have "valid_addr (fsm_get_child addr (nat slot))"
    using assms(1,2) s by (intro valid_child) (auto simp: search_pre_def)
  ultimately show ?thesis using v assms(1) by (simp add: search_pre_def fsm_size_ok_def)
qed

lemma search_miss:
  assumes "search_pre rel addr" "level addr \<noteq> FSM_ROOT_LEVEL" "fsm_get_parent addr = (parent, pslot)"
    and "rel_inv rel2" "fsm_nblocks rel2 = fsm_nblocks rel"
    and "fsm_set_and_search rel2 parent pslot v 0 = (rel3, r)"
  shows "search_pre rel3 FSM_ROOT_ADDRESS" and "fsm_nblocks rel3 = fsm_nblocks rel"
proof -
  have ph: "fsm_logical_to_physical parent < fsm_nblocks rel" "valid_addr parent"
    using assms(1-3) valid_parent [of addr] by (auto simp: search_pre_def valid_addr_def FSM_ROOT_ADDRESS_def)
  from set_and_search_set [OF assms(4) ph(2), of pslot v] assms(6)
  have r3: "rel_inv rel3" "fsm_nblocks rel3 = max (fsm_nblocks rel2) (fsm_logical_to_physical parent + 1)" by simp_all
  have "unat (fsm_logical_to_physical parent + 1) = unat (fsm_logical_to_physical parent) + 1"
    using physical_bound [OF ph(2)] by (simp add: unat_word_ariths)
  then have "fsm_logical_to_physical parent + 1 \<le> fsm_nblocks rel" using ph(1) by (simp add: word_le_nat_alt word_less_nat_alt)
  then show n: "fsm_nblocks rel3 = fsm_nblocks rel" using r3(2) assms(5) by (simp add: max_absorb1)
  show "search_pre rel3 FSM_ROOT_ADDRESS" using assms(1) r3(1) n by (simp add: search_pre_def valid_root fsm_size_ok_def)
qed

lemma search_post_trans: "fsm_nblocks rel2 = fsm_nblocks rel \<Longrightarrow> search_post c rel2 res \<Longrightarrow> search_post c rel res"
  by (auto simp: search_post_def)

lemma visit_page_inv:
  assumes "rel_inv rel" "visit_page c others rel addr = (rel2, slot, mx)"
  shows "rel_inv rel2 \<and> fsm_nblocks rel2 = fsm_nblocks rel"
proof -
  obtain rel1 buf where rb: "fsm_readbuf rel addr False = (rel1, buf)" by fastforce
  show ?thesis
  proof (cases buf)
    case None
    with assms rb readbuf_noextend [OF assms(1), of addr] show ?thesis by (auto simp: visit_page_def)
  next
    case (Some b)
    with assms rb search_visit [OF assms(1), of addr rel1 b] show ?thesis
      by (auto simp: visit_page_def split: prod.splits)
  qed
qed

lemma visit_page_hit:
  assumes "visit_page c others rel addr = (rel2, slot, mx)" "slot \<noteq> -1"
  obtains rel1 b page where "fsm_readbuf rel addr False = (rel1, Some b)"
    "fsm_search_avail (fsm_page rel1 b) c (level addr = FSM_BOTTOM_LEVEL) False others = (slot, page)"
    "rel2 = put_page rel1 b page"
  using assms by (auto simp: visit_page_def split: prod.splits option.splits)

lemma fsm_search_loop_post:
  "search_pre rel addr \<Longrightarrow> search_post c rel (fsm_search_loop c others rel restarts addr)"
proof (induction c others rel restarts addr rule: fsm_search_loop.induct)
  case (1 c others rel restarts addr)
  obtain rel2 slot mx where v: "visit_page c others rel addr = (rel2, slot, mx)" by (metis prod_cases3)
  have inv: "rel_inv rel" using 1(3) by (simp add: search_pre_def)
  note rel2 = visit_page_inv [OF inv v]
  note step = fsm_search_loop.simps [of c others rel restarts addr, unfolded v Let_def prod.case]
  show ?case
  proof (cases "slot = -1")
    case False
    then obtain rel1 b page where hit: "fsm_readbuf rel addr False = (rel1, Some b)"
      "fsm_search_avail (fsm_page rel1 b) c (level addr = FSM_BOTTOM_LEVEL) False others = (slot, page)"
      "rel2 = put_page rel1 b page" by (rule visit_page_hit [OF v])
    show ?thesis
    proof (cases "level addr = FSM_BOTTOM_LEVEL")
      case True
      with search_hit_bottom [OF 1(3) _ hit(1,2) False] step False hit(3)
      show ?thesis by (simp add: FSM_BOTTOM_LEVEL_def)
    next
      case inner: False
      then have pre: "search_pre rel2 (fsm_get_child addr (nat slot))"
        using search_hit_child [OF 1(3) _ hit(1,2) False] hit(3) by (simp add: FSM_BOTTOM_LEVEL_def)
      have "search_post c rel2 (fsm_search_loop c others rel2 restarts (fsm_get_child addr (nat slot)))"
        by (rule 1(1) [OF v [symmetric] refl refl False inner pre])
      from search_post_trans [OF conjunct2 [OF rel2] this] step False inner show ?thesis by simp
    qed
  next
    case True
    show ?thesis
    proof (cases "level addr = FSM_ROOT_LEVEL")
      case root: True
      then show ?thesis using step True rel2 by (simp add: search_post_def)
    next
      case nroot: False
      obtain parent ps where par: "fsm_get_parent addr = (parent, ps)" by fastforce
      obtain rel3 r where sas: "fsm_set_and_search rel2 parent ps mx 0 = (rel3, r)" by fastforce
      note miss = search_miss [OF 1(3) nroot par conjunct1 [OF rel2] conjunct2 [OF rel2] sas]
      show ?thesis
      proof (cases "restarts > 10000")
        case over: True
        then show ?thesis using step True nroot par sas miss by (simp add: search_post_def search_pre_def)
      next
        case False
        have "search_post c rel3 (fsm_search_loop c others rel3 (restarts + 1) FSM_ROOT_ADDRESS)"
          using 1(2) [OF v [symmetric] refl refl _ nroot refl par [symmetric] refl sas [symmetric] False miss(1)] True by simp
        from search_post_trans [OF miss(2) this] step True nroot par sas False show ?thesis by simp
      qed
    qed
  qed
qed

lemma fsm_search_post:
  "rel_inv rel \<Longrightarrow> fsm_size_ok rel \<Longrightarrow> search_post c rel (fsm_search rel c others)"
  unfolding fsm_search_def by (rule fsm_search_loop_post) (simp add: search_pre_def valid_root)

section \<open>Properties\<close>

text \<open>C36. The categories are sound and lose little: a page recorded with \<open>a\<close> free bytes is
  only offered for requests of at most \<open>a\<close> bytes, it is offered whenever a whole category step more
  is free or the page can hold the largest request, and the lower bound stored for a category
  maps back to that category.  Only requests above MaxFSMRequestSize are refused.\<close>

theorem fsm_categories_sound:
  "(if n > MaxFSMRequestSize then fsm_space_needed_to_cat n = Inl (ERROR ''invalid FSM request size'')
    else \<exists>c. fsm_space_needed_to_cat n = Inr c \<and> c \<noteq> 0
      \<and> (c \<le> fsm_space_avail_to_cat a \<longrightarrow> n \<le> a)
      \<and> (n + FSM_CAT_STEP \<le> a \<or> MaxFSMRequestSize \<le> a \<longrightarrow> c \<le> fsm_space_avail_to_cat a))
   \<and> fsm_space_cat_to_avail (fsm_space_avail_to_cat a) \<le> a
   \<and> fsm_space_avail_to_cat (fsm_space_cat_to_avail k) = k"
proof -
  have rt: "fsm_space_avail_to_cat (fsm_space_cat_to_avail k) = k"
  proof -
    have "unat k < 2 ^ LENGTH(8)" by (rule unsigned_less)
    moreover have "k \<noteq> 255 \<Longrightarrow> unat k \<noteq> 255" by (simp add: word_unat_eq_iff)
    ultimately have "unat (fsm_space_avail_to_cat (fsm_space_cat_to_avail k)) = unat k"
      by (auto simp: unat_avail_to_cat fsm_space_cat_to_avail_def cat_defs)
    then show ?thesis by (simp add: word_unat_eq_iff)
  qed
  have low: "fsm_space_cat_to_avail (fsm_space_avail_to_cat a) \<le> a"
  proof -
    have "fsm_space_avail_to_cat a = 255 \<longleftrightarrow> a \<ge> MaxFSMRequestSize"
      using unat_avail_to_cat [of a] by (auto simp: fsm_space_avail_to_cat_def split: if_splits)
    then show ?thesis by (auto simp: fsm_space_cat_to_avail_def unat_avail_to_cat cat_defs min_def)
  qed
  show ?thesis
  proof (cases "n > MaxFSMRequestSize")
    case True
    with rt low show ?thesis by (simp add: fsm_space_needed_to_cat_def)
  next
    case False
    then obtain c where c: "fsm_space_needed_to_cat n = Inr c" "c \<noteq> 0"
      "unat c = (if n = 0 then 1 else min 255 ((n + 31) div 32))" using needed_to_cat [of n] by auto
    have "c \<le> fsm_space_avail_to_cat a \<Longrightarrow> n \<le> a"
      using c(3) False by (auto simp: word_le_nat_alt unat_avail_to_cat cat_defs min_def split: if_splits)
    moreover have "n + FSM_CAT_STEP \<le> a \<or> MaxFSMRequestSize \<le> a \<Longrightarrow> c \<le> fsm_space_avail_to_cat a"
      using c(3) False by (auto simp: word_le_nat_alt unat_avail_to_cat cat_defs min_def split: if_splits)
    ultimately show ?thesis using False c rt low by simp
  qed
qed

theorem fsm_categories_sound_witness:
  "\<exists>c. fsm_space_needed_to_cat 100 = Inr c \<and> c \<le> fsm_space_avail_to_cat 200 \<and> \<not> c \<le> fsm_space_avail_to_cat 99"
  using fsm_categories_sound [of 100 200 0] fsm_categories_sound [of 100 99 0] by (auto simp: cat_defs)

text \<open>C37. The logical addressing is consistent: the slot of a heap block leads back to the block,
  the parent of a child page is the page it was reached from and the slot the one taken, and
  different addresses of the tree lie in different blocks of the fork.\<close>

theorem fsm_addresses_consistent:
  "(case fsm_get_location blk of (a, slot) \<Rightarrow> fsm_get_heap_blk a slot = blk \<and> valid_addr a \<and> slot < SlotsPerFSMPage)
   \<and> (case fsm_get_parent a of (p, s) \<Rightarrow> fsm_get_child p s = a)
   \<and> (slot < SlotsPerFSMPage \<and> 0 < level a \<longrightarrow> fsm_get_parent (fsm_get_child a slot) = (a, slot))
   \<and> (valid_addr a \<and> valid_addr b \<and> fsm_logical_to_physical a = fsm_logical_to_physical b \<longrightarrow> a = b)"
  using heap_blk_location [of blk] location_valid [of blk] child_parent [of a] parent_child [of slot a] physical_inj [of a b]
  by (auto simp: SlotsPerFSMPage_def split: prod.splits)

theorem fsm_addresses_consistent_witness:
  "fsm_get_parent (fsm_get_child FSM_ROOT_ADDRESS 17) = (FSM_ROOT_ADDRESS, 17)"
  using fsm_addresses_consistent [where slot = 17 and a = FSM_ROOT_ADDRESS]
  by (simp add: size_eqs FSM_ROOT_ADDRESS_def)

text \<open>C38. RecordPageWithFreeSpace changes the recorded category of its block to that of the given
  space and of no other block, extending the map with empty pages if need be; and
  GetRecordedFreeSpace afterwards reports the lower bound of that category.\<close>

theorem RecordPageWithFreeSpace_recorded:
  assumes "rel_inv rel"
  shows "rel_inv (RecordPageWithFreeSpace rel blk avail)
    \<and> recorded (RecordPageWithFreeSpace rel blk avail) b = (if b = blk then fsm_space_avail_to_cat avail else recorded rel b)
    \<and> snd (GetRecordedFreeSpace (RecordPageWithFreeSpace rel blk avail) blk) = fsm_space_cat_to_avail (fsm_space_avail_to_cat avail)"
  using record_spec [OF assms, of blk avail] recorded_space [of "RecordPageWithFreeSpace rel blk avail" blk] by simp

definition empty_fork :: FSMRel where
  "empty_fork = \<lparr>fsm_exists = False, fsm_nblocks = 0, fsm_page = \<lambda>_. zero_page, fsm_page_new = \<lambda>_. False,
     smgr_fsm_nblocks = InvalidBlockNumber\<rparr>"

lemma rel_inv_empty_fork: "rel_inv empty_fork"
  by (simp add: rel_inv_def empty_fork_def)

theorem RecordPageWithFreeSpace_recorded_witness:
  "snd (GetRecordedFreeSpace (RecordPageWithFreeSpace empty_fork 5000 100) 5000) = 96"
  using RecordPageWithFreeSpace_recorded [OF rel_inv_empty_fork, of 5000 100]
  by (simp add: fsm_space_avail_to_cat_def fsm_space_cat_to_avail_def cat_defs)

text \<open>C39. fsm_search always ends, whatever the upper pages claim and other backends do; a block it
  returns is recorded, in the state it leaves, with at least the requested category, and the
  search never lengthens the map.\<close>

theorem fsm_search_sound:
  assumes "rel_inv rel" and "fsm_size_ok rel"
  shows "(case fsm_search rel min_cat others of (rel', blk) \<Rightarrow>
    rel_inv rel' \<and> fsm_nblocks rel' = fsm_nblocks rel \<and> (blk \<noteq> InvalidBlockNumber \<longrightarrow> min_cat \<le> recorded rel' blk))"
  using fsm_search_post [OF assms, of min_cat others] by (simp add: search_post_def)

theorem fsm_search_sound_witness:
  "fsm_nblocks (fst (fsm_search empty_fork 10 id)) = 0"
  using fsm_search_sound [of empty_fork 10 id] rel_inv_empty_fork
  by (auto simp: fsm_size_ok_def empty_fork_def split: prod.splits)



end
