(* ===== verification/HeapTuple.thy ===== *)
theory HeapTuple
  imports Freespace ProcArray
begin

text \<open>
  The header of a heap tuple as far as visibility needs it: the flags and macros of
  \<open>src/include/access/htup_details.h\<close>, item pointers, and the pairs of command ids that
  \<open>src/backend/utils/time/combocid.c\<close> keeps for tuples inserted and deleted by one transaction.
\<close>

section \<open>Item pointers\<close>

record ItemPointerData =
  ip_blkid :: BlockNumber
  ip_posid :: uint16

definition SpecTokenOffsetNumber :: uint16 where
  "SpecTokenOffsetNumber = 0xfffe"

definition MovedPartitionsOffsetNumber :: uint16 where
  "MovedPartitionsOffsetNumber = 0xfffd"

definition MovedPartitionsBlockNumber :: BlockNumber where
  "MovedPartitionsBlockNumber = InvalidBlockNumber"

definition ItemPointerEquals :: "ItemPointerData \<Rightarrow> ItemPointerData \<Rightarrow> bool" where
  "ItemPointerEquals pointer1 pointer2 =
     (if ip_blkid pointer1 = ip_blkid pointer2 \<and> ip_posid pointer1 = ip_posid pointer2 then True else False)"

section \<open>Tuple headers\<close>

text \<open>\<open>t_field3\<close> is a union: a command id, or the id of an old-style VACUUM FULL for a moved tuple.\<close>

record HeapTupleHeaderData =
  t_xmin :: TransactionId
  t_xmax :: TransactionId
  t_field3 :: uint32
  t_ctid :: ItemPointerData
  t_infomask2 :: uint16
  t_infomask :: uint16

named_theorems flag_defs "definitions of the flags in t_infomask and t_infomask2"

definition HEAP_HASNULL :: uint16 where
  "HEAP_HASNULL = 0x0001"

definition HEAP_HASVARWIDTH :: uint16 where
  "HEAP_HASVARWIDTH = 0x0002"

definition HEAP_HASEXTERNAL :: uint16 where
  "HEAP_HASEXTERNAL = 0x0004"

definition HEAP_HASOID_OLD :: uint16 where
  "HEAP_HASOID_OLD = 0x0008"

definition HEAP_XMAX_KEYSHR_LOCK :: uint16 where [flag_defs]:
  "HEAP_XMAX_KEYSHR_LOCK = 0x0010"

definition HEAP_COMBOCID :: uint16 where [flag_defs]:
  "HEAP_COMBOCID = 0x0020"

definition HEAP_XMAX_EXCL_LOCK :: uint16 where [flag_defs]:
  "HEAP_XMAX_EXCL_LOCK = 0x0040"

definition HEAP_XMAX_LOCK_ONLY :: uint16 where [flag_defs]:
  "HEAP_XMAX_LOCK_ONLY = 0x0080"

definition HEAP_XMAX_SHR_LOCK :: uint16 where [flag_defs]:
  "HEAP_XMAX_SHR_LOCK = HEAP_XMAX_EXCL_LOCK OR HEAP_XMAX_KEYSHR_LOCK"

definition HEAP_LOCK_MASK :: uint16 where [flag_defs]:
  "HEAP_LOCK_MASK = HEAP_XMAX_SHR_LOCK OR HEAP_XMAX_EXCL_LOCK OR HEAP_XMAX_KEYSHR_LOCK"

definition HEAP_XMIN_COMMITTED :: uint16 where [flag_defs]:
  "HEAP_XMIN_COMMITTED = 0x0100"

definition HEAP_XMIN_INVALID :: uint16 where [flag_defs]:
  "HEAP_XMIN_INVALID = 0x0200"

definition HEAP_XMIN_FROZEN :: uint16 where [flag_defs]:
  "HEAP_XMIN_FROZEN = HEAP_XMIN_COMMITTED OR HEAP_XMIN_INVALID"

definition HEAP_XMAX_COMMITTED :: uint16 where [flag_defs]:
  "HEAP_XMAX_COMMITTED = 0x0400"

definition HEAP_XMAX_INVALID :: uint16 where [flag_defs]:
  "HEAP_XMAX_INVALID = 0x0800"

definition HEAP_XMAX_IS_MULTI :: uint16 where [flag_defs]:
  "HEAP_XMAX_IS_MULTI = 0x1000"

definition HEAP_UPDATED :: uint16 where [flag_defs]:
  "HEAP_UPDATED = 0x2000"

definition HEAP_MOVED_OFF :: uint16 where [flag_defs]:
  "HEAP_MOVED_OFF = 0x4000"

definition HEAP_MOVED_IN :: uint16 where [flag_defs]:
  "HEAP_MOVED_IN = 0x8000"

definition HEAP_MOVED :: uint16 where [flag_defs]:
  "HEAP_MOVED = HEAP_MOVED_OFF OR HEAP_MOVED_IN"

definition HEAP_XMAX_BITS :: uint16 where [flag_defs]:
  "HEAP_XMAX_BITS = HEAP_XMAX_COMMITTED OR HEAP_XMAX_INVALID OR HEAP_XMAX_IS_MULTI OR HEAP_LOCK_MASK OR HEAP_XMAX_LOCK_ONLY"

definition HEAP_HOT_UPDATED :: uint16 where
  "HEAP_HOT_UPDATED = 0x4000"

definition HEAP_ONLY_TUPLE :: uint16 where
  "HEAP_ONLY_TUPLE = 0x8000"

definition HEAP_NATTS_MASK :: uint16 where
  "HEAP_NATTS_MASK = 0x07FF"

section \<open>Tests on flags\<close>

definition HEAP_XMAX_IS_LOCKED_ONLY :: "uint16 \<Rightarrow> bool" where
  "HEAP_XMAX_IS_LOCKED_ONLY infomask \<longleftrightarrow> infomask AND HEAP_XMAX_LOCK_ONLY \<noteq> 0
     \<or> infomask AND (HEAP_XMAX_IS_MULTI OR HEAP_LOCK_MASK) = HEAP_XMAX_EXCL_LOCK"

definition HEAP_LOCKED_UPGRADED :: "uint16 \<Rightarrow> bool" where
  "HEAP_LOCKED_UPGRADED infomask \<longleftrightarrow> infomask AND HEAP_XMAX_IS_MULTI \<noteq> 0 \<and> infomask AND HEAP_XMAX_LOCK_ONLY \<noteq> 0
     \<and> infomask AND (HEAP_XMAX_EXCL_LOCK OR HEAP_XMAX_KEYSHR_LOCK) = 0"

definition HEAP_XMAX_IS_SHR_LOCKED :: "uint16 \<Rightarrow> bool" where
  "HEAP_XMAX_IS_SHR_LOCKED infomask \<longleftrightarrow> infomask AND HEAP_LOCK_MASK = HEAP_XMAX_SHR_LOCK"

definition HEAP_XMAX_IS_EXCL_LOCKED :: "uint16 \<Rightarrow> bool" where
  "HEAP_XMAX_IS_EXCL_LOCKED infomask \<longleftrightarrow> infomask AND HEAP_LOCK_MASK = HEAP_XMAX_EXCL_LOCK"

definition HEAP_XMAX_IS_KEYSHR_LOCKED :: "uint16 \<Rightarrow> bool" where
  "HEAP_XMAX_IS_KEYSHR_LOCKED infomask \<longleftrightarrow> infomask AND HEAP_LOCK_MASK = HEAP_XMAX_KEYSHR_LOCK"

definition HeapTupleHeaderXminCommitted :: "HeapTupleHeaderData \<Rightarrow> bool" where
  "HeapTupleHeaderXminCommitted tup \<longleftrightarrow> t_infomask tup AND HEAP_XMIN_COMMITTED \<noteq> 0"

definition HeapTupleHeaderXminInvalid :: "HeapTupleHeaderData \<Rightarrow> bool" where
  "HeapTupleHeaderXminInvalid tup \<longleftrightarrow> t_infomask tup AND (HEAP_XMIN_COMMITTED OR HEAP_XMIN_INVALID) = HEAP_XMIN_INVALID"

definition HeapTupleHeaderXminFrozen :: "HeapTupleHeaderData \<Rightarrow> bool" where
  "HeapTupleHeaderXminFrozen tup \<longleftrightarrow> t_infomask tup AND HEAP_XMIN_FROZEN = HEAP_XMIN_FROZEN"

definition HeapTupleHeaderGetRawXmin :: "HeapTupleHeaderData \<Rightarrow> TransactionId" where
  "HeapTupleHeaderGetRawXmin tup = t_xmin tup"

definition HeapTupleHeaderGetXmin :: "HeapTupleHeaderData \<Rightarrow> TransactionId" where
  "HeapTupleHeaderGetXmin tup = (if HeapTupleHeaderXminFrozen tup then FrozenTransactionId else HeapTupleHeaderGetRawXmin tup)"

definition HeapTupleHeaderGetRawXmax :: "HeapTupleHeaderData \<Rightarrow> TransactionId" where
  "HeapTupleHeaderGetRawXmax tup = t_xmax tup"

definition HeapTupleHeaderGetRawCommandId :: "HeapTupleHeaderData \<Rightarrow> CommandId" where
  "HeapTupleHeaderGetRawCommandId tup = t_field3 tup"

definition HeapTupleHeaderGetXvac :: "HeapTupleHeaderData \<Rightarrow> TransactionId" where
  "HeapTupleHeaderGetXvac tup = (if t_infomask tup AND HEAP_MOVED \<noteq> 0 then t_field3 tup else InvalidTransactionId)"

definition HeapTupleHeaderIsSpeculative :: "HeapTupleHeaderData \<Rightarrow> bool" where
  "HeapTupleHeaderIsSpeculative tup \<longleftrightarrow> ip_posid (t_ctid tup) = SpecTokenOffsetNumber"

definition HeapTupleHeaderGetSpeculativeToken :: "HeapTupleHeaderData \<Rightarrow> uint32" where
  "HeapTupleHeaderGetSpeculativeToken tup = ip_blkid (t_ctid tup)"

definition HeapTupleHeaderIndicatesMovedPartitions :: "HeapTupleHeaderData \<Rightarrow> bool" where
  "HeapTupleHeaderIndicatesMovedPartitions tup \<longleftrightarrow> ip_posid (t_ctid tup) = MovedPartitionsOffsetNumber
     \<and> ip_blkid (t_ctid tup) = MovedPartitionsBlockNumber"

definition HeapTupleHeaderIsHotUpdated :: "HeapTupleHeaderData \<Rightarrow> bool" where
  "HeapTupleHeaderIsHotUpdated tup \<longleftrightarrow> t_infomask2 tup AND HEAP_HOT_UPDATED \<noteq> 0 \<and> t_infomask tup AND HEAP_XMAX_INVALID = 0
     \<and> \<not> HeapTupleHeaderXminInvalid tup"

definition HeapTupleHeaderIsHeapOnly :: "HeapTupleHeaderData \<Rightarrow> bool" where
  "HeapTupleHeaderIsHeapOnly tup \<longleftrightarrow> t_infomask2 tup AND HEAP_ONLY_TUPLE \<noteq> 0"

definition HeapTupleHeaderGetNatts :: "HeapTupleHeaderData \<Rightarrow> uint16" where
  "HeapTupleHeaderGetNatts tup = t_infomask2 tup AND HEAP_NATTS_MASK"

section \<open>Setters\<close>

definition HeapTupleHeaderSetXmin :: "HeapTupleHeaderData \<Rightarrow> TransactionId \<Rightarrow> HeapTupleHeaderData" where
  "HeapTupleHeaderSetXmin tup xid = tup\<lparr>t_xmin := xid\<rparr>"

definition HeapTupleHeaderSetXmax :: "HeapTupleHeaderData \<Rightarrow> TransactionId \<Rightarrow> HeapTupleHeaderData" where
  "HeapTupleHeaderSetXmax tup xid = tup\<lparr>t_xmax := xid\<rparr>"

definition HeapTupleHeaderSetXminCommitted :: "HeapTupleHeaderData \<Rightarrow> HeapTupleHeaderData" where
  "HeapTupleHeaderSetXminCommitted tup = tup\<lparr>t_infomask := t_infomask tup OR HEAP_XMIN_COMMITTED\<rparr>"

definition HeapTupleHeaderSetXminInvalid :: "HeapTupleHeaderData \<Rightarrow> HeapTupleHeaderData" where
  "HeapTupleHeaderSetXminInvalid tup = tup\<lparr>t_infomask := t_infomask tup OR HEAP_XMIN_INVALID\<rparr>"

definition HeapTupleHeaderSetXminFrozen :: "HeapTupleHeaderData \<Rightarrow> HeapTupleHeaderData" where
  "HeapTupleHeaderSetXminFrozen tup = tup\<lparr>t_infomask := t_infomask tup OR HEAP_XMIN_FROZEN\<rparr>"

definition HeapTupleHeaderSetCmin :: "HeapTupleHeaderData \<Rightarrow> CommandId \<Rightarrow> HeapTupleHeaderData" where
  "HeapTupleHeaderSetCmin tup cid = tup\<lparr>t_field3 := cid, t_infomask := t_infomask tup AND NOT HEAP_COMBOCID\<rparr>"

definition HeapTupleHeaderSetCmax :: "HeapTupleHeaderData \<Rightarrow> CommandId \<Rightarrow> bool \<Rightarrow> HeapTupleHeaderData" where
  "HeapTupleHeaderSetCmax tup cid iscombo =
     tup\<lparr>t_field3 := cid, t_infomask := (if iscombo then t_infomask tup OR HEAP_COMBOCID else t_infomask tup AND NOT HEAP_COMBOCID)\<rparr>"

section \<open>Flags as bits\<close>

text \<open>Every test is a test on single bits of the mask.\<close>

lemma flag_bits [simp]:
  "m AND HEAP_XMAX_LOCK_ONLY = 0 \<longleftrightarrow> \<not> bit m 7" "m AND HEAP_COMBOCID = 0 \<longleftrightarrow> \<not> bit m 5"
  "m AND HEAP_XMIN_COMMITTED = 0 \<longleftrightarrow> \<not> bit m 8" "m AND HEAP_XMIN_INVALID = 0 \<longleftrightarrow> \<not> bit m 9"
  "m AND HEAP_XMAX_COMMITTED = 0 \<longleftrightarrow> \<not> bit m 10" "m AND HEAP_XMAX_INVALID = 0 \<longleftrightarrow> \<not> bit m 11"
  "m AND HEAP_XMAX_IS_MULTI = 0 \<longleftrightarrow> \<not> bit m 12"
  "m AND HEAP_MOVED_OFF = 0 \<longleftrightarrow> \<not> bit m 14" "m AND HEAP_MOVED_IN = 0 \<longleftrightarrow> \<not> bit m 15"
  using and_exp_eq_0_iff_not_bit [of m 7] and_exp_eq_0_iff_not_bit [of m 5] and_exp_eq_0_iff_not_bit [of m 8]
    and_exp_eq_0_iff_not_bit [of m 9] and_exp_eq_0_iff_not_bit [of m 10] and_exp_eq_0_iff_not_bit [of m 11]
    and_exp_eq_0_iff_not_bit [of m 12] and_exp_eq_0_iff_not_bit [of m 14] and_exp_eq_0_iff_not_bit [of m 15]
  by (simp_all add: flag_defs)

lemma bit_flag: "k < 16 \<Longrightarrow> bit (2 ^ k :: 16 word) n \<longleftrightarrow> n = k"
  by (auto simp: bit_exp_iff)

lemma flag_bit [simp]:
  "bit HEAP_XMIN_COMMITTED n \<longleftrightarrow> n = 8" "bit HEAP_XMIN_INVALID n \<longleftrightarrow> n = 9" "bit HEAP_XMAX_COMMITTED n \<longleftrightarrow> n = 10"
  "bit HEAP_XMAX_INVALID n \<longleftrightarrow> n = 11" "bit HEAP_COMBOCID n \<longleftrightarrow> n = 5"
proof -
  have f: "HEAP_XMIN_COMMITTED = 2 ^ 8" "HEAP_XMIN_INVALID = 2 ^ 9" "HEAP_XMAX_COMMITTED = 2 ^ 10" "HEAP_XMAX_INVALID = 2 ^ 11" "HEAP_COMBOCID = 2 ^ 5"
    by (simp_all add: flag_defs)
  show "bit HEAP_XMIN_COMMITTED n \<longleftrightarrow> n = 8" unfolding f by (rule bit_flag) simp
  show "bit HEAP_XMIN_INVALID n \<longleftrightarrow> n = 9" unfolding f by (rule bit_flag) simp
  show "bit HEAP_XMAX_COMMITTED n \<longleftrightarrow> n = 10" unfolding f by (rule bit_flag) simp
  show "bit HEAP_XMAX_INVALID n \<longleftrightarrow> n = 11" unfolding f by (rule bit_flag) simp
  show "bit HEAP_COMBOCID n \<longleftrightarrow> n = 5" unfolding f by (rule bit_flag) simp
qed

lemma and_flag: "(m :: 16 word) AND 2 ^ n = (if bit m n then 2 ^ n else 0)"
  by (rule bit_eqI) (auto simp: bit_and_iff bit_exp_iff)

lemma xmin_bits [simp]:
  "HeapTupleHeaderXminCommitted h \<longleftrightarrow> bit (t_infomask h) 8"
  "HeapTupleHeaderXminInvalid h \<longleftrightarrow> \<not> bit (t_infomask h) 8 \<and> bit (t_infomask h) 9"
  "HeapTupleHeaderXminFrozen h \<longleftrightarrow> bit (t_infomask h) 8 \<and> bit (t_infomask h) 9"
proof -
  have f: "HEAP_XMIN_COMMITTED = 2 ^ 8" "HEAP_XMIN_INVALID = 2 ^ 9" "HEAP_XMIN_FROZEN = 2 ^ 8 OR 2 ^ 9" by (simp_all add: flag_defs)
  show "HeapTupleHeaderXminCommitted h \<longleftrightarrow> bit (t_infomask h) 8" by (simp add: HeapTupleHeaderXminCommitted_def)
  show "HeapTupleHeaderXminInvalid h \<longleftrightarrow> \<not> bit (t_infomask h) 8 \<and> bit (t_infomask h) 9"
    unfolding HeapTupleHeaderXminInvalid_def f bit.conj_disj_distrib and_flag by simp
  show "HeapTupleHeaderXminFrozen h \<longleftrightarrow> bit (t_infomask h) 8 \<and> bit (t_infomask h) 9"
    unfolding HeapTupleHeaderXminFrozen_def f bit.conj_disj_distrib and_flag by simp
qed

lemma locked_only_bits [simp]: "HEAP_XMAX_IS_LOCKED_ONLY m \<longleftrightarrow> bit m 7 \<or> \<not> bit m 12 \<and> bit m 6 \<and> \<not> bit m 4"
proof -
  have f: "HEAP_XMAX_IS_MULTI OR HEAP_LOCK_MASK = 2 ^ 12 OR 2 ^ 6 OR 2 ^ 4" "HEAP_XMAX_EXCL_LOCK = 2 ^ 6" by (simp_all add: flag_defs)
  have "m AND (HEAP_XMAX_IS_MULTI OR HEAP_LOCK_MASK) = HEAP_XMAX_EXCL_LOCK \<longleftrightarrow> \<not> bit m 12 \<and> bit m 6 \<and> \<not> bit m 4"
    unfolding f bit.conj_disj_distrib and_flag by simp
  then show ?thesis by (simp add: HEAP_XMAX_IS_LOCKED_ONLY_def)
qed

end
