(* ===== verification/ComboCid.thy ===== *)
theory ComboCid
  imports HeapTuple
begin

text \<open>
  Combo command ids, \<open>src/backend/utils/time/combocid.c\<close>: a tuple that is inserted and deleted by one
  transaction has room for one command id only, so that the pair of its cmin and cmax is kept in an
  array of the backend and the tuple holds the index.  The hash table that finds a pair again is a map;
  the serialized state is the sequence of its 32-bit words, the count first.
\<close>

section \<open>Operations\<close>

record ComboCid =
  comboHash :: "(CommandId \<times> CommandId \<rightharpoonup> CommandId) option"
  comboCids :: "(CommandId \<times> CommandId) list"
  sizeComboCids :: nat

definition CCID_ARRAY_SIZE :: nat where
  "CCID_ARRAY_SIZE = 100"

definition GetRealCmin :: "ComboCid \<Rightarrow> CommandId \<Rightarrow> CommandId" where
  "GetRealCmin cs combocid = fst (comboCids cs ! unat combocid)"

definition GetRealCmax :: "ComboCid \<Rightarrow> CommandId \<Rightarrow> CommandId" where
  "GetRealCmax cs combocid = snd (comboCids cs ! unat combocid)"

definition HeapTupleHeaderGetCmin :: "ComboCid \<Rightarrow> HeapTupleHeaderData \<Rightarrow> CommandId" where
  "HeapTupleHeaderGetCmin cs tup =
     (let cid = HeapTupleHeaderGetRawCommandId tup
      in if t_infomask tup AND HEAP_COMBOCID \<noteq> 0 then GetRealCmin cs cid else cid)"

definition HeapTupleHeaderGetCmax :: "ComboCid \<Rightarrow> HeapTupleHeaderData \<Rightarrow> CommandId" where
  "HeapTupleHeaderGetCmax cs tup =
     (let cid = HeapTupleHeaderGetRawCommandId tup
      in if t_infomask tup AND HEAP_COMBOCID \<noteq> 0 then GetRealCmax cs cid else cid)"

definition GetComboCommandId :: "ComboCid \<Rightarrow> CommandId \<Rightarrow> CommandId \<Rightarrow> ComboCid \<times> CommandId" where
  "GetComboCommandId cs cmin cmax =
     (let cs = (case comboHash cs of
                  None \<Rightarrow> \<lparr>comboHash = Some Map.empty, comboCids = [], sizeComboCids = CCID_ARRAY_SIZE\<rparr>
                | Some _ \<Rightarrow> cs);
          cs = (if length (comboCids cs) \<ge> sizeComboCids cs then cs\<lparr>sizeComboCids := sizeComboCids cs * 2\<rparr> else cs);
          hash = the (comboHash cs)
      in case hash (cmin, cmax) of
           Some combocid \<Rightarrow> (cs, combocid)
         | None \<Rightarrow>
             let combocid = of_nat (length (comboCids cs))
             in (cs\<lparr>comboCids := comboCids cs @ [(cmin, cmax)], comboHash := Some (hash((cmin, cmax) \<mapsto> combocid))\<rparr>, combocid))"

text \<open>The command id to store for a deletion, and whether it is a combo command id.\<close>

definition HeapTupleHeaderAdjustCmax :: "Backend \<Rightarrow> ComboCid \<Rightarrow> HeapTupleHeaderData \<Rightarrow> CommandId \<Rightarrow> ComboCid \<times> CommandId \<times> bool" where
  "HeapTupleHeaderAdjustCmax b cs tup cmax =
     (if \<not> HeapTupleHeaderXminCommitted tup \<and> TransactionIdIsCurrentTransactionId b (HeapTupleHeaderGetRawXmin tup)
      then let cmin = HeapTupleHeaderGetCmin cs tup; (cs, combocid) = GetComboCommandId cs cmin cmax
           in (cs, combocid, True)
      else (cs, cmax, False))"

definition AtEOXact_ComboCid :: "ComboCid \<Rightarrow> ComboCid" where
  "AtEOXact_ComboCid cs = \<lparr>comboHash = None, comboCids = [], sizeComboCids = 0\<rparr>"

definition EstimateComboCIDStateSpace :: "ComboCid \<Rightarrow> nat" where
  "EstimateComboCIDStateSpace cs = 4 + 8 * length (comboCids cs)"

definition SerializeComboCIDState :: "ComboCid \<Rightarrow> nat \<Rightarrow> uint32 list result" where
  "SerializeComboCIDState cs maxsize =
     (if 4 + 8 * length (comboCids cs) > maxsize then Inl (ERROR ''not enough space to serialize ComboCID state'')
      else Inr (of_nat (length (comboCids cs)) # concat (map (\<lambda>(cmin, cmax). [cmin, cmax]) (comboCids cs))))"

text \<open>The loop over the serialized pairs, from element \<open>i\<close> of \<open>num_elements\<close>.\<close>

function restore_loop :: "ComboCid \<Rightarrow> uint32 list \<Rightarrow> nat \<Rightarrow> nat \<Rightarrow> ComboCid \<times> unit result" where
  "restore_loop cs keydata i num_elements =
     (if i < num_elements then
        let (cs, cid) = GetComboCommandId cs (keydata ! (2 * i)) (keydata ! (2 * i + 1))
        in if cid \<noteq> of_nat i then (cs, Inl (ERROR ''unexpected command ID while restoring combo CIDs''))
           else restore_loop cs keydata (i + 1) num_elements
      else (cs, Inr ()))"
  by pat_completeness auto
termination by (relation "measure (\<lambda>(cs, keydata, i, n). n - i)") auto

declare restore_loop.simps [simp del]

definition RestoreComboCIDState :: "ComboCid \<Rightarrow> uint32 list \<Rightarrow> ComboCid \<times> unit result" where
  "RestoreComboCIDState cs comboCIDstate = restore_loop cs (tl comboCIDstate) 0 (unat (hd comboCIDstate))"

section \<open>Invariant\<close>

text \<open>The hash table inverts the array.\<close>

definition combo_wf :: "ComboCid \<Rightarrow> bool" where
  "combo_wf cs \<longleftrightarrow> length (comboCids cs) < 2 ^ 32 \<and> (case comboHash cs of
     None \<Rightarrow> comboCids cs = []
   | Some hash \<Rightarrow> 0 < sizeComboCids cs \<and> length (comboCids cs) \<le> sizeComboCids cs
       \<and> (\<forall>k c. hash k = Some c \<longleftrightarrow> unat c < length (comboCids cs) \<and> comboCids cs ! unat c = k))"

definition combo_of :: "ComboCid \<Rightarrow> CommandId \<Rightarrow> (CommandId \<times> CommandId) option" where
  "combo_of cs c = (if unat c < length (comboCids cs) then Some (comboCids cs ! unat c) else None)"

lemma combo_wf_distinct:
  assumes "combo_wf cs"
  shows "distinct (comboCids cs)"
proof (cases "comboHash cs")
  case (Some hash)
  have len: "length (comboCids cs) < 2 ^ 32" using assms by (simp add: combo_wf_def)
  show ?thesis unfolding distinct_conv_nth
  proof (intro allI impI notI)
    fix i j assume ij: "i < length (comboCids cs)" "j < length (comboCids cs)" "i \<noteq> j" "comboCids cs ! i = comboCids cs ! j"
    have u: "unat (of_nat i :: CommandId) = i" "unat (of_nat j :: CommandId) = j" using ij len by (simp_all add: unat_of_nat)
    have "hash k = Some c \<longleftrightarrow> unat c < length (comboCids cs) \<and> comboCids cs ! unat c = k" for k c
      using assms unfolding combo_wf_def Some option.case(2) by blast
    from this [of "comboCids cs ! i" "of_nat i"] this [of "comboCids cs ! i" "of_nat j"]
    have "hash (comboCids cs ! i) = Some (of_nat i)" "hash (comboCids cs ! i) = Some (of_nat j)" using ij u by simp_all
    then have "(of_nat i :: CommandId) = of_nat j" by simp
    then show False using u ij by metis
  qed
qed (use assms in \<open>simp add: combo_wf_def\<close>)

lemma GetComboCommandId_post:
  assumes wf: "combo_wf cs" and room: "length (comboCids cs) < 2 ^ 32 - 1" and run: "GetComboCommandId cs a b = (cs', c)"
  shows "combo_wf cs' \<and> combo_of cs' c = Some (a, b) \<and> combo_of cs \<subseteq>\<^sub>m combo_of cs'
    \<and> comboCids cs' = (if (a, b) \<in> set (comboCids cs) then comboCids cs else comboCids cs @ [(a, b)])"
proof -
  define cs1 where "cs1 = (case comboHash cs of None \<Rightarrow> \<lparr>comboHash = Some Map.empty, comboCids = [], sizeComboCids = CCID_ARRAY_SIZE\<rparr> | Some _ \<Rightarrow> cs)"
  define cs2 where "cs2 = (if length (comboCids cs1) \<ge> sizeComboCids cs1 then cs1\<lparr>sizeComboCids := sizeComboCids cs1 * 2\<rparr> else cs1)"
  have 1: "combo_wf cs1" "comboCids cs1 = comboCids cs" "comboHash cs1 \<noteq> None"
    using wf by (auto simp: cs1_def combo_wf_def CCID_ARRAY_SIZE_def split: option.splits)
  have 2: "combo_wf cs2" "comboCids cs2 = comboCids cs" "length (comboCids cs2) < sizeComboCids cs2"
    using 1 by (auto simp: cs2_def combo_wf_def split: option.splits)
  obtain hash where h: "comboHash cs2 = Some hash" using 1(3) by (auto simp: cs2_def)
  have inv: "hash k = Some d \<longleftrightarrow> unat d < length (comboCids cs) \<and> comboCids cs ! unat d = k" for k d
    using 2(1) unfolding combo_wf_def h option.case(2) 2(2) by blast
  have run': "(case hash (a, b) of Some d \<Rightarrow> (cs2, d)
      | None \<Rightarrow> (cs2\<lparr>comboCids := comboCids cs @ [(a, b)], comboHash := Some (hash((a, b) \<mapsto> of_nat (length (comboCids cs))))\<rparr>, of_nat (length (comboCids cs)))) = (cs', c)"
    using run 2(2) h unfolding GetComboCommandId_def cs1_def [symmetric] Let_def cs2_def [symmetric] by (cases "hash (a, b)") auto
  show ?thesis
  proof (cases "hash (a, b)")
    case (Some d)
    then have "(a, b) \<in> set (comboCids cs)" using inv [of "(a, b)" d] by (metis nth_mem)
    with Some run' inv [of "(a, b)" d] 2 show ?thesis by (auto simp: combo_of_def map_le_def)
  next
    case None
    have u: "unat (of_nat (length (comboCids cs)) :: CommandId) = length (comboCids cs)" using room by (simp add: unat_of_nat)
    have new: "(a, b) \<notin> set (comboCids cs)"
    proof
      assume "(a, b) \<in> set (comboCids cs)"
      then obtain i where i: "i < length (comboCids cs)" "comboCids cs ! i = (a, b)" by (auto simp: in_set_conv_nth)
      moreover have "unat (of_nat i :: CommandId) = i" using i room by (simp add: unat_of_nat)
      ultimately have "hash (a, b) = Some (of_nat i)" using inv by simp
      with None show False by simp
    qed
    have "(hash((a, b) \<mapsto> of_nat (length (comboCids cs)))) k = Some d \<longleftrightarrow>
        unat d < Suc (length (comboCids cs)) \<and> (comboCids cs @ [(a, b)]) ! unat d = k" for k d
    proof (cases "unat d = length (comboCids cs)")
      case True
      then have "d = of_nat (length (comboCids cs))" using u by (metis word_unat_eq_iff)
      with True show ?thesis using inv [of k d] by (auto simp: nth_append)
    next
      case False
      then show ?thesis using inv [of k d] new u by (auto simp: nth_append less_Suc_eq dest: nth_mem)
    qed
    with None run' new u 2 room show ?thesis by (auto simp: combo_wf_def combo_of_def map_le_def nth_append)
  qed
qed

text \<open>A tuple whose combo command id, if it has one, is in the array.\<close>

definition cid_ok :: "ComboCid \<Rightarrow> HeapTupleHeaderData \<Rightarrow> bool" where
  "cid_ok cs h \<longleftrightarrow> (bit (t_infomask h) 5 \<longrightarrow> unat (t_field3 h) < length (comboCids cs))"

lemmas cid_defs = HeapTupleHeaderGetCmin_def HeapTupleHeaderGetCmax_def GetRealCmin_def GetRealCmax_def HeapTupleHeaderGetRawCommandId_def Let_def

lemma cids_kept:
  assumes "combo_of cs \<subseteq>\<^sub>m combo_of cs'" and "cid_ok cs h"
  shows "cid_ok cs' h \<and> HeapTupleHeaderGetCmin cs' h = HeapTupleHeaderGetCmin cs h \<and> HeapTupleHeaderGetCmax cs' h = HeapTupleHeaderGetCmax cs h"
proof -
  have "combo_of cs (t_field3 h) = combo_of cs' (t_field3 h)" if "unat (t_field3 h) < length (comboCids cs)"
    using assms(1) that unfolding map_le_def dom_def by (auto simp: combo_of_def)
  then show ?thesis using assms(2) by (auto simp: cid_ok_def cid_defs combo_of_def split: if_splits)
qed

lemma HEAP_COMBOCID_nonzero [simp]: "HEAP_COMBOCID \<noteq> 0"
  by (simp add: HEAP_COMBOCID_def)

lemma HeapTupleHeaderSetCmax_cids:
  shows "iscombo \<Longrightarrow> combo_of cs cid = Some (a, b) \<Longrightarrow> cid_ok cs (HeapTupleHeaderSetCmax h cid iscombo)
      \<and> HeapTupleHeaderGetCmin cs (HeapTupleHeaderSetCmax h cid iscombo) = a \<and> HeapTupleHeaderGetCmax cs (HeapTupleHeaderSetCmax h cid iscombo) = b"
    and "\<not> iscombo \<Longrightarrow> cid_ok cs (HeapTupleHeaderSetCmax h cid iscombo) \<and> HeapTupleHeaderGetCmax cs (HeapTupleHeaderSetCmax h cid iscombo) = cid"
  by (auto simp: cid_ok_def cid_defs combo_of_def HeapTupleHeaderSetCmax_def bit_or_iff bit_and_iff bit_not_iff Let_def split: if_splits)

section \<open>Serialization\<close>

lemma concat_pairs_nth:
  "i < length ps \<Longrightarrow> concat (map (\<lambda>(a, b). [a, b]) ps) ! (2 * i) = fst (ps ! i) \<and> concat (map (\<lambda>(a, b). [a, b]) ps) ! (2 * i + 1) = snd (ps ! i)"
proof (induction ps arbitrary: i)
  case (Cons p ps)
  then show ?case by (cases i) (auto simp: split_beta)
qed simp

lemma restore_loop_post:
  assumes "distinct ps" and "length ps < 2 ^ 32 - 1"
  shows "combo_wf cs \<Longrightarrow> comboCids cs = take i ps \<Longrightarrow> i \<le> length ps \<Longrightarrow>
    \<exists>cs'. restore_loop cs (concat (map (\<lambda>(a, b). [a, b]) ps)) i (length ps) = (cs', Inr ()) \<and> combo_wf cs' \<and> comboCids cs' = ps"
proof (induction "length ps - i" arbitrary: cs i)
  case 0
  then show ?case by (subst restore_loop.simps) auto
next
  case (Suc n)
  then have i: "i < length ps" by simp
  obtain cs1 c where c: "GetComboCommandId cs (fst (ps ! i)) (snd (ps ! i)) = (cs1, c)" by fastforce
  have new: "ps ! i \<notin> set (take i ps)" using assms(1) i by (auto simp: in_set_conv_nth nth_eq_iff_index_eq)
  from GetComboCommandId_post [OF Suc.prems(1) _ c] Suc.prems(2) new assms(2) i
  have 1: "combo_wf cs1" "combo_of cs1 c = Some (ps ! i)" "comboCids cs1 = take (Suc i) ps" by (auto simp: take_Suc_conv_app_nth)
  from 1 have "unat c < Suc i" "ps ! unat c = ps ! i" using i by (auto simp: combo_of_def split: if_splits)
  then have "unat c = i" using assms(1) i by (simp add: nth_eq_iff_index_eq)
  then have "c = of_nat i" by auto
  with c i concat_pairs_nth [OF i] have "restore_loop cs (concat (map (\<lambda>(a, b). [a, b]) ps)) i (length ps)
      = restore_loop cs1 (concat (map (\<lambda>(a, b). [a, b]) ps)) (i + 1) (length ps)" by (subst restore_loop.simps) simp
  with Suc.hyps(1) [of "i + 1" cs1] Suc.hyps(2) 1 i show ?case by simp
qed

lemma Restore_Serialize:
  assumes "combo_wf cs" and "length (comboCids cs) < 2 ^ 32 - 1" and "EstimateComboCIDStateSpace cs \<le> maxsize"
  shows "\<exists>mem cs'. SerializeComboCIDState cs maxsize = Inr mem
    \<and> RestoreComboCIDState (AtEOXact_ComboCid cs'') mem = (cs', Inr ()) \<and> combo_wf cs' \<and> comboCids cs' = comboCids cs"
proof -
  have "combo_wf (AtEOXact_ComboCid cs'')" "comboCids (AtEOXact_ComboCid cs'') = take 0 (comboCids cs)" by (simp_all add: combo_wf_def AtEOXact_ComboCid_def)
  from restore_loop_post [OF combo_wf_distinct [OF assms(1)] assms(2) this] assms show ?thesis
    by (auto simp: SerializeComboCIDState_def EstimateComboCIDStateSpace_def RestoreComboCIDState_def unat_of_nat)
qed

section \<open>Properties\<close>

text \<open>C10. Combo command ids lose nothing.  When a tuple is marked deleted with what HeapTupleHeaderAdjustCmax
  gives, its cmax is the deleting command and, if the same transaction inserted it, its cmin is still
  the inserting command; the command ids of all other tuples, among them those with an older combo
  command id, read as before.  A parallel worker that restores the serialized state has the
  same combo command ids under the same numbers.\<close>

theorem combocid_roundtrip:
  assumes wf: "combo_wf cs" and room: "length (comboCids cs) + 2 < 2 ^ 32" and h: "cid_ok cs h"
    and adjust: "HeapTupleHeaderAdjustCmax b cs h cmax = (cs', cid, iscombo)"
    and space: "EstimateComboCIDStateSpace cs' \<le> maxsize"
  shows "combo_wf cs' \<and> cid_ok cs' (HeapTupleHeaderSetCmax h cid iscombo)
    \<and> HeapTupleHeaderGetCmax cs' (HeapTupleHeaderSetCmax h cid iscombo) = cmax
    \<and> (\<not> HeapTupleHeaderXminCommitted h \<and> TransactionIdIsCurrentTransactionId b (t_xmin h) \<longrightarrow>
         HeapTupleHeaderGetCmin cs' (HeapTupleHeaderSetCmax h cid iscombo) = HeapTupleHeaderGetCmin cs h)
    \<and> (\<forall>k. cid_ok cs k \<longrightarrow> HeapTupleHeaderGetCmin cs' k = HeapTupleHeaderGetCmin cs k \<and> HeapTupleHeaderGetCmax cs' k = HeapTupleHeaderGetCmax cs k)
    \<and> (\<exists>mem cs''. SerializeComboCIDState cs' maxsize = Inr mem
         \<and> RestoreComboCIDState (AtEOXact_ComboCid cs) mem = (cs'', Inr ()) \<and> combo_of cs'' = combo_of cs')"
proof -
  let ?own = "\<not> HeapTupleHeaderXminCommitted h \<and> TransactionIdIsCurrentTransactionId b (t_xmin h)"
  have post: "combo_wf cs' \<and> combo_of cs \<subseteq>\<^sub>m combo_of cs' \<and> length (comboCids cs') < 2 ^ 32 - 1 \<and> iscombo = ?own
      \<and> (if ?own then combo_of cs' cid = Some (HeapTupleHeaderGetCmin cs h, cmax) else cid = cmax)"
  proof (cases ?own)
    case True
    then have run: "GetComboCommandId cs (HeapTupleHeaderGetCmin cs h) cmax = (cs', cid)" "iscombo"
      using adjust by (simp_all add: HeapTupleHeaderAdjustCmax_def HeapTupleHeaderGetRawXmin_def split: prod.splits)
    from GetComboCommandId_post [OF wf _ run(1)] room True run(2) show ?thesis by (auto split: if_splits)
  next
    case False
    then show ?thesis using adjust wf room by (auto simp: HeapTupleHeaderAdjustCmax_def HeapTupleHeaderGetRawXmin_def)
  qed
  note cids = HeapTupleHeaderSetCmax_cids(1) [of iscombo cs' cid "HeapTupleHeaderGetCmin cs h" cmax h]
    HeapTupleHeaderSetCmax_cids(2) [of iscombo cs' h cid]
  obtain mem cs'' where "SerializeComboCIDState cs' maxsize = Inr mem" "RestoreComboCIDState (AtEOXact_ComboCid cs) mem = (cs'', Inr ())"
    "comboCids cs'' = comboCids cs'" using Restore_Serialize [of cs' maxsize cs] post space by blast
  moreover have "combo_of cs'' = combo_of cs'" using calculation(3) by (intro ext) (simp add: combo_of_def)
  ultimately have ser: "\<exists>mem cs''. SerializeComboCIDState cs' maxsize = Inr mem
      \<and> RestoreComboCIDState (AtEOXact_ComboCid cs) mem = (cs'', Inr ()) \<and> combo_of cs'' = combo_of cs'" by blast
  have kept: "cid_ok cs k \<Longrightarrow> HeapTupleHeaderGetCmin cs' k = HeapTupleHeaderGetCmin cs k \<and> HeapTupleHeaderGetCmax cs' k = HeapTupleHeaderGetCmax cs k" for k
    using cids_kept post by blast
  show ?thesis using post cids kept ser by (cases ?own) auto
qed

text \<open>Transaction 5 inserts a tuple with command 3 and deletes it with command 8.\<close>

theorem combocid_roundtrip_witness:
  "\<exists>b h cs cid. HeapTupleHeaderAdjustCmax b \<lparr>comboHash = None, comboCids = [], sizeComboCids = 0\<rparr> h 8 = (cs, cid, True)
    \<and> HeapTupleHeaderGetCmin cs (HeapTupleHeaderSetCmax h cid True) = 3 \<and> HeapTupleHeaderGetCmax cs (HeapTupleHeaderSetCmax h cid True) = 8"
proof -
  let ?cs = "\<lparr>comboHash = None, comboCids = [], sizeComboCids = 0\<rparr>"
  let ?h = "\<lparr>t_xmin = 5, t_xmax = 0, t_field3 = 3, t_ctid = \<lparr>ip_blkid = 0, ip_posid = 1\<rparr>, t_infomask2 = 0, t_infomask = 0\<rparr>"
  let ?b = "(small_backend (small_log zeroes))\<lparr>CurrentTransactionState :=
    [\<lparr>fullTransactionId = \<lparr>fxid_value = 5\<rparr>, xact_state = TRANS_INPROGRESS, childXids = []\<rparr>]\<rparr>"
  have own: "TransactionIdIsCurrentTransactionId ?b 5"
    by (simp add: TransactionIdIsCurrentTransactionId_def small_backend_def xid_defs XidFromFullTransactionId_def)
  obtain cs cid iscombo where a: "HeapTupleHeaderAdjustCmax ?b ?cs ?h 8 = (cs, cid, iscombo)" by (metis prod.exhaust)
  then have combo: iscombo using own by (simp add: HeapTupleHeaderAdjustCmax_def HeapTupleHeaderGetRawXmin_def split: prod.splits)
  have "combo_wf ?cs" "cid_ok ?cs ?h" "HeapTupleHeaderGetCmin ?cs ?h = 3" by (simp_all add: combo_wf_def cid_ok_def cid_defs)
  with combocid_roundtrip [of ?cs ?h ?b 8 cs cid iscombo, OF _ _ _ a order_refl] own combo
  have "HeapTupleHeaderGetCmin cs (HeapTupleHeaderSetCmax ?h cid True) = 3 \<and> HeapTupleHeaderGetCmax cs (HeapTupleHeaderSetCmax ?h cid True) = 8" by simp
  moreover have "HeapTupleHeaderAdjustCmax ?b ?cs ?h 8 = (cs, cid, True)" using a combo by simp
  ultimately show ?thesis by (intro exI [of _ ?b] exI [of _ ?h] exI [of _ cs] exI [of _ cid] conjI) simp_all
qed

end
