(* ===== verification/Visibility.thy ===== *)
theory Visibility
  imports ComboCid
begin

text \<open>
  Which tuples a backend sees: \<open>src/backend/access/heap/heapam_visibility.c\<close>, with the updater of a
  multixact from \<open>src/backend/access/heap/heapam.c\<close> and MultiXactIdIsRunning from
  \<open>src/backend/access/transam/multixact.c\<close>.  The routines read the tuple header in a shared buffer, ask
  the logs and the process array, which may read pages or fail, and set hint bits on the way.  They
  are written with the combinators of a state and error monad over one record of all they touch.
\<close>

section \<open>State\<close>

datatype MultiXactStatus = MultiXactStatusForKeyShare | MultiXactStatusForShare | MultiXactStatusForNoKeyUpdate
  | MultiXactStatusForUpdate | MultiXactStatusNoKeyUpdate | MultiXactStatusUpdate

definition ISUPDATE_from_mxstatus :: "MultiXactStatus \<Rightarrow> bool" where
  "ISUPDATE_from_mxstatus status \<longleftrightarrow> status = MultiXactStatusNoKeyUpdate \<or> status = MultiXactStatusUpdate"

record MultiXactMember =
  member_xid :: TransactionId
  member_status :: MultiXactStatus

text \<open>
  \<open>GetMultiXactIdMembers\<close> is what pg_multixact returns for an id, and for the flag that it is only locked:
  the members or an error.  \<open>ResolveCminCmaxDuringDecoding\<close> are the command ids that logical decoding has
  collected for the tuple, if any.
\<close>

record Vis =
  vis_backend :: Backend
  t_self :: ItemPointerData
  t_data :: HeapTupleHeaderData
  buffer_permanent :: bool
  buffer_lsn :: XLogRecPtr
  buffer_dirty :: bool
  vis_combo :: ComboCid
  GetMultiXactIdMembers :: "MultiXactId \<Rightarrow> bool \<Rightarrow> MultiXactMember list result"
  ResolveCminCmaxDuringDecoding :: "(CommandId \<times> CommandId) option"

type_synonym 'a vis = "Vis \<Rightarrow> (Vis \<times> 'a result) option"

section \<open>Combinators\<close>

definition ret :: "'a \<Rightarrow> 'a vis" where
  "ret a s = Some (s, Inr a)"

definition raise :: "pg_error \<Rightarrow> 'a vis" where
  "raise e s = Some (s, Inl e)"

definition vbind :: "'a vis \<Rightarrow> ('a \<Rightarrow> 'b vis) \<Rightarrow> 'b vis" where
  "vbind m f s = (case m s of None \<Rightarrow> None | Some (t, Inl e) \<Rightarrow> Some (t, Inl e) | Some (t, Inr a) \<Rightarrow> f a t)"

definition vif :: "bool vis \<Rightarrow> 'a vis \<Rightarrow> 'a vis \<Rightarrow> 'a vis" where
  "vif c m n = vbind c (\<lambda>b. if b then m else n)"

definition vdo :: "unit vis \<Rightarrow> 'a vis \<Rightarrow> 'a vis" where
  "vdo m n = vbind m (\<lambda>_. n)"

text \<open>Reading the state and the tuple, and calls that change the backend.\<close>

definition vget :: "(Vis \<Rightarrow> 'a) \<Rightarrow> 'a vis" where
  "vget f s = Some (s, Inr (f s))"

definition tup :: "(HeapTupleHeaderData \<Rightarrow> 'a) \<Rightarrow> 'a vis" where
  "tup f = vget (\<lambda>s. f (t_data s))"

definition flag :: "uint16 \<Rightarrow> bool vis" where
  "flag f = tup (\<lambda>h. t_infomask h AND f \<noteq> 0)"

definition call :: "(Backend \<Rightarrow> (Backend \<times> 'a result) option) \<Rightarrow> 'a vis" where
  "call f s = (case f (vis_backend s) of None \<Rightarrow> None | Some (b, r) \<Rightarrow> Some (s\<lparr>vis_backend := b\<rparr>, r))"

definition current :: "TransactionId \<Rightarrow> bool vis" where
  "current xid = vget (\<lambda>s. TransactionIdIsCurrentTransactionId (vis_backend s) xid)"

definition in_progress :: "TransactionId \<Rightarrow> bool vis" where
  "in_progress xid = call (\<lambda>b. TransactionIdIsInProgress b xid)"

definition did_commit_call :: "TransactionId \<Rightarrow> bool vis" where
  "did_commit_call xid = call (\<lambda>b. case TransactionIdDidCommit (trans_log b) xid of None \<Rightarrow> None | Some (l, r) \<Rightarrow> Some (b\<lparr>trans_log := l\<rparr>, r))"

definition xid_in_snapshot :: "SnapshotData \<Rightarrow> TransactionId \<Rightarrow> bool vis" where
  "xid_in_snapshot snapshot xid = call (\<lambda>b. XidInMVCCSnapshot b xid snapshot)"

definition commit_lsn :: "TransactionId \<Rightarrow> XLogRecPtr vis" where
  "commit_lsn xid = call (\<lambda>b. case TransactionIdGetCommitLSN (trans_log b) xid of None \<Rightarrow> None | Some (l, r) \<Rightarrow> Some (b\<lparr>trans_log := l\<rparr>, r))"

definition cmin :: "CommandId vis" where
  "cmin = vget (\<lambda>s. HeapTupleHeaderGetCmin (vis_combo s) (t_data s))"

definition cmax :: "CommandId vis" where
  "cmax = vget (\<lambda>s. HeapTupleHeaderGetCmax (vis_combo s) (t_data s))"

section \<open>Hint bits\<close>

text \<open>XLogNeedsFlush, outside of recovery.\<close>

definition XLogNeedsFlush :: "Vis \<Rightarrow> XLogRecPtr \<Rightarrow> bool" where
  "XLogNeedsFlush s record \<longleftrightarrow> \<not> record \<le> wal_flushed (XactLog (trans_log (vis_backend s)))"

definition SetHintBits :: "uint16 \<Rightarrow> TransactionId \<Rightarrow> unit vis" where
  "SetHintBits infomask xid =
     (let set = (\<lambda>s. Some (s\<lparr>t_data := (t_data s)\<lparr>t_infomask := t_infomask (t_data s) OR infomask\<rparr>, buffer_dirty := True\<rparr>, Inr ()))
      in if TransactionIdIsValid xid
         then vbind (commit_lsn xid) (\<lambda>commitLSN.
                vif (vget (\<lambda>s. buffer_permanent s \<and> XLogNeedsFlush s commitLSN \<and> buffer_lsn s < commitLSN))
                  (ret ())
                  set)
         else set)"

definition HeapTupleSetHintBits :: "uint16 \<Rightarrow> TransactionId \<Rightarrow> unit vis" where
  "HeapTupleSetHintBits infomask xid = SetHintBits infomask xid"

section \<open>Multixacts\<close>

definition HeapTupleGetUpdateXid :: "TransactionId vis" where
  "HeapTupleGetUpdateXid s =
     (case GetMultiXactIdMembers s (HeapTupleHeaderGetRawXmax (t_data s)) False of
        Inl e \<Rightarrow> Some (s, Inl e)
      | Inr members \<Rightarrow>
          Some (s, Inr (case List.find (\<lambda>m. ISUPDATE_from_mxstatus (member_status m)) members of
                          None \<Rightarrow> InvalidTransactionId
                        | Some m \<Rightarrow> member_xid m)))"

definition HeapTupleHeaderGetUpdateXid :: "TransactionId vis" where
  "HeapTupleHeaderGetUpdateXid =
     vif (tup (\<lambda>h. t_infomask h AND HEAP_XMAX_INVALID = 0 \<and> t_infomask h AND HEAP_XMAX_IS_MULTI \<noteq> 0 \<and> t_infomask h AND HEAP_XMAX_LOCK_ONLY = 0))
       HeapTupleGetUpdateXid
       (tup HeapTupleHeaderGetRawXmax)"

primrec any_in_progress :: "TransactionId list \<Rightarrow> bool vis" where
  "any_in_progress [] = ret False"
| "any_in_progress (xid # xids) = vif (in_progress xid) (ret True) (any_in_progress xids)"

definition MultiXactIdIsRunning :: "MultiXactId \<Rightarrow> bool \<Rightarrow> bool vis" where
  "MultiXactIdIsRunning multi isLockOnly s =
     (case GetMultiXactIdMembers s multi isLockOnly of
        Inl e \<Rightarrow> Some (s, Inl e)
      | Inr members \<Rightarrow>
          if length members \<le> 0 then ret False s
          else if list_ex (\<lambda>m. TransactionIdIsCurrentTransactionId (vis_backend s) (member_xid m)) members then ret True s
          else any_in_progress (map member_xid members) s)"

section \<open>The inserting transaction\<close>

text \<open>
  HeapTupleSatisfiesSelf, Update, Dirty and MVCC begin alike and differ in how they ask whether a
  transaction is running, in what they return, and in what they do with a tuple of their own.
  \<open>continue\<close> is what follows once the inserting transaction has committed.
\<close>

definition moved_off :: "(TransactionId \<Rightarrow> bool vis) \<Rightarrow> 'a vis \<Rightarrow> 'a vis \<Rightarrow> 'a vis" where
  "moved_off active invisible continue =
     vbind (tup HeapTupleHeaderGetXvac) (\<lambda>xvac.
       vif (current xvac) invisible
       (vif (active xvac) continue
       (vif (did_commit_call xvac)
          (vdo (SetHintBits HEAP_XMIN_INVALID InvalidTransactionId) invisible)
          (vdo (SetHintBits HEAP_XMIN_COMMITTED InvalidTransactionId) continue))))"

definition moved_in :: "(TransactionId \<Rightarrow> bool vis) \<Rightarrow> 'a vis \<Rightarrow> 'a vis \<Rightarrow> 'a vis" where
  "moved_in active invisible continue =
     vbind (tup HeapTupleHeaderGetXvac) (\<lambda>xvac.
       vif (current xvac) continue
       (vif (active xvac) invisible
       (vif (did_commit_call xvac)
          (vdo (SetHintBits HEAP_XMIN_COMMITTED InvalidTransactionId) continue)
          (vdo (SetHintBits HEAP_XMIN_INVALID InvalidTransactionId) invisible))))"

definition check_inserter :: "(TransactionId \<Rightarrow> bool vis) \<Rightarrow> 'a vis \<Rightarrow> 'a vis \<Rightarrow> 'a vis \<Rightarrow> 'a vis \<Rightarrow> 'a vis" where
  "check_inserter active invisible own inserting continue =
     vif (tup HeapTupleHeaderXminInvalid) invisible
     (vif (flag HEAP_MOVED_OFF) (moved_off active invisible continue)
     (vif (flag HEAP_MOVED_IN) (moved_in active invisible continue)
     (vbind (tup HeapTupleHeaderGetRawXmin) (\<lambda>xmin.
        vif (current xmin) own
        (vif (active xmin) inserting
        (vif (did_commit_call xmin)
           (vdo (SetHintBits HEAP_XMIN_COMMITTED xmin) continue)
           (vdo (SetHintBits HEAP_XMIN_INVALID InvalidTransactionId) invisible)))))))"

definition locked_only :: "bool vis" where
  "locked_only = tup (\<lambda>h. HEAP_XMAX_IS_LOCKED_ONLY (t_infomask h))"

section \<open>HeapTupleSatisfiesSelf\<close>

text \<open>A tuple inserted by the own transaction; HeapTupleSatisfiesDirty treats it alike.\<close>

definition self_own :: "bool vis" where
  "self_own =
     vif (flag HEAP_XMAX_INVALID) (ret True)
     (vif locked_only (ret True)
     (vif (flag HEAP_XMAX_IS_MULTI)
        (vbind HeapTupleGetUpdateXid (\<lambda>xmax. vif (current xmax) (ret False) (ret True)))
     (vbind (tup HeapTupleHeaderGetRawXmax) (\<lambda>xmax.
        vif (current xmax) (ret False)
          (vdo (SetHintBits HEAP_XMAX_INVALID InvalidTransactionId) (ret True))))))"

definition self_deleter :: "bool vis" where
  "self_deleter =
     vif (flag HEAP_XMAX_INVALID) (ret True)
     (vif (flag HEAP_XMAX_COMMITTED) locked_only
     (vif (flag HEAP_XMAX_IS_MULTI)
        (vif locked_only (ret True)
        (vbind HeapTupleGetUpdateXid (\<lambda>xmax.
           vif (current xmax) (ret False)
           (vif (in_progress xmax) (ret True)
           (vif (did_commit_call xmax) (ret False) (ret True))))))
     (vbind (tup HeapTupleHeaderGetRawXmax) (\<lambda>xmax.
        vif (current xmax) locked_only
        (vif (in_progress xmax) (ret True)
        (vif (did_commit_call xmax)
           (vif locked_only
              (vdo (SetHintBits HEAP_XMAX_INVALID InvalidTransactionId) (ret True))
              (vdo (SetHintBits HEAP_XMAX_COMMITTED xmax) (ret False)))
           (vdo (SetHintBits HEAP_XMAX_INVALID InvalidTransactionId) (ret True))))))))"

definition HeapTupleSatisfiesSelf :: "bool vis" where
  "HeapTupleSatisfiesSelf =
     vif (tup HeapTupleHeaderXminCommitted) self_deleter
       (check_inserter in_progress (ret False) self_own (ret False) self_deleter)"

definition HeapTupleSatisfiesAny :: "bool vis" where
  "HeapTupleSatisfiesAny = ret True"

section \<open>HeapTupleSatisfiesToast\<close>

definition HeapTupleSatisfiesToast :: "bool vis" where
  "HeapTupleSatisfiesToast =
     vif (tup HeapTupleHeaderXminCommitted) (ret True)
     (vif (tup HeapTupleHeaderXminInvalid) (ret False)
     (vif (flag HEAP_MOVED_OFF) (moved_off in_progress (ret False) (ret True))
     (vif (flag HEAP_MOVED_IN) (moved_in in_progress (ret False) (ret True))
        (tup (\<lambda>h. TransactionIdIsValid (HeapTupleHeaderGetXmin h))))))"

section \<open>HeapTupleSatisfiesUpdate\<close>

datatype TM_Result = TM_Ok | TM_Invisible | TM_SelfModified | TM_Updated | TM_Deleted | TM_BeingModified | TM_WouldBlock

text \<open>Changed by the own transaction: after or before the scan started.\<close>

definition modified_by_self :: "CommandId \<Rightarrow> TM_Result vis" where
  "modified_by_self curcid = vif (vbind cmax (\<lambda>c. ret (c \<ge> curcid))) (ret TM_SelfModified) (ret TM_Invisible)"

definition updated_or_deleted :: "TM_Result vis" where
  "updated_or_deleted =
     vif (vget (\<lambda>s. \<not> ItemPointerEquals (t_self s) (t_ctid (t_data s)) \<or> HeapTupleHeaderIndicatesMovedPartitions (t_data s)))
       (ret TM_Updated) (ret TM_Deleted)"

definition update_own :: "CommandId \<Rightarrow> TM_Result vis" where
  "update_own curcid =
     vif (vbind cmin (\<lambda>c. ret (c \<ge> curcid))) (ret TM_Invisible)
     (vif (flag HEAP_XMAX_INVALID) (ret TM_Ok)
     (vbind (tup HeapTupleHeaderGetRawXmax) (\<lambda>raw.
        vif locked_only
          (vif (flag HEAP_XMAX_IS_MULTI)
             (vif (MultiXactIdIsRunning raw True) (ret TM_BeingModified) (ret TM_Ok))
             (vif (in_progress raw) (ret TM_BeingModified) (ret TM_Ok)))
        (vif (flag HEAP_XMAX_IS_MULTI)
          (vbind HeapTupleGetUpdateXid (\<lambda>xmax.
             vif (current xmax) (modified_by_self curcid)
               (vif (MultiXactIdIsRunning raw False) (ret TM_BeingModified) (ret TM_Ok))))
          (vif (current raw) (modified_by_self curcid)
             (vdo (SetHintBits HEAP_XMAX_INVALID InvalidTransactionId) (ret TM_Ok)))))))"

definition update_multi :: "CommandId \<Rightarrow> TransactionId \<Rightarrow> TM_Result vis" where
  "update_multi curcid raw =
     vif (tup (\<lambda>h. HEAP_LOCKED_UPGRADED (t_infomask h))) (ret TM_Ok)
     (vif locked_only
       (vif (MultiXactIdIsRunning raw True) (ret TM_BeingModified)
          (vdo (SetHintBits HEAP_XMAX_INVALID InvalidTransactionId) (ret TM_Ok)))
     (vbind HeapTupleGetUpdateXid (\<lambda>xmax.
        vif (if TransactionIdIsValid xmax then ret False else MultiXactIdIsRunning raw False) (ret TM_BeingModified)
        (vif (current xmax) (modified_by_self curcid)
        (vif (MultiXactIdIsRunning raw False) (ret TM_BeingModified)
        (vif (did_commit_call xmax) updated_or_deleted
        (vif (MultiXactIdIsRunning raw False) (ret TM_BeingModified)
          (vdo (SetHintBits HEAP_XMAX_INVALID InvalidTransactionId) (ret TM_Ok)))))))))"

definition update_deleter :: "CommandId \<Rightarrow> TM_Result vis" where
  "update_deleter curcid =
     vif (flag HEAP_XMAX_INVALID) (ret TM_Ok)
     (vif (flag HEAP_XMAX_COMMITTED) (vif locked_only (ret TM_Ok) updated_or_deleted)
     (vbind (tup HeapTupleHeaderGetRawXmax) (\<lambda>raw.
        vif (flag HEAP_XMAX_IS_MULTI) (update_multi curcid raw)
        (vif (current raw) (vif locked_only (ret TM_BeingModified) (modified_by_self curcid))
        (vif (in_progress raw) (ret TM_BeingModified)
        (vif (did_commit_call raw)
           (vif locked_only
              (vdo (SetHintBits HEAP_XMAX_INVALID InvalidTransactionId) (ret TM_Ok))
              (vdo (SetHintBits HEAP_XMAX_COMMITTED raw) updated_or_deleted))
           (vdo (SetHintBits HEAP_XMAX_INVALID InvalidTransactionId) (ret TM_Ok))))))))"

definition HeapTupleSatisfiesUpdate :: "CommandId \<Rightarrow> TM_Result vis" where
  "HeapTupleSatisfiesUpdate curcid =
     vif (tup HeapTupleHeaderXminCommitted) (update_deleter curcid)
       (check_inserter in_progress (ret TM_Invisible) (update_own curcid) (ret TM_Invisible) (update_deleter curcid))"

section \<open>HeapTupleSatisfiesDirty\<close>

text \<open>The routine returns the snapshot with the ids of concurrent transactions in it.\<close>

definition dirty_deleter :: "SnapshotData \<Rightarrow> (bool \<times> SnapshotData) vis" where
  "dirty_deleter snapshot =
     vif (flag HEAP_XMAX_INVALID) (ret (True, snapshot))
     (vif (flag HEAP_XMAX_COMMITTED) (vif locked_only (ret (True, snapshot)) (ret (False, snapshot)))
     (vif (flag HEAP_XMAX_IS_MULTI)
        (vif locked_only (ret (True, snapshot))
        (vbind HeapTupleGetUpdateXid (\<lambda>xmax.
           vif (current xmax) (ret (False, snapshot))
           (vif (in_progress xmax) (ret (True, snapshot\<lparr>snap_xmax := xmax\<rparr>))
           (vif (did_commit_call xmax) (ret (False, snapshot)) (ret (True, snapshot)))))))
     (vbind (tup HeapTupleHeaderGetRawXmax) (\<lambda>xmax.
        vif (current xmax) (vif locked_only (ret (True, snapshot)) (ret (False, snapshot)))
        (vif (in_progress xmax)
           (vif locked_only (ret (True, snapshot)) (ret (True, snapshot\<lparr>snap_xmax := xmax\<rparr>)))
        (vif (did_commit_call xmax)
           (vif locked_only
              (vdo (SetHintBits HEAP_XMAX_INVALID InvalidTransactionId) (ret (True, snapshot)))
              (vdo (SetHintBits HEAP_XMAX_COMMITTED xmax) (ret (False, snapshot))))
           (vdo (SetHintBits HEAP_XMAX_INVALID InvalidTransactionId) (ret (True, snapshot)))))))))"

definition HeapTupleSatisfiesDirty :: "SnapshotData \<Rightarrow> (bool \<times> SnapshotData) vis" where
  "HeapTupleSatisfiesDirty snapshot =
     (let snapshot = snapshot\<lparr>snap_xmin := InvalidTransactionId, snap_xmax := InvalidTransactionId, speculativeToken := 0\<rparr>
      in vif (tup HeapTupleHeaderXminCommitted) (dirty_deleter snapshot)
           (check_inserter in_progress (ret (False, snapshot))
              (vbind self_own (\<lambda>b. ret (b, snapshot)))
              (tup (\<lambda>h. (True, (if HeapTupleHeaderIsSpeculative h
                                 then snapshot\<lparr>speculativeToken := HeapTupleHeaderGetSpeculativeToken h\<rparr>
                                 else snapshot)\<lparr>snap_xmin := HeapTupleHeaderGetRawXmin h\<rparr>)))
              (dirty_deleter snapshot)))"

section \<open>HeapTupleSatisfiesMVCC\<close>

text \<open>Deleted by the own transaction: the tuple is seen if that was after the scan started.\<close>

definition deleted_by_self :: "SnapshotData \<Rightarrow> bool vis" where
  "deleted_by_self snapshot = vbind cmax (\<lambda>c. if c \<ge> snap_curcid snapshot then ret True else ret False)"

definition mvcc_own :: "SnapshotData \<Rightarrow> bool vis" where
  "mvcc_own snapshot =
     vif (vbind cmin (\<lambda>c. ret (c \<ge> snap_curcid snapshot))) (ret False)
     (vif (flag HEAP_XMAX_INVALID) (ret True)
     (vif locked_only (ret True)
     (vif (flag HEAP_XMAX_IS_MULTI)
        (vbind HeapTupleGetUpdateXid (\<lambda>xmax. vif (current xmax) (deleted_by_self snapshot) (ret True)))
     (vbind (tup HeapTupleHeaderGetRawXmax) (\<lambda>xmax.
        vif (current xmax) (deleted_by_self snapshot)
          (vdo (SetHintBits HEAP_XMAX_INVALID InvalidTransactionId) (ret True)))))))"

definition mvcc_deleter :: "SnapshotData \<Rightarrow> bool vis" where
  "mvcc_deleter snapshot =
     vif (flag HEAP_XMAX_INVALID) (ret True)
     (vif locked_only (ret True)
     (vif (flag HEAP_XMAX_IS_MULTI)
        (vbind HeapTupleGetUpdateXid (\<lambda>xmax.
           vif (current xmax) (deleted_by_self snapshot)
           (vif (xid_in_snapshot snapshot xmax) (ret True)
           (vif (did_commit_call xmax) (ret False) (ret True)))))
     (vbind (tup HeapTupleHeaderGetRawXmax) (\<lambda>xmax.
        vif (flag HEAP_XMAX_COMMITTED)
          (vif (xid_in_snapshot snapshot xmax) (ret True) (ret False))
          (vif (current xmax) (deleted_by_self snapshot)
          (vif (xid_in_snapshot snapshot xmax) (ret True)
          (vif (did_commit_call xmax)
             (vdo (SetHintBits HEAP_XMAX_COMMITTED xmax) (ret False))
             (vdo (SetHintBits HEAP_XMAX_INVALID InvalidTransactionId) (ret True)))))))))"

definition HeapTupleSatisfiesMVCC :: "SnapshotData \<Rightarrow> bool vis" where
  "HeapTupleSatisfiesMVCC snapshot =
     vif (tup HeapTupleHeaderXminCommitted)
       (vif (tup HeapTupleHeaderXminFrozen) (mvcc_deleter snapshot)
          (vbind (tup HeapTupleHeaderGetRawXmin) (\<lambda>xmin.
             vif (xid_in_snapshot snapshot xmin) (ret False) (mvcc_deleter snapshot))))
       (check_inserter (xid_in_snapshot snapshot) (ret False) (mvcc_own snapshot) (ret False) (mvcc_deleter snapshot))"

section \<open>HeapTupleSatisfiesVacuum\<close>

datatype HTSV_Result = HEAPTUPLE_DEAD | HEAPTUPLE_LIVE | HEAPTUPLE_RECENTLY_DEAD
  | HEAPTUPLE_INSERT_IN_PROGRESS | HEAPTUPLE_DELETE_IN_PROGRESS

definition HeapTupleHeaderIsOnlyLocked :: "bool vis" where
  "HeapTupleHeaderIsOnlyLocked =
     vif (flag HEAP_XMAX_INVALID) (ret True)
     (vif (flag HEAP_XMAX_LOCK_ONLY) (ret True)
     (vif (tup (\<lambda>h. \<not> TransactionIdIsValid (HeapTupleHeaderGetRawXmax h))) (ret True)
     (vif (flag HEAP_XMAX_IS_MULTI)
        (vbind HeapTupleGetUpdateXid (\<lambda>xmax.
           vif (current xmax) (ret False)
           (vif (in_progress xmax) (ret False)
           (vif (did_commit_call xmax) (ret False) (ret True)))))
        (ret False))))"

definition vacuum_own :: "HTSV_Result vis" where
  "vacuum_own =
     vif (flag HEAP_XMAX_INVALID) (ret HEAPTUPLE_INSERT_IN_PROGRESS)
     (vif locked_only (ret HEAPTUPLE_INSERT_IN_PROGRESS)
     (vif HeapTupleHeaderIsOnlyLocked (ret HEAPTUPLE_INSERT_IN_PROGRESS)
     (vif (vbind HeapTupleHeaderGetUpdateXid current) (ret HEAPTUPLE_DELETE_IN_PROGRESS)
        (ret HEAPTUPLE_INSERT_IN_PROGRESS))))"

text \<open>The transaction of an old-style VACUUM FULL that moved the tuple off or in.\<close>

definition vacuum_moved :: "HTSV_Result \<Rightarrow> bool \<Rightarrow> HTSV_Result vis \<Rightarrow> HTSV_Result vis" where
  "vacuum_moved busy live_if_committed continue =
     vbind (tup HeapTupleHeaderGetXvac) (\<lambda>xvac.
       vif (current xvac) (ret busy)
       (vif (in_progress xvac) (ret busy)
       (vif (vbind (did_commit_call xvac) (\<lambda>c. ret (c = live_if_committed)))
          (vdo (SetHintBits HEAP_XMIN_COMMITTED InvalidTransactionId) continue)
          (vdo (SetHintBits HEAP_XMIN_INVALID InvalidTransactionId) (ret HEAPTUPLE_DEAD)))))"

definition vacuum_deleter :: "TransactionId \<Rightarrow> HTSV_Result vis" where
  "vacuum_deleter OldestXmin =
     vif (flag HEAP_XMAX_INVALID) (ret HEAPTUPLE_LIVE)
     (vbind (tup HeapTupleHeaderGetRawXmax) (\<lambda>raw.
       vif locked_only
         (vif (flag HEAP_XMAX_COMMITTED) (ret HEAPTUPLE_LIVE)
         (vif (flag HEAP_XMAX_IS_MULTI)
            (vif (vif (tup (\<lambda>h. HEAP_LOCKED_UPGRADED (t_infomask h))) (ret False) (MultiXactIdIsRunning raw True)) (ret HEAPTUPLE_LIVE)
               (vdo (SetHintBits HEAP_XMAX_INVALID InvalidTransactionId) (ret HEAPTUPLE_LIVE)))
            (vif (in_progress raw) (ret HEAPTUPLE_LIVE)
               (vdo (SetHintBits HEAP_XMAX_INVALID InvalidTransactionId) (ret HEAPTUPLE_LIVE)))))
       (vif (flag HEAP_XMAX_IS_MULTI)
         (vbind HeapTupleGetUpdateXid (\<lambda>xmax.
            vif (in_progress xmax) (ret HEAPTUPLE_DELETE_IN_PROGRESS)
            (vif (did_commit_call xmax)
               (ret (if \<not> TransactionIdPrecedes xmax OldestXmin then HEAPTUPLE_RECENTLY_DEAD else HEAPTUPLE_DEAD))
            (vif (MultiXactIdIsRunning raw False) (ret HEAPTUPLE_LIVE)
               (vdo (SetHintBits HEAP_XMAX_INVALID InvalidTransactionId) (ret HEAPTUPLE_LIVE))))))
       (let old = ret (if \<not> TransactionIdPrecedes raw OldestXmin then HEAPTUPLE_RECENTLY_DEAD else HEAPTUPLE_DEAD)
        in vif (flag HEAP_XMAX_COMMITTED) old
           (vif (in_progress raw) (ret HEAPTUPLE_DELETE_IN_PROGRESS)
           (vif (did_commit_call raw) (vdo (SetHintBits HEAP_XMAX_COMMITTED raw) old)
              (vdo (SetHintBits HEAP_XMAX_INVALID InvalidTransactionId) (ret HEAPTUPLE_LIVE))))))))"

definition HeapTupleSatisfiesVacuum :: "TransactionId \<Rightarrow> HTSV_Result vis" where
  "HeapTupleSatisfiesVacuum OldestXmin =
     vif (tup HeapTupleHeaderXminCommitted) (vacuum_deleter OldestXmin)
     (vif (tup HeapTupleHeaderXminInvalid) (ret HEAPTUPLE_DEAD)
     (vif (flag HEAP_MOVED_OFF) (vacuum_moved HEAPTUPLE_DELETE_IN_PROGRESS False (vacuum_deleter OldestXmin))
     (vif (flag HEAP_MOVED_IN) (vacuum_moved HEAPTUPLE_INSERT_IN_PROGRESS True (vacuum_deleter OldestXmin))
     (vbind (tup HeapTupleHeaderGetRawXmin) (\<lambda>xmin.
        vif (current xmin) vacuum_own
        (vif (in_progress xmin) (ret HEAPTUPLE_INSERT_IN_PROGRESS)
        (vif (did_commit_call xmin)
           (vdo (SetHintBits HEAP_XMIN_COMMITTED xmin) (vacuum_deleter OldestXmin))
           (vdo (SetHintBits HEAP_XMIN_INVALID InvalidTransactionId) (ret HEAPTUPLE_DEAD)))))))))"

definition HeapTupleSatisfiesNonVacuumable :: "SnapshotData \<Rightarrow> bool vis" where
  "HeapTupleSatisfiesNonVacuumable snapshot =
     vbind (HeapTupleSatisfiesVacuum (snap_xmin snapshot)) (\<lambda>r. ret (r \<noteq> HEAPTUPLE_DEAD))"

definition HeapTupleIsSurelyDead :: "HeapTupleHeaderData \<Rightarrow> TransactionId \<Rightarrow> bool" where
  "HeapTupleIsSurelyDead tuple OldestXmin =
     (if \<not> HeapTupleHeaderXminCommitted tuple then (if HeapTupleHeaderXminInvalid tuple then True else False)
      else if t_infomask tuple AND HEAP_XMAX_INVALID \<noteq> 0 then False
      else if HEAP_XMAX_IS_LOCKED_ONLY (t_infomask tuple) then False
      else if t_infomask tuple AND HEAP_XMAX_IS_MULTI \<noteq> 0 then False
      else if t_infomask tuple AND HEAP_XMAX_COMMITTED = 0 then False
      else TransactionIdPrecedes (HeapTupleHeaderGetRawXmax tuple) OldestXmin)"

section \<open>HeapTupleSatisfiesHistoricMVCC\<close>

text \<open>\<open>xip\<close> holds the committed transactions here and is searched with bsearch, by the order of the numbers.\<close>

definition TransactionIdInArray :: "TransactionId \<Rightarrow> TransactionId list \<Rightarrow> bool" where
  "TransactionIdInArray xid xids = xid_bsearch (<) xids xid 0 (int (length xids) - 1)"

definition historic_deleter :: "SnapshotData \<Rightarrow> bool vis" where
  "historic_deleter snapshot =
     vif (flag HEAP_XMAX_INVALID) (ret True)
     (vif locked_only (ret True)
     (vbind (vif (flag HEAP_XMAX_IS_MULTI) HeapTupleGetUpdateXid (tup HeapTupleHeaderGetRawXmax)) (\<lambda>xmax.
        if TransactionIdInArray xmax (subxip snapshot)
        then vbind (vget ResolveCminCmaxDuringDecoding) (\<lambda>cids.
               case cids of
                 None \<Rightarrow> raise (ERROR ''could not resolve combocid to cmax'')
               | Some (_, c) \<Rightarrow> ret (c \<ge> snap_curcid snapshot))
        else if TransactionIdPrecedes xmax (snap_xmin snapshot)
        then vif (flag HEAP_XMAX_COMMITTED) (ret False) (vbind (did_commit_call xmax) (\<lambda>c. ret (\<not> c)))
        else if TransactionIdFollowsOrEquals xmax (snap_xmax snapshot) then ret True
        else if TransactionIdInArray xmax (xip snapshot) then ret False
        else ret True)))"

definition HeapTupleSatisfiesHistoricMVCC :: "SnapshotData \<Rightarrow> bool vis" where
  "HeapTupleSatisfiesHistoricMVCC snapshot =
     vbind (tup HeapTupleHeaderGetXmin) (\<lambda>xmin.
       vif (tup HeapTupleHeaderXminInvalid) (ret False)
       (if TransactionIdInArray xmin (subxip snapshot)
        then vbind (vget ResolveCminCmaxDuringDecoding) (\<lambda>cids.
               case cids of
                 None \<Rightarrow> raise (ERROR ''could not resolve cmin/cmax of catalog tuple'')
               | Some (c, _) \<Rightarrow> if c \<ge> snap_curcid snapshot then ret False else historic_deleter snapshot)
        else if TransactionIdPrecedes xmin (snap_xmin snapshot)
        then vif (vif (tup HeapTupleHeaderXminCommitted) (ret True) (did_commit_call xmin)) (historic_deleter snapshot) (ret False)
        else if TransactionIdFollowsOrEquals xmin (snap_xmax snapshot) then ret False
        else if TransactionIdInArray xmin (xip snapshot) then historic_deleter snapshot
        else ret False))"

section \<open>HeapTupleSatisfiesVisibility\<close>

definition HeapTupleSatisfiesVisibility :: "SnapshotData \<Rightarrow> (bool \<times> SnapshotData) vis" where
  "HeapTupleSatisfiesVisibility snapshot =
     (let same = (\<lambda>m. vbind m (\<lambda>b. ret (b, snapshot)))
      in case snapshot_type snapshot of
           SNAPSHOT_MVCC \<Rightarrow> same (HeapTupleSatisfiesMVCC snapshot)
         | SNAPSHOT_SELF \<Rightarrow> same HeapTupleSatisfiesSelf
         | SNAPSHOT_ANY \<Rightarrow> same HeapTupleSatisfiesAny
         | SNAPSHOT_TOAST \<Rightarrow> same HeapTupleSatisfiesToast
         | SNAPSHOT_DIRTY \<Rightarrow> HeapTupleSatisfiesDirty snapshot
         | SNAPSHOT_HISTORIC_MVCC \<Rightarrow> same (HeapTupleSatisfiesHistoricMVCC snapshot)
         | SNAPSHOT_NON_VACUUMABLE \<Rightarrow> same (HeapTupleSatisfiesNonVacuumable snapshot))"

end
