(* ===== verification/Mvcc.thy ===== *)
theory Mvcc
  imports Visibility
begin

text \<open>
  What the visibility routines of theory Visibility decide.  The rules for \<open>runs\<close> give, for each
  combinator, what must hold before it so that it ends without an error in a state that satisfies a
  postcondition; for the queries they rest on the theories TransLog and ProcArray.  The answers are
  stated over the logs alone: hint bits must be true, but make no difference.
\<close>

declare locked_only_bits [simp del]

section \<open>Runs without error\<close>

definition runs :: "'a vis \<Rightarrow> Vis \<Rightarrow> (Vis \<Rightarrow> 'a \<Rightarrow> bool) \<Rightarrow> bool" where
  "runs m s Q \<longleftrightarrow> (\<exists>t a. m s = Some (t, Inr a) \<and> Q t a)"

lemma runs_mono: "runs m s Q \<Longrightarrow> (\<And>t a. Q t a \<Longrightarrow> R t a) \<Longrightarrow> runs m s R"
  unfolding runs_def by blast

named_theorems runs_simps "what must hold before a combinator"

lemma runs_ret [runs_simps]: "runs (ret a) s Q \<longleftrightarrow> Q s a"
  by (simp add: runs_def ret_def)

lemma runs_vbind [runs_simps]: "runs (vbind m f) s Q \<longleftrightarrow> runs m s (\<lambda>t a. runs (f a) t Q)"
  by (auto simp: runs_def vbind_def split: option.splits sum.splits)

lemma runs_vif [runs_simps]: "runs (vif c m n) s Q \<longleftrightarrow> runs c s (\<lambda>t b. if b then runs m t Q else runs n t Q)"
proof -
  have "(\<lambda>t b. runs (if b then m else n) t Q) = (\<lambda>t b. if b then runs m t Q else runs n t Q)" by (intro ext) simp
  then show ?thesis by (simp add: vif_def runs_vbind)
qed

lemma runs_vdo [runs_simps]: "runs (vdo m n) s Q \<longleftrightarrow> runs m s (\<lambda>t _. runs n t Q)"
  by (simp add: vdo_def runs_vbind)

lemma runs_vget [runs_simps]: "runs (vget f) s Q \<longleftrightarrow> Q s (f s)"
  by (simp add: runs_def vget_def)

lemma runs_tup [runs_simps]: "runs (tup f) s R \<longleftrightarrow> R s (f (t_data s))"
  "runs (flag m) s Q \<longleftrightarrow> Q s (t_infomask (t_data s) AND m \<noteq> 0)"
  "runs locked_only s Q \<longleftrightarrow> Q s (HEAP_XMAX_IS_LOCKED_ONLY (t_infomask (t_data s)))"
  by (simp_all add: tup_def flag_def locked_only_def runs_simps)

lemma runs_read [runs_simps]: "runs (current x) s Q \<longleftrightarrow> Q s (TransactionIdIsCurrentTransactionId (vis_backend s) x)"
  "runs cmin s R \<longleftrightarrow> R s (HeapTupleHeaderGetCmin (vis_combo s) (t_data s))"
  "runs cmax s R \<longleftrightarrow> R s (HeapTupleHeaderGetCmax (vis_combo s) (t_data s))"
  by (simp_all add: current_def cmin_def cmax_def runs_simps)

lemma runs_call:
  assumes "f (vis_backend s) = Some (b, Inr a)" and "Q (s\<lparr>vis_backend := b\<rparr>) a"
  shows "runs (call f) s Q"
  using assms by (simp add: runs_def call_def)

section \<open>Commit LSNs and hint bits\<close>

lemma TransactionIdGetCommitLSN_gives:
  assumes inv: "log_inv l" and fine: "log_fine l" and st: "xact_status l x \<noteq> None"
  shows "\<exists>m lsn. TransactionIdGetCommitLSN l x = Some (m, Inr lsn) \<and> log_step l m
    \<and> (\<forall>k. lsn_known l x k \<longrightarrow> TransactionIdIsNormal x \<longrightarrow> k \<le> lsn \<or> k \<le> wal_flushed (XactLog m))"
proof (cases "x = cachedFetchXid l \<or> \<not> TransactionIdIsNormal x")
  case True
  with log_step_refl [OF inv] show ?thesis by (auto simp: TransactionIdGetCommitLSN_def lsn_known_def)
next
  case False
  from inv have "clog_inv (XactLog l)" by (simp add: log_inv_def)
  from TransactionIdGetStatus_post [OF this, of x] obtain s r where
    r: "TransactionIdGetStatus (XactLog l) x = Some (s, r)" "clog_step (XactLog l) 0 [] s"
    and c: "case r of Inl e \<Rightarrow> \<not> io_fine (XactLog l) \<or> clog_status (XactLog l) x = None
      | Inr (st, lsn) \<Rightarrow> clog_status s x = Some st
          \<and> (\<forall>k. lsn_covered s (TransactionIdToPage x) (lsn_group x) k \<longrightarrow> k \<le> lsn \<or> k \<le> wal_flushed s)"
    unfolding get_post_def by blast
  have "clog_status (XactLog l) x \<noteq> None" using st False by (auto simp: xact_status_def xid_defs)
  with c fine obtain st lsn where Inr: "r = Inr (st, lsn)" by (cases r) (auto simp: log_fine_def)
  note step = log_step_xact [OF inv r(2)]
  have "k \<le> lsn \<or> k \<le> wal_flushed s" if "lsn_known l x k" for k
    using step that c by (auto simp: log_step_def lsn_known_def Inr)
  with r Inr False step show ?thesis by (auto simp: TransactionIdGetCommitLSN_def)
qed

section \<open>What is true of a tuple\<close>

abbreviation logs :: "Vis \<Rightarrow> TransLog" where
  "logs s \<equiv> trans_log (vis_backend s)"

abbreviation mine :: "Vis \<Rightarrow> TransactionId \<Rightarrow> bool" where
  "mine s \<equiv> TransactionIdIsCurrentTransactionId (vis_backend s)"

abbreviation infomask :: "Vis \<Rightarrow> uint16" where
  "infomask s \<equiv> t_infomask (t_data s)"

abbreviation xmin :: "Vis \<Rightarrow> TransactionId" where
  "xmin s \<equiv> t_xmin (t_data s)"

abbreviation frozen :: "uint16 \<Rightarrow> bool" where
  "frozen m \<equiv> bit m 8 \<and> bit m 9"

text \<open>The transaction that deleted or updated the tuple, if it is not only locked; no hint bit is looked at.\<close>

definition update_xid :: "Vis \<Rightarrow> TransactionId" where
  "update_xid s = (case GetMultiXactIdMembers s (t_xmax (t_data s)) False of
     Inl e \<Rightarrow> InvalidTransactionId
   | Inr ms \<Rightarrow> (case List.find (\<lambda>m. ISUPDATE_from_mxstatus (member_status m)) ms of None \<Rightarrow> InvalidTransactionId | Some m \<Rightarrow> member_xid m))"

definition deleter :: "Vis \<Rightarrow> TransactionId option" where
  "deleter s = (if HEAP_XMAX_IS_LOCKED_ONLY (infomask s) then None
     else Some (if bit (infomask s) 12 then update_xid s else t_xmax (t_data s)))"

text \<open>A transaction that has left no trace: not committed, not the own one and not running elsewhere.\<close>

definition gone :: "(nat \<Rightarrow> TransactionId set) \<Rightarrow> Vis \<Rightarrow> TransactionId \<Rightarrow> bool" where
  "gone subs s x \<longleftrightarrow> \<not> did_commit (logs s) x \<and> \<not> mine s x \<and> \<not> running subs (vis_backend s) x"

text \<open>What the hint bits of a mask claim.\<close>

definition hints_true :: "(nat \<Rightarrow> TransactionId set) \<Rightarrow> Vis \<Rightarrow> uint16 \<Rightarrow> bool" where
  "hints_true subs s m \<longleftrightarrow> (bit m 8 \<and> \<not> bit m 9 \<longrightarrow> did_commit (logs s) (xmin s))
     \<and> (\<not> bit m 8 \<and> bit m 9 \<longrightarrow> gone subs s (xmin s))
     \<and> (\<forall>d. deleter s = Some d \<longrightarrow> (bit m 11 \<longrightarrow> gone subs s d) \<and> (bit m 10 \<and> \<not> bit m 11 \<longrightarrow> did_commit (logs s) d))"

text \<open>
  A tuple about which the logs know enough: it was not moved by an old VACUUM FULL, the logs cover its
  inserter, unless it is frozen, and its deleter, the own transactions have not committed, and only
  the own transaction deletes a tuple that it has inserted itself.
\<close>

definition tuple_ok :: "TransactionId set \<Rightarrow> (nat \<Rightarrow> TransactionId set) \<Rightarrow> Vis \<Rightarrow> bool" where
  "tuple_ok X subs s \<longleftrightarrow> log_inv (logs s) \<and> log_fine (logs s) \<and> known (logs s) X \<and> (\<forall>x \<in> X. TransactionIdIsValid x)
     \<and> \<not> bit (infomask s) 14 \<and> \<not> bit (infomask s) 15
     \<and> hints_true subs s (infomask s) \<and> (\<forall>x. mine s x \<longrightarrow> \<not> did_commit (logs s) x)
     \<and> (\<not> frozen (infomask s) \<longrightarrow> xmin s \<in> X)
     \<and> (bit (infomask s) 12 \<and> deleter s \<noteq> None \<longrightarrow> \<not> isl (GetMultiXactIdMembers s (t_xmax (t_data s)) False))
     \<and> (\<forall>d. deleter s = Some d \<longrightarrow> (\<not> bit (infomask s) 11 \<longrightarrow> d \<in> X) \<and> (\<not> bit (infomask s) 8 \<and> mine s (xmin s) \<and> \<not> mine s d \<longrightarrow> gone subs s d))"

section \<open>Views\<close>

text \<open>A state reached from \<open>s\<close> in which only log buffers and hint bits have changed, and these truthfully.\<close>

definition view :: "(nat \<Rightarrow> TransactionId set) \<Rightarrow> Vis \<Rightarrow> Vis \<Rightarrow> bool" where
  "view subs s t \<longleftrightarrow> backend_step (vis_backend s) (vis_backend t)
     \<and> (\<exists>b m d. t = s\<lparr>vis_backend := b, t_data := (t_data s)\<lparr>t_infomask := m\<rparr>, buffer_dirty := d\<rparr>)
     \<and> (\<forall>n. n \<notin> {8, 9, 10, 11} \<longrightarrow> bit (infomask t) n = bit (infomask s) n) \<and> (\<forall>n. bit (infomask s) n \<longrightarrow> bit (infomask t) n)
     \<and> hints_true subs s (infomask t) \<and> frozen (infomask t) = frozen (infomask s)"

lemma view_refl:
  assumes "tuple_ok X subs s"
  shows "view subs s s"
proof -
  have "s = s\<lparr>vis_backend := vis_backend s, t_data := (t_data s)\<lparr>t_infomask := infomask s\<rparr>, buffer_dirty := buffer_dirty s\<rparr>" by simp
  then show ?thesis using assms backend_step_refl [of "vis_backend s"] unfolding view_def tuple_ok_def by blast
qed

lemma view_fields:
  assumes "view subs s t"
  shows "t_xmin (t_data t) = t_xmin (t_data s)" "t_xmax (t_data t) = t_xmax (t_data s)" "t_field3 (t_data t) = t_field3 (t_data s)"
    "t_ctid (t_data t) = t_ctid (t_data s)" "t_self t = t_self s"
    "vis_combo t = vis_combo s" "GetMultiXactIdMembers t = GetMultiXactIdMembers s"
    "buffer_permanent t = buffer_permanent s" "buffer_lsn t = buffer_lsn s" "ResolveCminCmaxDuringDecoding t = ResolveCminCmaxDuringDecoding s"
proof -
  from assms obtain b m d where t: "t = s\<lparr>vis_backend := b, t_data := (t_data s)\<lparr>t_infomask := m\<rparr>, buffer_dirty := d\<rparr>"
    unfolding view_def by blast
  show "t_xmin (t_data t) = t_xmin (t_data s)" "t_xmax (t_data t) = t_xmax (t_data s)" "t_field3 (t_data t) = t_field3 (t_data s)"
    "t_ctid (t_data t) = t_ctid (t_data s)" "t_self t = t_self s"
    "vis_combo t = vis_combo s" "GetMultiXactIdMembers t = GetMultiXactIdMembers s"
    "buffer_permanent t = buffer_permanent s" "buffer_lsn t = buffer_lsn s" "ResolveCminCmaxDuringDecoding t = ResolveCminCmaxDuringDecoding s"
    by (simp_all add: t)
qed

lemma view_same:
  assumes "view subs s t"
  shows "mine t = mine s" "running subs (vis_backend t) = running subs (vis_backend s)"
    "n \<notin> {8, 9, 10, 11} \<Longrightarrow> bit (infomask t) n = bit (infomask s) n" "frozen (infomask t) = frozen (infomask s)" "hints_true subs s (infomask t)"
    "HEAP_XMAX_IS_LOCKED_ONLY (infomask t) = HEAP_XMAX_IS_LOCKED_ONLY (infomask s)" "bit (infomask s) n \<Longrightarrow> bit (infomask t) n"
    "HeapTupleHeaderGetCmin (vis_combo t) (t_data t) = HeapTupleHeaderGetCmin (vis_combo s) (t_data s)"
    "HeapTupleHeaderGetCmax (vis_combo t) (t_data t) = HeapTupleHeaderGetCmax (vis_combo s) (t_data s)"
proof -
  note v = assms [unfolded view_def]
  show "mine t = mine s" "running subs (vis_backend t) = running subs (vis_backend s)" using v backend_step_same by blast+
  show b: "bit (infomask t) n = bit (infomask s) n" if "n \<notin> {8, 9, 10, 11}" for n using v that by blast
  show "frozen (infomask t) = frozen (infomask s)" "hints_true subs s (infomask t)" using v by blast+
  show "HEAP_XMAX_IS_LOCKED_ONLY (infomask t) = HEAP_XMAX_IS_LOCKED_ONLY (infomask s)" by (simp add: locked_only_bits b)
  show "bit (infomask s) n \<Longrightarrow> bit (infomask t) n" using v by blast
  show "HeapTupleHeaderGetCmin (vis_combo t) (t_data t) = HeapTupleHeaderGetCmin (vis_combo s) (t_data s)"
    "HeapTupleHeaderGetCmax (vis_combo t) (t_data t) = HeapTupleHeaderGetCmax (vis_combo s) (t_data s)"
    using view_fields [OF assms] by (simp_all add: cid_defs b)
qed

text \<open>Calls of the logs lead to another view.\<close>

lemma view_call:
  assumes "view subs s t" and "backend_step (vis_backend t) b"
  shows "view subs s (t\<lparr>vis_backend := b\<rparr>)"
proof -
  note v = assms(1) [unfolded view_def]
  from v obtain b' m d where "t = s\<lparr>vis_backend := b', t_data := (t_data s)\<lparr>t_infomask := m\<rparr>, buffer_dirty := d\<rparr>" by blast
  then have "t\<lparr>vis_backend := b\<rparr> = s\<lparr>vis_backend := b, t_data := (t_data s)\<lparr>t_infomask := m\<rparr>, buffer_dirty := d\<rparr>" by simp
  then have ex: "\<exists>b' m d. t\<lparr>vis_backend := b\<rparr> = s\<lparr>vis_backend := b', t_data := (t_data s)\<lparr>t_infomask := m\<rparr>, buffer_dirty := d\<rparr>" by blast
  have "vis_backend (t\<lparr>vis_backend := b\<rparr>) = b" "infomask (t\<lparr>vis_backend := b\<rparr>) = infomask t" by simp_all
  with ex v backend_step_trans [OF _ assms(2), of "vis_backend s"] show ?thesis unfolding view_def by metis
qed

lemma view_logs:
  assumes ok: "tuple_ok X subs s" and view: "view subs s t"
  shows "log_inv (logs t)" "log_fine (logs t)" "known (logs t) X"
    "x \<in> X \<Longrightarrow> did_commit (logs t) x = did_commit (logs s) x" "x \<in> X \<Longrightarrow> in_snapshot (logs t) snap x = in_snapshot (logs s) snap x"
    "x \<in> X \<Longrightarrow> TransactionIdIsValid x"
proof -
  have s: "log_inv (logs s)" "log_fine (logs s)" "known (logs s) X" "\<And>x. x \<in> X \<Longrightarrow> TransactionIdIsValid x" using ok by (simp_all add: tuple_ok_def)
  from view have step: "log_step (logs s) (logs t)" by (auto simp: view_def backend_step_def)
  show "log_inv (logs t)" using step by (simp add: log_step_def)
  show "log_fine (logs t)" using log_step_fine [OF step s(2)] .
  show "known (logs t) X" using log_step_known [OF step s(3)] .
  show "x \<in> X \<Longrightarrow> did_commit (logs t) x = did_commit (logs s) x" using did_commit_step [OF step s(3)] .
  show "x \<in> X \<Longrightarrow> in_snapshot (logs t) snap x = in_snapshot (logs s) snap x" using in_snapshot_step [OF s(1-3) _ s(4) step] .
  show "x \<in> X \<Longrightarrow> TransactionIdIsValid x" by (rule s(4))
qed

section \<open>Rules for the queries\<close>

lemma runs_did_commit:
  assumes "tuple_ok X subs s" and "view subs s t" and "x \<in> X"
    and "\<And>u. view subs s u \<Longrightarrow> infomask u = infomask t \<Longrightarrow> Q u (did_commit (logs s) x)"
  shows "runs (did_commit_call x) t Q"
proof -
  note l = view_logs [OF assms(1,2)]
  from TransactionIdDidCommit_gives [OF l(1-3) assms(3) l(6) [OF assms(3)]] obtain m where
    m: "TransactionIdDidCommit (logs t) x = Some (m, Inr (did_commit (logs s) x))" "log_step (logs t) m" using l(4) [OF assms(3)] by auto
  show ?thesis unfolding did_commit_call_def
    by (rule runs_call [of _ _ "(vis_backend t)\<lparr>trans_log := m\<rparr>"])
      (use m in \<open>auto intro!: assms(4) view_call [OF assms(2)] backend_stepI\<close>)
qed

lemma runs_snapshot:
  assumes "tuple_ok X subs s" and "view subs s t" and "x \<in> X"
    and "\<And>u. view subs s u \<Longrightarrow> infomask u = infomask t \<Longrightarrow> Q u (in_snapshot (logs s) snap x)"
  shows "runs (xid_in_snapshot snap x) t Q"
proof -
  note l = view_logs [OF assms(1,2)]
  from XidInMVCCSnapshot_gives [OF l(1-3) assms(3) l(6) [OF assms(3)]] obtain c where
    c: "XidInMVCCSnapshot (vis_backend t) x snap = Some (c, Inr (in_snapshot (logs s) snap x))" "backend_step (vis_backend t) c" using l(5) [OF assms(3)] by auto
  show ?thesis unfolding xid_in_snapshot_def
    by (rule runs_call [of _ _ c]) (use c in \<open>auto intro!: assms(4) view_call [OF assms(2)]\<close>)
qed

lemma runs_in_progress:
  assumes "tuple_ok X subs s" and "view subs s t" and "x \<in> X" and "recent_ok old subs (vis_backend s)" and "\<And>x. running subs (vis_backend s) x \<Longrightarrow> x \<in> X"
    and "\<And>u r. view subs s u \<Longrightarrow> infomask u = infomask t \<Longrightarrow> running subs (vis_backend s) x \<longrightarrow> r \<Longrightarrow> Q u r"
  shows "runs (in_progress x) t Q"
proof -
  note l = view_logs [OF assms(1,2)]
  have "recent_ok old subs (vis_backend t)"
    by (rule recent_ok_step [OF assms(4), of _ X]) (use assms(1,2,5) in \<open>auto simp: view_def tuple_ok_def\<close>)
  from TransactionIdIsInProgress_gives [OF l(1-3) assms(3) l(6) [OF assms(3)] this] obtain c r where
    c: "TransactionIdIsInProgress (vis_backend t) x = Some (c, Inr r)" "backend_step (vis_backend t) c" "running subs (vis_backend t) x \<longrightarrow> r" by blast
  show ?thesis unfolding in_progress_def
    by (rule runs_call [of _ _ c]) (use c view_same(2) [OF assms(2)] in \<open>auto intro!: assms(6) view_call [OF assms(2)]\<close>)
qed

section \<open>Rules for hint bits\<close>

lemma view_hint:
  assumes view: "view subs s t" and m: "\<And>n. bit m n \<Longrightarrow> n \<in> {8, 9, 10, 11}"
    and true: "hints_true subs s (infomask t OR m)" "frozen (infomask t OR m) = frozen (infomask t)"
  shows "view subs s (t\<lparr>t_data := (t_data t)\<lparr>t_infomask := infomask t OR m\<rparr>, buffer_dirty := True\<rparr>)" (is "view subs s ?t")
proof -
  note v = view [unfolded view_def]
  from v obtain b k d where "t = s\<lparr>vis_backend := b, t_data := (t_data s)\<lparr>t_infomask := k\<rparr>, buffer_dirty := d\<rparr>" by blast
  then have "?t = s\<lparr>vis_backend := b, t_data := (t_data s)\<lparr>t_infomask := infomask t OR m\<rparr>, buffer_dirty := True\<rparr>" by simp
  then have ex: "\<exists>b k d. ?t = s\<lparr>vis_backend := b, t_data := (t_data s)\<lparr>t_infomask := k\<rparr>, buffer_dirty := d\<rparr>" by blast
  have bits: "bit (infomask ?t) n = bit (infomask s) n" if "n \<notin> {8, 9, 10, 11}" for n
    using that m [of n] v by (auto simp: bit_or_iff)
  have mono: "bit (infomask s) n \<longrightarrow> bit (infomask ?t) n" for n using v by (simp add: bit_or_iff)
  have "vis_backend ?t = vis_backend t" "infomask ?t = infomask t OR m" by simp_all
  with ex v bits mono true show ?thesis unfolding view_def by metis
qed

lemma runs_SetHintBits:
  assumes ok: "tuple_ok X subs s" and view: "view subs s t" and x: "x = InvalidTransactionId \<or> x \<in> X"
    and m: "\<And>n. bit m n \<Longrightarrow> n \<in> {8, 9, 10, 11}"
    and true: "hints_true subs s (infomask t OR m)" "frozen (infomask t OR m) = frozen (infomask t)"
    and Q: "\<And>u. view subs s u \<Longrightarrow> infomask u = infomask t \<or> infomask u = infomask t OR m \<Longrightarrow> Q u ()"
  shows "runs (SetHintBits m x) t Q"
proof -
  have set: "runs (\<lambda>s. Some (s\<lparr>t_data := (t_data s)\<lparr>t_infomask := infomask s OR m\<rparr>, buffer_dirty := True\<rparr>, Inr ())) u Q"
    if "view subs s u" "infomask u = infomask t" for u
    using Q [OF view_hint [OF that(1) m]] true that(2) by (simp add: runs_def)
  show ?thesis
  proof (cases "TransactionIdIsValid x")
    case False
    then show ?thesis using set [OF view] by (simp add: SetHintBits_def Let_def)
  next
    case True
    then have X: "x \<in> X" using x by (auto simp: TransactionIdIsValid_def)
    note l = view_logs [OF ok view]
    have "xact_status (logs t) x \<noteq> None" using l(3) X unfolding known_def by blast
    from TransactionIdGetCommitLSN_gives [OF l(1,2) this] obtain k lsn where
      k: "TransactionIdGetCommitLSN (logs t) x = Some (k, Inr lsn)" "log_step (logs t) k" by blast
    let ?u = "t\<lparr>vis_backend := (vis_backend t)\<lparr>trans_log := k\<rparr>\<rparr>"
    have u: "view subs s ?u" by (rule view_call [OF view backend_stepI [OF k(2)]])
    have "runs (commit_lsn x) t R" if "R ?u lsn" for R
      unfolding commit_lsn_def by (rule runs_call [of _ _ "(vis_backend t)\<lparr>trans_log := k\<rparr>"]) (use k that in auto)
    then show ?thesis using True set [OF u] Q [OF u] by (simp add: SetHintBits_def Let_def runs_simps)
  qed
qed

lemma hint_xmin_committed:
  assumes "tuple_ok X subs s" and "view subs s t" and "xmin s \<in> X" and "did_commit (logs s) (xmin s)"
    and "\<not> bit (infomask t) 9"
    and "\<And>u. view subs s u \<Longrightarrow> bit (infomask u) 10 = bit (infomask t) 10 \<Longrightarrow> bit (infomask u) 11 = bit (infomask t) 11 \<Longrightarrow> Q u ()"
  shows "runs (SetHintBits HEAP_XMIN_COMMITTED (xmin s)) t Q"
  by (rule runs_SetHintBits [OF assms(1,2)])
    (use assms(3-5) view_same(5) [OF assms(2)] in \<open>auto simp: hints_true_def bit_or_iff intro!: assms(6)\<close>)

lemma hint_xmin_invalid:
  assumes "tuple_ok X subs s" and "view subs s t" and "gone subs s (xmin s)" and "\<not> bit (infomask t) 8" and "\<And>u. view subs s u \<Longrightarrow> Q u ()"
  shows "runs (SetHintBits HEAP_XMIN_INVALID InvalidTransactionId) t Q"
  by (rule runs_SetHintBits [OF assms(1,2)])
    (use assms(3,4) view_same(5) [OF assms(2)] in \<open>auto simp: hints_true_def bit_or_iff intro!: assms(5)\<close>)

lemma hint_xmax_committed:
  assumes "tuple_ok X subs s" and "view subs s t" and "deleter s = Some d" and "d \<in> X" and "did_commit (logs s) d" and "\<not> bit (infomask t) 11"
    and "\<And>u. view subs s u \<Longrightarrow> Q u ()"
  shows "runs (SetHintBits HEAP_XMAX_COMMITTED d) t Q"
  by (rule runs_SetHintBits [OF assms(1,2)])
    (use assms(3-6) view_same(5) [OF assms(2)] in \<open>auto simp: hints_true_def bit_or_iff intro!: assms(7)\<close>)

lemma hint_xmax_invalid:
  assumes "tuple_ok X subs s" and "view subs s t" and "\<And>d. deleter s = Some d \<Longrightarrow> gone subs s d" and "\<And>u. view subs s u \<Longrightarrow> Q u ()"
  shows "runs (SetHintBits HEAP_XMAX_INVALID InvalidTransactionId) t Q"
  by (rule runs_SetHintBits [OF assms(1,2)])
    (use assms(3) view_same(5) [OF assms(2)] in \<open>auto simp: hints_true_def bit_or_iff intro!: assms(4)\<close>)

lemma runs_update_xid:
  assumes "view subs s t" and "\<not> isl (GetMultiXactIdMembers s (t_xmax (t_data s)) False)"
  shows "runs HeapTupleGetUpdateXid t Q \<longleftrightarrow> Q t (update_xid s)"
  using assms(2) view_fields [OF assms(1)]
  by (auto simp: runs_def HeapTupleGetUpdateXid_def update_xid_def HeapTupleHeaderGetRawXmax_def split: sum.splits)

section \<open>The inserting transaction\<close>

text \<open>\<open>A\<close> is what an answer to the question for a running inserter says.\<close>

lemma runs_check_inserter:
  assumes ok: "tuple_ok X subs s" and view: "view subs s t" and not8: "\<not> bit (infomask t) 8"
    and active: "\<And>u R. view subs s u \<Longrightarrow> xmin s \<in> X \<Longrightarrow> (\<And>v r. view subs s v \<Longrightarrow> infomask v = infomask u \<Longrightarrow> A r \<Longrightarrow> R v r) \<Longrightarrow> runs (active (xmin s)) u R"
    and A: "A False \<Longrightarrow> \<not> running subs (vis_backend s) (xmin s)"
    and dead: "\<And>u. view subs s u \<Longrightarrow> gone subs s (xmin s) \<Longrightarrow> runs invisible u Q"
    and own: "mine s (xmin s) \<Longrightarrow> runs own t Q"
    and inserting: "\<And>u. view subs s u \<Longrightarrow> infomask u = infomask t \<Longrightarrow> \<not> mine s (xmin s) \<Longrightarrow> A True \<Longrightarrow> runs inserting u Q"
    and continue: "\<And>u. view subs s u \<Longrightarrow> \<not> mine s (xmin s) \<Longrightarrow> A False \<Longrightarrow> did_commit (logs s) (xmin s) \<Longrightarrow> runs continue u Q"
  shows "runs (check_inserter active invisible own inserting continue) t Q"
proof (cases "bit (infomask t) 9")
  case True
  then have "gone subs s (xmin s)" using not8 view_same(5) [OF view] by (simp add: hints_true_def)
  with True not8 dead [OF view] show ?thesis by (simp add: check_inserter_def runs_simps)
next
  case False
  have X: "xmin s \<in> X" and moved: "\<not> bit (infomask t) 14" "\<not> bit (infomask t) 15"
    using ok not8 view_same(3,4) [OF view] by (auto simp: tuple_ok_def)
  have settle: "runs (vif (did_commit_call (xmin s)) (vdo (SetHintBits HEAP_XMIN_COMMITTED (xmin s)) continue)
      (vdo (SetHintBits HEAP_XMIN_INVALID InvalidTransactionId) invisible)) u Q"
    if "view subs s u" "infomask u = infomask t" "\<not> mine s (xmin s)" "A False" for u
    using that A not8 False X ok
    by (auto simp: runs_simps gone_def intro!: runs_did_commit [OF ok _ X] hint_xmin_committed [OF ok _ X] hint_xmin_invalid [OF ok] continue dead)
  have "runs (vif (current (xmin s)) own (vif (active (xmin s)) inserting
      (vif (did_commit_call (xmin s)) (vdo (SetHintBits HEAP_XMIN_COMMITTED (xmin s)) continue)
      (vdo (SetHintBits HEAP_XMIN_INVALID InvalidTransactionId) invisible)))) t Q"
  proof (cases "mine s (xmin s)")
    case True
    with own view_same(1) [OF view] show ?thesis by (simp add: runs_simps)
  next
    case notmine: False
    have "runs (active (xmin s)) t (\<lambda>u b. if b then runs inserting u Q else runs (vif (did_commit_call (xmin s))
        (vdo (SetHintBits HEAP_XMIN_COMMITTED (xmin s)) continue) (vdo (SetHintBits HEAP_XMIN_INVALID InvalidTransactionId) invisible)) u Q)"
      by (rule active [OF view X]) (use notmine inserting settle in auto)
    with notmine view_same(1) [OF view] show ?thesis by (simp add: runs_simps)
  qed
  then show ?thesis using False not8 moved view_fields(1) [OF view]
    by (simp add: check_inserter_def runs_simps HeapTupleHeaderGetRawXmin_def)
qed

section \<open>HeapTupleSatisfiesMVCC\<close>

text \<open>What a snapshot sees: the tuple was inserted by a transaction that it sees, or an earlier command of
  the own transaction, and not deleted by such a one.\<close>

definition seen :: "Vis \<Rightarrow> SnapshotData \<Rightarrow> CommandId \<Rightarrow> TransactionId \<Rightarrow> bool" where
  "seen s snap cid x \<longleftrightarrow> (if mine s x then cid < snap_curcid snap else \<not> in_snapshot (logs s) snap x \<and> did_commit (logs s) x)"

definition mvcc_deleted :: "Vis \<Rightarrow> SnapshotData \<Rightarrow> bool" where
  "mvcc_deleted s snap \<longleftrightarrow> (case deleter s of None \<Rightarrow> False
     | Some d \<Rightarrow> seen s snap (HeapTupleHeaderGetCmax (vis_combo s) (t_data s)) d)"

definition mvcc_visible :: "Vis \<Rightarrow> SnapshotData \<Rightarrow> bool" where
  "mvcc_visible s snap \<longleftrightarrow> (frozen (infomask s) \<or> seen s snap (HeapTupleHeaderGetCmin (vis_combo s) (t_data s)) (xmin s)) \<and> \<not> mvcc_deleted s snap"

text \<open>Every transaction that runs elsewhere is running for the snapshot.\<close>

definition snapshot_ok :: "(nat \<Rightarrow> TransactionId set) \<Rightarrow> Vis \<Rightarrow> SnapshotData \<Rightarrow> bool" where
  "snapshot_ok subs s snap \<longleftrightarrow> (\<forall>x. running subs (vis_backend s) x \<longrightarrow> in_snapshot (logs s) snap x)"

lemma tuple_ok_deleter:
  assumes ok: "tuple_ok X subs s" and view: "view subs s t" and not11: "\<not> bit (infomask t) 11" and d: "deleter s = Some d"
  shows "d \<in> X" "mine s d \<Longrightarrow> \<not> did_commit (logs s) d" "bit (infomask t) 10 \<Longrightarrow> did_commit (logs s) d"
    "\<not> HEAP_XMAX_IS_LOCKED_ONLY (infomask t)" "d = (if bit (infomask t) 12 then update_xid s else t_xmax (t_data t))"
    "bit (infomask t) 12 \<Longrightarrow> \<not> isl (GetMultiXactIdMembers s (t_xmax (t_data s)) False)"
proof -
  have "\<not> bit (infomask s) 11" using not11 view_same(7) [OF view] by blast
  then show "d \<in> X" "mine s d \<Longrightarrow> \<not> did_commit (logs s) d" using ok d by (auto simp: tuple_ok_def)
  show "bit (infomask t) 10 \<Longrightarrow> did_commit (logs s) d" using view_same(5) [OF view] not11 d by (simp add: hints_true_def)
  show "\<not> HEAP_XMAX_IS_LOCKED_ONLY (infomask t)" using d view_same(6) [OF view] by (auto simp: deleter_def split: if_splits)
  show "d = (if bit (infomask t) 12 then update_xid s else t_xmax (t_data t))"
    using d view_same(3) [OF view, of 12] view_fields [OF view] by (auto simp: deleter_def split: if_splits)
  show "bit (infomask t) 12 \<Longrightarrow> \<not> isl (GetMultiXactIdMembers s (t_xmax (t_data s)) False)"
    using ok d view_same(3) [OF view, of 12] by (simp add: tuple_ok_def)
qed

lemma not_deleted:
  assumes "view subs s t" and "bit (infomask t) 11 \<or> HEAP_XMAX_IS_LOCKED_ONLY (infomask t)"
  shows "\<not> mvcc_deleted s snap"
proof (cases "deleter s")
  case (Some d)
  then have "\<not> HEAP_XMAX_IS_LOCKED_ONLY (infomask t)" using view_same(6) [OF assms(1)] by (auto simp: deleter_def split: if_splits)
  then have "gone subs s d" using assms(2) Some view_same(5) [OF assms(1)] by (auto simp: hints_true_def)
  then show ?thesis using Some by (simp add: mvcc_deleted_def seen_def gone_def)
qed (simp add: mvcc_deleted_def)

lemma runs_deleted_by_self:
  assumes "view subs s t" and "deleter s = Some d" and "mine s d"
  shows "runs (deleted_by_self snap) t (\<lambda>u r. view subs s u \<and> r = (\<not> mvcc_deleted s snap))"
  using assms view_same(8,9) [OF assms(1)]
  by (auto simp: deleted_by_self_def runs_simps mvcc_deleted_def seen_def not_le)

lemma runs_mvcc_deleter:
  assumes ok: "tuple_ok X subs s" and view: "view subs s t" and snap: "snapshot_ok subs s snap"
  shows "runs (mvcc_deleter snap) t (\<lambda>u r. view subs s u \<and> r = (\<not> mvcc_deleted s snap))" (is "runs _ t ?Q")
proof (cases "bit (infomask t) 11 \<or> HEAP_XMAX_IS_LOCKED_ONLY (infomask t)")
  case True
  with view not_deleted [OF view, of snap] show ?thesis by (auto simp: mvcc_deleter_def runs_simps)
next
  case False
  then obtain d where d: "deleter s = Some d" using view_same(6) [OF view] by (auto simp: deleter_def)
  note D = tuple_ok_deleter [OF ok view _ d]
  have X: "d \<in> X" and own: "mine s d \<Longrightarrow> \<not> did_commit (logs s) d" using D(1,2) False by blast+
  have del: "mvcc_deleted s snap \<longleftrightarrow> \<not> in_snapshot (logs s) snap d \<and> did_commit (logs s) d" if "\<not> mine s d"
    using that d by (simp add: mvcc_deleted_def seen_def)
  have gone: "gone subs s d" if "\<not> mine s d" "\<not> in_snapshot (logs s) snap d" "\<not> did_commit (logs s) d"
    using that snap by (auto simp: gone_def snapshot_ok_def)
  note q = runs_snapshot [OF ok _ X] runs_did_commit [OF ok _ X]
  note h = hint_xmax_committed [OF ok _ d X] hint_xmax_invalid [OF ok]
  have multi: "runs (vif (current d) (deleted_by_self snap)
      (vif (xid_in_snapshot snap d) (ret True) (vif (did_commit_call d) (ret False) (ret True)))) t ?Q"
  proof (cases "mine s d")
    case True
    then show ?thesis using runs_deleted_by_self [OF view d True] view_same(1) [OF view] by (simp add: runs_simps)
  next
    case False
    then show ?thesis using view_same(1) [OF view] view by (auto simp: runs_simps del intro!: q)
  qed
  have single: "runs (vif (flag HEAP_XMAX_COMMITTED) (vif (xid_in_snapshot snap d) (ret True) (ret False))
      (vif (current d) (deleted_by_self snap)
      (vif (xid_in_snapshot snap d) (ret True)
      (vif (did_commit_call d) (vdo (SetHintBits HEAP_XMAX_COMMITTED d) (ret False))
         (vdo (SetHintBits HEAP_XMAX_INVALID InvalidTransactionId) (ret True)))))) t ?Q"
  proof (cases "mine s d")
    case True
    then have "\<not> bit (infomask t) 10" using D(3) False own by blast
    then show ?thesis using True runs_deleted_by_self [OF view d True] view_same(1) [OF view] by (simp add: runs_simps)
  next
    case notmine: False
    then show ?thesis using view_same(1) [OF view] view D(3) False gone d
      by (auto simp: runs_simps del intro!: q h)
  qed
  show ?thesis
  proof (cases "bit (infomask t) 12")
    case True
    then have u: "d = update_xid s" "\<not> isl (GetMultiXactIdMembers s (t_xmax (t_data s)) False)" using D(5,6) False by auto
    with True False multi show ?thesis by (simp add: mvcc_deleter_def runs_simps runs_update_xid [OF view])
  next
    case notmulti: False
    then have "d = t_xmax (t_data t)" using D(5) False by auto
    with False notmulti single show ?thesis by (simp add: mvcc_deleter_def runs_simps HeapTupleHeaderGetRawXmax_def)
  qed
qed

lemma runs_mvcc_own:
  assumes ok: "tuple_ok X subs s" and view: "view subs s t" and not8: "\<not> bit (infomask t) 8" and own: "mine s (xmin s)"
  shows "runs (mvcc_own snap) t (\<lambda>u r. view subs s u \<and> r = mvcc_visible s snap)" (is "runs _ t ?Q")
proof -
  have s8: "\<not> bit (infomask s) 8" using not8 view_same(7) [OF view] by blast
  have vis: "mvcc_visible s snap \<longleftrightarrow> HeapTupleHeaderGetCmin (vis_combo s) (t_data s) < snap_curcid snap \<and> \<not> mvcc_deleted s snap"
    using own s8 by (simp add: mvcc_visible_def seen_def)
  show ?thesis
  proof (cases "HeapTupleHeaderGetCmin (vis_combo s) (t_data s) < snap_curcid snap")
    case False
    then show ?thesis using view view_same(8) [OF view] by (simp add: mvcc_own_def runs_simps vis not_less)
  next
    case early: True
    then have start: "\<not> snap_curcid snap \<le> HeapTupleHeaderGetCmin (vis_combo t) (t_data t)" using view_same(8) [OF view] by simp
    show ?thesis
    proof (cases "bit (infomask t) 11 \<or> HEAP_XMAX_IS_LOCKED_ONLY (infomask t)")
      case True
      with view not_deleted [OF view, of snap] early start show ?thesis by (auto simp: mvcc_own_def runs_simps vis)
    next
      case False
      then obtain d where d: "deleter s = Some d" using view_same(6) [OF view] by (auto simp: deleter_def)
      note D = tuple_ok_deleter [OF ok view _ d]
      have gone: "gone subs s d" if "\<not> mine s d" using ok d own s8 that by (simp add: tuple_ok_def)
      have undel: "\<not> mvcc_deleted s snap" if "\<not> mine s d" using gone [OF that] d by (simp add: mvcc_deleted_def seen_def gone_def)
      have self: "runs (deleted_by_self snap) t ?Q" if "mine s d"
        by (rule runs_mono [OF runs_deleted_by_self [OF view d that]]) (simp add: vis early)
      show ?thesis
      proof (cases "bit (infomask t) 12")
        case True
        then have "d = update_xid s" "\<not> isl (GetMultiXactIdMembers s (t_xmax (t_data s)) False)" using D(5,6) False by auto
        with True False start view self undel show ?thesis
          by (simp add: mvcc_own_def runs_simps runs_update_xid [OF view] vis early view_same(1) [OF view])
      next
        case notmulti: False
        then have "d = t_xmax (t_data t)" using D(5) False by auto
        with notmulti False start view self undel gone d show ?thesis
          by (auto simp: mvcc_own_def runs_simps HeapTupleHeaderGetRawXmax_def vis early view_same(1) [OF view] intro!: hint_xmax_invalid [OF ok])
      qed
    qed
  qed
qed

lemma HeapTupleSatisfiesMVCC_runs:
  assumes ok: "tuple_ok X subs s" and snap: "snapshot_ok subs s snap"
  shows "runs (HeapTupleSatisfiesMVCC snap) s (\<lambda>t r. view subs s t \<and> r = mvcc_visible s snap)" (is "runs _ s ?Q")
proof -
  note view = view_refl [OF ok]
  have cont: "runs (mvcc_deleter snap) u ?Q" if "view subs s u" "frozen (infomask s) \<or> \<not> mine s (xmin s) \<and> \<not> in_snapshot (logs s) snap (xmin s) \<and> did_commit (logs s) (xmin s)" for u
    by (rule runs_mono [OF runs_mvcc_deleter [OF ok that(1) snap]]) (use that(2) in \<open>auto simp: mvcc_visible_def seen_def\<close>)
  show ?thesis
  proof (cases "bit (infomask s) 8")
    case False
    have "runs (check_inserter (xid_in_snapshot snap) (ret False) (mvcc_own snap) (ret False) (mvcc_deleter snap)) s ?Q"
      by (rule runs_check_inserter [OF ok view False, where A = "\<lambda>r. r = in_snapshot (logs s) snap (xmin s)"])
        (use False snap cont runs_mvcc_own [OF ok view False] in
          \<open>auto simp: runs_simps mvcc_visible_def seen_def gone_def snapshot_ok_def intro!: runs_snapshot [OF ok]\<close>)
    with False show ?thesis by (simp add: HeapTupleSatisfiesMVCC_def runs_simps)
  next
    case c: True
    show ?thesis
    proof (cases "bit (infomask s) 9")
      case True
      with c cont [OF view] show ?thesis by (simp add: HeapTupleSatisfiesMVCC_def runs_simps)
    next
      case False
      then have X: "xmin s \<in> X" and committed: "did_commit (logs s) (xmin s)" "\<not> mine s (xmin s)"
        using ok c by (auto simp: tuple_ok_def hints_true_def)
      have "runs (xid_in_snapshot snap (xmin s)) s (\<lambda>u b. if b then ?Q u False else runs (mvcc_deleter snap) u ?Q)"
        by (rule runs_snapshot [OF ok view X]) (use committed cont False in \<open>auto simp: mvcc_visible_def seen_def\<close>)
      with c False show ?thesis by (simp add: HeapTupleSatisfiesMVCC_def runs_simps HeapTupleHeaderGetRawXmin_def if_bool_eq_conj)
    qed
  qed
qed

section \<open>Examples\<close>

text \<open>A tuple inserted by transaction 5 and deleted by 7, and the only process that is left after 5 has committed with its subtransaction 7.\<close>

definition small_vis :: "Backend \<Rightarrow> uint16 \<Rightarrow> Vis" where
  "small_vis b m = \<lparr>vis_backend = b, t_self = \<lparr>ip_blkid = 0, ip_posid = 1\<rparr>,
     t_data = \<lparr>t_xmin = 5, t_xmax = 7, t_field3 = 0, t_ctid = \<lparr>ip_blkid = 0, ip_posid = 1\<rparr>, t_infomask2 = 0, t_infomask = m\<rparr>,
     buffer_permanent = True, buffer_lsn = 500, buffer_dirty = False, vis_combo = \<lparr>comboHash = None, comboCids = [], sizeComboCids = 0\<rparr>,
     GetMultiXactIdMembers = (\<lambda>_ _. Inr []), ResolveCminCmaxDuringDecoding = None\<rparr>"

definition lone_backend :: Backend where
  "lone_backend = (small_backend (small_log
     (set_status_on (set_status_on zeroes 5 TRANSACTION_STATUS_COMMITTED) 7 TRANSACTION_STATUS_SUB_COMMITTED)))\<lparr>pgprocnos := [0]\<rparr>"

lemma lone_log:
  "log_inv (trans_log lone_backend)" "log_fine (trans_log lone_backend)" "known (trans_log lone_backend) {5, 7}"
  "did_commit (trans_log lone_backend) 5" "did_commit (trans_log lone_backend) 7"
proof -
  let ?p = "set_status_on (set_status_on zeroes 5 TRANSACTION_STATUS_COMMITTED) 7 TRANSACTION_STATUS_SUB_COMMITTED"
  have l: "trans_log lone_backend = small_log ?p" by (simp add: lone_backend_def small_backend_def)
  have "status_on ?p 5 = TRANSACTION_STATUS_COMMITTED" "status_on ?p 7 = TRANSACTION_STATUS_SUB_COMMITTED"
    by (simp_all add: xact_table.get_put small_log_pages status_defs)
  then have st: "xact_status (small_log ?p) 5 = Some TRANSACTION_STATUS_COMMITTED" "xact_status (small_log ?p) 7 = Some TRANSACTION_STATUS_SUB_COMMITTED"
    by (simp_all add: small_log(3) small_log_pages)
  have par: "subtrans_parent (SubLog (small_log ?p)) 7 = Some 5" "subtrans_parent (SubLog (small_log ?p)) 5 = Some InvalidTransactionId"
    by (simp_all add: small_subtrans(3) small_log_pages)
  have valid: "TransactionIdIsValid 5" "\<not> TransactionIdIsValid InvalidTransactionId" by (simp_all add: xid_defs)
  show "log_inv (trans_log lone_backend)" "log_fine (trans_log lone_backend)" using small_log(1,2) by (simp_all add: l)
  show "known (trans_log lone_backend) {5, 7}" using st par valid by (auto simp: known_def l)
  show five: "did_commit (trans_log lone_backend) 5" unfolding l by (rule did_commit.committed [OF st(1)])
  show "did_commit (trans_log lone_backend) 7"
    unfolding l by (rule did_commit.parent [OF st(2) _ par(1) valid(1) five [unfolded l]]) (simp add: small_log_pages TransactionIdPrecedes_def xid_defs)
qed

lemma lone_process: "running subs lone_backend x \<longleftrightarrow> False" "TransactionIdIsCurrentTransactionId lone_backend x \<longleftrightarrow> False"
  by (simp_all add: running_def lone_backend_def small_backend_def TransactionIdIsCurrentTransactionId_def)

lemma lone_tuple:
  assumes "m = 0 \<or> m = HEAP_XMIN_COMMITTED OR HEAP_XMAX_COMMITTED"
  shows "deleter (small_vis b m) = Some 7" "tuple_ok {5, 7} subs (small_vis lone_backend m)"
proof -
  have bits: "\<not> bit m n" if "n \<notin> {8, 10}" for n using assms that by (auto simp: bit_or_iff)
  then show d: "deleter (small_vis b m) = Some 7" for b by (simp add: deleter_def small_vis_def locked_only_bits)
  show "tuple_ok {5, 7} subs (small_vis lone_backend m)"
    using lone_log lone_process d [of lone_backend]
    by (simp add: tuple_ok_def hints_true_def) (simp add: small_vis_def xid_defs lone_process bits)
qed

section \<open>Properties\<close>

text \<open>C1. HeapTupleSatisfiesMVCC decides visibility as a snapshot defines it: for every tuple about
  which the logs know enough it ends without an error, and the tuple is visible exactly if it was inserted by a transaction that
  had committed for the snapshot, or by an earlier command of the own transaction, and not deleted by such a
  one; a deleter in a multixact and tuples that are only locked are covered.  The answer depends on no hint bit, and on the
  way only log buffers and hint bits change, and these only to what the logs and the process array say.\<close>

theorem HeapTupleSatisfiesMVCC_visible:
  assumes "tuple_ok X subs s" and "snapshot_ok subs s snap"
  shows "\<exists>t. HeapTupleSatisfiesMVCC snap s = Some (t, Inr (mvcc_visible s snap)) \<and> view subs s t"
  using HeapTupleSatisfiesMVCC_runs [OF assms] by (auto simp: runs_def)

text \<open>A snapshot for which 7 was still running sees the tuple although 7, which deleted it, has committed since.\<close>

theorem HeapTupleSatisfiesMVCC_visible_witness:
  "\<exists>t snap. snap_xmin snap = 6 \<and> xip snap = [7] \<and> HeapTupleSatisfiesMVCC snap (small_vis lone_backend 0) = Some (t, Inr True)"
proof -
  let ?s = "small_vis lone_backend 0"
  let ?snap = "\<lparr>snapshot_type = SNAPSHOT_MVCC, snap_xmin = 6, snap_xmax = 9, xip = [7], subxip = [], suboverflowed = False,
    takenDuringRecovery = False, snap_curcid = 0, speculativeToken = 0\<rparr>"
  have b: "vis_backend ?s = lone_backend" "xmin ?s = 5" "infomask ?s = 0" by (simp_all add: small_vis_def)
  have "\<not> in_snapshot (logs ?s) ?snap 5" "in_snapshot (logs ?s) ?snap 7"
    by (simp_all add: in_snapshot_def TransactionIdPrecedes_def xid_defs)
  then have "mvcc_visible ?s ?snap" using lone_log(4) by (simp add: mvcc_visible_def mvcc_deleted_def seen_def b lone_process lone_tuple(1))
  moreover have "snapshot_ok (\<lambda>_. {}) ?s ?snap" by (simp add: snapshot_ok_def b lone_process)
  ultimately obtain t where "HeapTupleSatisfiesMVCC ?snap ?s = Some (t, Inr True)" using HeapTupleSatisfiesMVCC_visible [OF lone_tuple(2) [of 0], of "\<lambda>_. {}" ?snap] by auto
  then show ?thesis by (intro exI [of _ t] exI [of _ ?snap]) simp
qed

text \<open>C4. A hint bit never claims a commit that a crash can undo.  After a tree has been committed
  asynchronously with the LSN of its commit record, and whatever queries, commits and aborts follow, SetHintBits for a
  member of the tree on a page of a permanent relation ends, also when the log cannot be read, and either leaves the tuple as it was, or sets exactly the given
  bits while the commit record is flushed or is not after the LSN of the page, which is flushed before the page.\<close>

theorem SetHintBits_durable:
  assumes inv: "log_inv l" and prog: "\<forall>x \<in> insert xid (set subxids). xact_status l x = Some TRANSACTION_STATUS_IN_PROGRESS"
    and c: "TransactionIdAsyncCommitTree l xid subxids lsn = Some (m, Inr ())" and run: "log_run m (logs s)"
    and x: "x \<in> insert xid (set subxids)" and perm: "buffer_permanent s"
  shows "\<exists>t r. SetHintBits flags x s = Some (t, r) \<and> buffer_lsn t = buffer_lsn s
    \<and> (t_data t = t_data s \<or> t_data t = (t_data s)\<lparr>t_infomask := infomask s OR flags\<rparr>
         \<and> (lsn \<le> wal_flushed (XactLog (logs t)) \<or> lsn \<le> buffer_lsn t))"
proof -
  have "log_inv m"
    using set_tree_known(1) [OF inv _ prog, of TRANSACTION_STATUS_COMMITTED lsn m "Inr ()"] c by (simp add: TransactionIdAsyncCommitTree_def status_defs)
  from log_run_known [OF run this, of x lsn] commit_known [OF inv prog c x] have "log_inv (logs s)" "lsn_known (logs s) x lsn" by simp_all
  moreover have normal: "TransactionIdIsNormal x" using prog x in_progress_clog by blast
  ultimately obtain k r where k: "TransactionIdGetCommitLSN (logs s) x = Some (k, r)"
    "\<forall>lsn'. r = Inr lsn' \<longrightarrow> lsn \<le> lsn' \<or> lsn \<le> wal_flushed (XactLog k)" using TransactionIdGetCommitLSN_known by blast
  have "TransactionIdIsValid x" using normal by (auto simp: xid_defs)
  with k perm show ?thesis
    by (cases r) (auto simp: SetHintBits_def Let_def vbind_def vif_def vget_def commit_lsn_def call_def ret_def XLogNeedsFlush_def)
qed

theorem SetHintBits_durable_witness:
  "\<exists>m t r. TransactionIdAsyncCommitTree (small_log zeroes) 5 [7] 1000 = Some (m, Inr ())
    \<and> SetHintBits HEAP_XMIN_COMMITTED 5 (small_vis (small_backend m) 0) = Some (t, r)
    \<and> (infomask t = 0 \<or> 1000 \<le> wal_flushed (XactLog (logs t)) \<or> 1000 \<le> buffer_lsn t)"
proof -
  have "TRANSACTION_STATUS_COMMITTED < 4" "TransactionIdIsValid 5" by (simp_all add: status_defs xid_defs)
  from set_tree_post [OF small_log(1) this(2,1) small_log_tree, of 1000] small_log(2) obtain m where
    m: "TransactionIdAsyncCommitTree (small_log zeroes) 5 [7] 1000 = Some (m, Inr ())" unfolding TransactionIdAsyncCommitTree_def by metis
  have s: "logs (small_vis (small_backend m) 0) = m" "buffer_permanent (small_vis (small_backend m) 0)" "infomask (small_vis (small_backend m) 0) = 0"
    by (simp_all add: small_vis_def small_backend_def)
  from SetHintBits_durable [OF small_log(1) small_log_tree m, of "small_vis (small_backend m) 0" 5 HEAP_XMIN_COMMITTED] s log_run.start [of m]
  show ?thesis using m by auto
qed

end
