(* ===== verification/Vacuum.thy ===== *)
theory Vacuum
  imports Mvcc
begin

text \<open>
  What HeapTupleSatisfiesVacuum promises: a tuple that it calls dead is visible to nobody, now and
  later, so that it can be removed.
\<close>

section \<open>Asking for running transactions\<close>

text \<open>
  The state in which a process asks: the array and the caches are in order for the other processes,
  the own transactions are not finished, and the logs know the lockers of the tuple.
\<close>

definition asking_ok :: "TransactionId \<Rightarrow> TransactionId set \<Rightarrow> (nat \<Rightarrow> TransactionId set) \<Rightarrow> Vis \<Rightarrow> bool" where
  "asking_ok old X subs s \<longleftrightarrow> recent_ok old subs (vis_backend s) \<and> (\<forall>x. running subs (vis_backend s) x \<longrightarrow> x \<in> X)
     \<and> (\<forall>x. mine s x \<longrightarrow> \<not> TransactionIdPrecedes x (RecentXmin (vis_backend s)) \<and> unfinished (logs s) x)
     \<and> (bit (infomask s) 11 \<or> (if bit (infomask s) 12
          then \<forall>b. \<exists>ms. GetMultiXactIdMembers s (t_xmax (t_data s)) b = Inr ms \<and> member_xid ` set ms \<subseteq> X
          else t_xmax (t_data s) \<in> X))"

lemma runs_asking:
  assumes ok: "tuple_ok X subs s" and view: "view subs s t" and X: "x \<in> X" and asking: "asking_ok old X subs s"
    and Q: "\<And>u r. view subs s u \<Longrightarrow> infomask u = infomask t \<Longrightarrow> running subs (vis_backend s) x \<or> mine s x \<longrightarrow> r \<Longrightarrow> Q u r"
  shows "runs (in_progress x) t Q"
proof (cases "mine s x")
  case False
  then show ?thesis by (intro runs_in_progress [OF ok view X]) (use asking Q in \<open>auto simp: asking_ok_def\<close>)
next
  case True
  note l = view_logs [OF ok view]
  from view obtain k where k: "vis_backend t = (vis_backend s)\<lparr>trans_log := k\<rparr>" "log_step (logs s) k"
    unfolding view_def backend_step_def by blast
  have "unfinished (logs t) x" using unfinished_step [OF _ k(2) _ X] asking True ok k(1) by (simp add: asking_ok_def tuple_ok_def)
  then have "cachedFetchXid (logs t) \<noteq> x" by (rule unfinished_not_cached [OF _ l(1) l(6) [OF X]])
  then have "TransactionIdIsInProgress (vis_backend t) x = Some (vis_backend t, Inr True)"
    using asking True view_same(1) [OF view] k(1) by (simp add: asking_ok_def TransactionIdIsInProgress_def TransactionIdIsKnownCompleted_def)
  then show ?thesis unfolding in_progress_def by (intro runs_call [of _ _ "vis_backend t"]) (auto intro!: Q view)
qed

lemma runs_any_in_progress:
  assumes ok: "tuple_ok X subs s" and asking: "asking_ok old X subs s"
    and Q: "\<And>u r. view subs s u \<Longrightarrow> infomask u = m \<Longrightarrow> Q u r"
  shows "set xs \<subseteq> X \<Longrightarrow> view subs s t \<Longrightarrow> infomask t = m \<Longrightarrow> runs (any_in_progress xs) t Q"
proof (induction xs arbitrary: t)
  case (Cons x xs)
  then have "runs (in_progress x) t (\<lambda>u b. if b then Q u True else runs (any_in_progress xs) u Q)"
    by (intro runs_asking [OF ok _ _ asking]) (auto intro: Q)
  then show ?case by (simp add: runs_simps if_bool_eq_conj)
qed (simp add: runs_simps Q)

lemma runs_multi_running:
  assumes ok: "tuple_ok X subs s" and view: "view subs s t" and asking: "asking_ok old X subs s"
    and t: "bit (infomask t) 12" "\<not> bit (infomask t) 11"
    and Q: "\<And>u r. view subs s u \<Longrightarrow> infomask u = infomask t \<Longrightarrow> Q u r"
  shows "runs (MultiXactIdIsRunning (t_xmax (t_data s)) b) t Q"
proof -
  have "bit (infomask s) 12" "\<not> bit (infomask s) 11" using t view_same(3,7) [OF view] by auto
  then obtain ms where ms: "GetMultiXactIdMembers t (t_xmax (t_data s)) b = Inr ms" "member_xid ` set ms \<subseteq> X"
    using asking view_fields(7) [OF view] by (fastforce simp: asking_ok_def)
  have "runs (any_in_progress (map member_xid ms)) t Q"
    by (rule runs_any_in_progress [OF ok asking _ _ view refl]) (use ms Q in auto)
  with ms Q [OF view] show ?thesis by (auto simp: MultiXactIdIsRunning_def runs_def ret_def)
qed

section \<open>The verdict\<close>

text \<open>A tuple is dead below a horizon if its inserter is gone, or its deleter has committed and is older.\<close>

definition dead :: "TransactionId \<Rightarrow> (nat \<Rightarrow> TransactionId set) \<Rightarrow> Vis \<Rightarrow> bool" where
  "dead OldestXmin subs s \<longleftrightarrow> (\<not> frozen (infomask s) \<and> gone subs s (xmin s))
     \<or> (\<exists>d. deleter s = Some d \<and> did_commit (logs s) d \<and> TransactionIdPrecedes d OldestXmin)"

lemma runs_only_locked:
  assumes ok: "tuple_ok X subs s" and view: "view subs s t" and asking: "asking_ok old X subs s"
    and t: "\<not> bit (infomask t) 11" "\<not> HEAP_XMAX_IS_LOCKED_ONLY (infomask t)"
    and Q: "\<And>u r. view subs s u \<Longrightarrow> infomask u = infomask t \<Longrightarrow> Q u r"
  shows "runs HeapTupleHeaderIsOnlyLocked t Q"
proof -
  obtain d where d: "deleter s = Some d" using t view_same(6) [OF view] by (auto simp: deleter_def)
  note D = tuple_ok_deleter [OF ok view t(1) d]
  show ?thesis
  proof (cases "bit (infomask t) 12")
    case False
    with t Q [OF view] show ?thesis by (auto simp: HeapTupleHeaderIsOnlyLocked_def runs_simps)
  next
    case True
    then have u: "d = update_xid s" "\<not> isl (GetMultiXactIdMembers s (t_xmax (t_data s)) False)" using D(5,6) by auto
    have "runs (in_progress d) t (\<lambda>u b. if b then Q u False else runs (did_commit_call d) u (\<lambda>v c. if c then Q v False else Q v True))"
      by (rule runs_asking [OF ok view D(1) asking]) (auto intro!: Q runs_did_commit [OF ok _ D(1)])
    with True t Q [OF view] show ?thesis
      by (auto simp: HeapTupleHeaderIsOnlyLocked_def runs_simps runs_update_xid [OF view u(2)] u(1) [symmetric] if_bool_eq_conj)
  qed
qed

lemma runs_vacuum_own:
  assumes ok: "tuple_ok X subs s" and view: "view subs s t" and asking: "asking_ok old X subs s"
    and Q: "\<And>u r. view subs s u \<Longrightarrow> r \<noteq> HEAPTUPLE_DEAD \<Longrightarrow> Q u r"
  shows "runs vacuum_own t Q"
proof (cases "bit (infomask t) 11 \<or> HEAP_XMAX_IS_LOCKED_ONLY (infomask t)")
  case True
  with Q [OF view] show ?thesis by (auto simp: vacuum_own_def runs_simps)
next
  case False
  let ?Q = "\<lambda>u r. if r then Q u HEAPTUPLE_DELETE_IN_PROGRESS else Q u HEAPTUPLE_INSERT_IN_PROGRESS"
  obtain d where d: "deleter s = Some d" using False view_same(6) [OF view] by (auto simp: deleter_def)
  have own: "runs (vbind HeapTupleHeaderGetUpdateXid current) u ?Q" if u: "view subs s u" "infomask u = infomask t" for u
  proof -
    have "\<not> bit (infomask u) 11" "\<not> bit (infomask u) 7" using False u(2) by (auto simp: locked_only_bits)
    then show ?thesis
      using u Q [OF u(1)] runs_update_xid [OF u(1)] tuple_ok_deleter(6) [OF ok u(1) _ d]
      by (cases "bit (infomask u) 12") (auto simp: HeapTupleHeaderGetUpdateXid_def runs_simps)
  qed
  have "runs HeapTupleHeaderIsOnlyLocked t (\<lambda>u b. if b then Q u HEAPTUPLE_INSERT_IN_PROGRESS else runs (vbind HeapTupleHeaderGetUpdateXid current) u ?Q)"
    by (rule runs_only_locked [OF ok view asking]) (use False own Q in auto)
  with False show ?thesis by (simp add: vacuum_own_def runs_simps if_bool_eq_conj)
qed

lemma runs_vacuum_locked:
  assumes ok: "tuple_ok X subs s" and view: "view subs s t" and asking: "asking_ok old X subs s" and not11: "\<not> bit (infomask t) 11"
    and locked: "HEAP_XMAX_IS_LOCKED_ONLY (infomask t)"
    and Q: "\<And>u r. view subs s u \<Longrightarrow> r = HEAPTUPLE_DEAD \<longrightarrow> dead OldestXmin subs s \<Longrightarrow> Q u r"
  shows "runs (vacuum_deleter OldestXmin) t Q"
proof -
  have raw: "HeapTupleHeaderGetRawXmax (t_data t) = t_xmax (t_data s)" using view_fields(2) [OF view] by (simp add: HeapTupleHeaderGetRawXmax_def)
  have none: "deleter s = None" using locked view_same(6) [OF view] by (simp add: deleter_def)
  have invalid: "runs (SetHintBits HEAP_XMAX_INVALID InvalidTransactionId) u (\<lambda>v _. Q v HEAPTUPLE_LIVE)" if "view subs s u" for u
    by (rule hint_xmax_invalid [OF ok that]) (auto simp: none intro: Q)
  have "\<not> bit (infomask s) 11" "bit (infomask t) 12 = bit (infomask s) 12" using not11 view_same(3,7) [OF view] by auto
  then have X: "t_xmax (t_data s) \<in> X" if "\<not> bit (infomask t) 12" using asking that by (simp add: asking_ok_def)
  have "runs (MultiXactIdIsRunning (t_xmax (t_data s)) True) t (\<lambda>u b. if b then Q u HEAPTUPLE_LIVE
      else runs (SetHintBits HEAP_XMAX_INVALID InvalidTransactionId) u (\<lambda>v _. Q v HEAPTUPLE_LIVE))" if "bit (infomask t) 12"
    by (rule runs_multi_running [OF ok view asking that not11]) (use invalid in \<open>auto intro: Q\<close>)
  moreover have "runs (in_progress (t_xmax (t_data s))) t (\<lambda>u b. if b then Q u HEAPTUPLE_LIVE
      else runs (SetHintBits HEAP_XMAX_INVALID InvalidTransactionId) u (\<lambda>v _. Q v HEAPTUPLE_LIVE))" if "\<not> bit (infomask t) 12"
    by (rule runs_asking [OF ok view X [OF that] asking]) (use invalid in \<open>auto intro: Q\<close>)
  ultimately show ?thesis using locked not11 Q [OF view] invalid [OF view]
    by (simp add: vacuum_deleter_def runs_simps raw if_bool_eq_conj)
qed

lemma runs_vacuum_multi:
  assumes ok: "tuple_ok X subs s" and view: "view subs s t" and asking: "asking_ok old X subs s" and not11: "\<not> bit (infomask t) 11"
    and notlocked: "\<not> HEAP_XMAX_IS_LOCKED_ONLY (infomask t)" and is_multi: "bit (infomask t) 12"
    and Q: "\<And>u r. view subs s u \<Longrightarrow> r = HEAPTUPLE_DEAD \<longrightarrow> dead OldestXmin subs s \<Longrightarrow> Q u r"
  shows "runs (vacuum_deleter OldestXmin) t Q"
proof -
  have raw: "HeapTupleHeaderGetRawXmax (t_data t) = t_xmax (t_data s)" using view_fields(2) [OF view] by (simp add: HeapTupleHeaderGetRawXmax_def)
  obtain d where d: "deleter s = Some d" using notlocked view_same(6) [OF view] by (auto simp: deleter_def)
  note D = tuple_ok_deleter [OF ok view not11 d]
  obtain verdict where verdict: "(if \<not> TransactionIdPrecedes d OldestXmin then HEAPTUPLE_RECENTLY_DEAD else HEAPTUPLE_DEAD) = verdict" by blast
  have old: "Q u verdict" if "view subs s u" "did_commit (logs s) d" for u
    by (rule Q [OF that(1)]) (use d that(2) verdict in \<open>auto simp: dead_def\<close>)
  have invalid: "runs (SetHintBits HEAP_XMAX_INVALID InvalidTransactionId) u (\<lambda>v _. Q v HEAPTUPLE_LIVE)"
    if "view subs s u" "\<not> (running subs (vis_backend s) d \<or> mine s d)" "\<not> did_commit (logs s) d" for u
    by (rule hint_xmax_invalid [OF ok that(1)]) (use that d in \<open>auto simp: gone_def intro: Q\<close>)
  have u: "d = update_xid s" "\<not> isl (GetMultiXactIdMembers s (t_xmax (t_data s)) False)" using D(5,6) is_multi by auto
  let ?rest = "\<lambda>u b. if b then Q u HEAPTUPLE_LIVE else runs (SetHintBits HEAP_XMAX_INVALID InvalidTransactionId) u (\<lambda>v _. Q v HEAPTUPLE_LIVE)"
  let ?multi = "\<lambda>v. runs (MultiXactIdIsRunning (t_xmax (t_data s)) False) v ?rest"
  have multi: "?multi v" if "view subs s v" "infomask v = infomask t" "\<not> (running subs (vis_backend s) d \<or> mine s d)" "\<not> did_commit (logs s) d" for v
    by (rule runs_multi_running [OF ok that(1) asking]) (use is_multi not11 that invalid in \<open>auto intro: Q\<close>)
  have commit: "runs (did_commit_call d) v (\<lambda>w c. if c then Q w verdict else ?multi w)"
    if v: "view subs s v" "infomask v = infomask t" and notrun: "\<not> (running subs (vis_backend s) d \<or> mine s d)" for v
  proof (rule runs_did_commit [OF ok v(1) D(1)])
    fix w
    assume "view subs s w" "infomask w = infomask v"
    with old [of w] multi [of w] v notrun show "if did_commit (logs s) d then Q w verdict else ?multi w" by (cases "did_commit (logs s) d") simp_all
  qed
  have "runs (in_progress d) t (\<lambda>v b. if b then Q v HEAPTUPLE_DELETE_IN_PROGRESS else runs (did_commit_call d) v (\<lambda>w c. if c then Q w verdict else ?multi w))"
  proof (rule runs_asking [OF ok view D(1) asking])
    fix u r
    assume u: "view subs s u" "infomask u = infomask t" "running subs (vis_backend s) d \<or> mine s d \<longrightarrow> r"
    then show "if r then Q u HEAPTUPLE_DELETE_IN_PROGRESS else runs (did_commit_call d) u (\<lambda>w c. if c then Q w verdict else ?multi w)"
      using commit [OF u(1,2)] Q [OF u(1), of HEAPTUPLE_DELETE_IN_PROGRESS] by (cases r) auto
  qed
  with is_multi notlocked not11 show ?thesis
    by (simp add: vacuum_deleter_def runs_simps raw runs_update_xid [OF view u(2)] u(1) [symmetric] verdict if_bool_eq_conj)
qed

lemma runs_vacuum_single:
  assumes ok: "tuple_ok X subs s" and view: "view subs s t" and asking: "asking_ok old X subs s" and not11: "\<not> bit (infomask t) 11"
    and notlocked: "\<not> HEAP_XMAX_IS_LOCKED_ONLY (infomask t)" and notmulti: "\<not> bit (infomask t) 12"
    and Q: "\<And>u r. view subs s u \<Longrightarrow> r = HEAPTUPLE_DEAD \<longrightarrow> dead OldestXmin subs s \<Longrightarrow> Q u r"
  shows "runs (vacuum_deleter OldestXmin) t Q"
proof -
  have raw: "HeapTupleHeaderGetRawXmax (t_data t) = t_xmax (t_data s)" using view_fields(2) [OF view] by (simp add: HeapTupleHeaderGetRawXmax_def)
  obtain d where d: "deleter s = Some d" using notlocked view_same(6) [OF view] by (auto simp: deleter_def)
  note D = tuple_ok_deleter [OF ok view not11 d]
  obtain verdict where verdict: "(if \<not> TransactionIdPrecedes d OldestXmin then HEAPTUPLE_RECENTLY_DEAD else HEAPTUPLE_DEAD) = verdict" by blast
  have old: "Q u verdict" if "view subs s u" "did_commit (logs s) d" for u
    by (rule Q [OF that(1)]) (use d that(2) verdict in \<open>auto simp: dead_def\<close>)
  have invalid: "runs (SetHintBits HEAP_XMAX_INVALID InvalidTransactionId) u (\<lambda>v _. Q v HEAPTUPLE_LIVE)"
    if "view subs s u" "\<not> (running subs (vis_backend s) d \<or> mine s d)" "\<not> did_commit (logs s) d" for u
    by (rule hint_xmax_invalid [OF ok that(1)]) (use that d in \<open>auto simp: gone_def intro: Q\<close>)
  have u: "t_xmax (t_data s) = d" using D(5) notmulti view_fields(2) [OF view] by simp
  have committed: "runs (SetHintBits HEAP_XMAX_COMMITTED d) v (\<lambda>w _. Q w verdict)"
    if "view subs s v" "infomask v = infomask t" "did_commit (logs s) d" for v
    by (rule hint_xmax_committed [OF ok that(1) d D(1) that(3)]) (use that not11 old in auto)
  have "runs (in_progress d) t (\<lambda>v b. if b then Q v HEAPTUPLE_DELETE_IN_PROGRESS else runs (did_commit_call d) v (\<lambda>w c.
      if c then runs (SetHintBits HEAP_XMAX_COMMITTED d) w (\<lambda>w _. Q w verdict) else runs (SetHintBits HEAP_XMAX_INVALID InvalidTransactionId) w (\<lambda>v _. Q v HEAPTUPLE_LIVE)))"
    by (rule runs_asking [OF ok view D(1) asking]) (use invalid committed in \<open>auto intro!: Q runs_did_commit [OF ok _ D(1)]\<close>)
  with notmulti notlocked not11 old [OF view] D(3) show ?thesis
    by (simp add: vacuum_deleter_def runs_simps raw u verdict if_bool_eq_conj Let_def)
qed

lemma runs_vacuum_deleter:
  assumes ok: "tuple_ok X subs s" and view: "view subs s t" and asking: "asking_ok old X subs s"
    and Q: "\<And>u r. view subs s u \<Longrightarrow> r = HEAPTUPLE_DEAD \<longrightarrow> dead OldestXmin subs s \<Longrightarrow> Q u r"
  shows "runs (vacuum_deleter OldestXmin) t Q"
proof (cases "bit (infomask t) 11")
  case True
  with Q [OF view] show ?thesis by (simp add: vacuum_deleter_def runs_simps)
next
  case not11: False
  note stage = ok view asking not11
  show ?thesis
  proof (cases "HEAP_XMAX_IS_LOCKED_ONLY (infomask t)")
    case True
    then show ?thesis by (rule runs_vacuum_locked [OF stage]) (rule Q)
  next
    case False
    then show ?thesis
      by (cases "bit (infomask t) 12") (blast intro: runs_vacuum_multi [OF stage] runs_vacuum_single [OF stage] Q)+
  qed
qed

lemma HeapTupleSatisfiesVacuum_runs:
  assumes ok: "tuple_ok X subs s" and asking: "asking_ok old X subs s"
  shows "runs (HeapTupleSatisfiesVacuum OldestXmin) s (\<lambda>t r. view subs s t \<and> (r = HEAPTUPLE_DEAD \<longrightarrow> dead OldestXmin subs s))" (is "runs _ s ?Q")
proof -
  note view = view_refl [OF ok]
  have cont: "runs (vacuum_deleter OldestXmin) u ?Q" if "view subs s u" for u
    by (rule runs_vacuum_deleter [OF ok that asking]) blast
  show ?thesis
  proof (cases "bit (infomask s) 8")
    case True
    with cont [OF view] show ?thesis by (simp add: HeapTupleSatisfiesVacuum_def runs_simps)
  next
    case False
    let ?check = "check_inserter in_progress (ret HEAPTUPLE_DEAD) vacuum_own (ret HEAPTUPLE_INSERT_IN_PROGRESS) (vacuum_deleter OldestXmin)"
    have "\<not> bit (infomask s) 14" "\<not> bit (infomask s) 15" using ok by (auto simp: tuple_ok_def)
    then have "runs (HeapTupleSatisfiesVacuum OldestXmin) s ?Q = runs ?check s ?Q"
      using False by (simp add: HeapTupleSatisfiesVacuum_def check_inserter_def runs_simps)
    moreover have "runs ?check s ?Q"
      by (rule runs_check_inserter [OF ok view False, where A = "\<lambda>r. running subs (vis_backend s) (xmin s) \<or> mine s (xmin s) \<longrightarrow> r"])
        (use False cont in \<open>auto simp: runs_simps dead_def intro!: runs_asking [OF ok _ _ asking] runs_vacuum_own [OF ok _ asking] view\<close>)
    ultimately show ?thesis by simp
  qed
qed

section \<open>The horizon\<close>

text \<open>The processes that GetOldestXmin counts.\<close>

definition counted :: "Backend \<Rightarrow> (bool \<times> bool) option \<Rightarrow> uint8 \<Rightarrow> nat \<Rightarrow> bool" where
  "counted b rel flags i \<longleftrightarrow> i \<in> set (pgprocnos b) \<and> vacuumFlags (allPgXact b i) AND (flags AND PROCARRAY_PROC_FLAGS_MASK) = 0
     \<and> ((case rel of None \<Rightarrow> True | Some (relisshared, _) \<Rightarrow> relisshared) \<or> proc_databaseId b i = MyDatabaseId b \<or> proc_databaseId b i = 0)"

text \<open>All ids in use lie in one window, and the cleanup is deferred by less than their distance to its begin.\<close>

definition reserve :: "TransactionId \<Rightarrow> Backend \<Rightarrow> TransactionId \<Rightarrow> bool" where
  "reserve old b x \<longleftrightarrow> in_window old x \<and> unat (vacuum_defer_cleanup_age b) \<le> dist old x"

definition horizon_ok :: "TransactionId \<Rightarrow> Backend \<Rightarrow> bool" where
  "horizon_ok old b \<longleftrightarrow> reserve old b (TransactionIdAdvance (latestCompletedXid b))
     \<and> (\<forall>i \<in> set (pgprocnos b). \<forall>x \<in> {pgxact_xmin (allPgXact b i), pgxact_xid (allPgXact b i)}. TransactionIdIsNormal x \<longrightarrow> reserve old b x)
     \<and> (\<forall>x \<in> {replication_slot_xmin b, replication_slot_catalog_xmin b}. TransactionIdIsValid x \<longrightarrow> in_window old x)"

lemma older_window:
  assumes "reserve old b r" and "TransactionIdIsNormal x \<Longrightarrow> reserve old b x"
  shows "reserve old b (older x r)" "dist old (older x r) \<le> dist old r" "TransactionIdIsNormal x \<Longrightarrow> dist old (older x r) \<le> dist old x"
  using assms by (auto simp: older_def reserve_def in_window_precedes [of old])

lemma deferred_window:
  assumes r: "reserve old b r"
  shows "in_window old (if \<not> TransactionIdIsNormal (r - vacuum_defer_cleanup_age b) then FirstNormalTransactionId else r - vacuum_defer_cleanup_age b)"
    "dist old (if \<not> TransactionIdIsNormal (r - vacuum_defer_cleanup_age b) then FirstNormalTransactionId else r - vacuum_defer_cleanup_age b) \<le> dist old r"
proof -
  obtain a where a: "vacuum_defer_cleanup_age b = a" by blast
  let ?y = "r - a"
  have le: "unat a \<le> unat (r - old)" "unat (r - old) < 2147483640" "TransactionIdIsNormal r" using r by (simp_all add: reserve_def in_window_def dist_def a)
  have eq: "?y - old = (r - old) - a" by simp
  have y: "dist old ?y = unat (r - old) - unat a" unfolding dist_def eq using le(1) by (simp add: unat_sub word_le_nat_alt)
  have three: "dist old FirstNormalTransactionId \<le> unat (r - old)" if "\<not> TransactionIdIsNormal ?y"
  proof -
    have small: "unat ?y < 3" using that by (simp add: TransactionIdIsNormal_def FirstNormalTransactionId_def word_le_nat_alt)
    have sum: "unat r = unat ?y + unat a \<or> 4294967296 \<le> unat ?y + unat a" using unat_plus_if' [of ?y a] by (auto split: if_splits)
    have normal: "3 \<le> unat r" using le(3) by (simp add: TransactionIdIsNormal_def FirstNormalTransactionId_def word_le_nat_alt)
    have "k = y + n \<or> 4294967296 \<le> y + n \<Longrightarrow> 3 \<le> k \<Longrightarrow> y < 3 \<Longrightarrow> n \<le> w \<Longrightarrow> w < 2147483640 \<Longrightarrow> 3 - y \<le> n" for k y n w :: nat by linarith
    from this [OF sum normal small le(1,2)] have room: "3 - unat ?y \<le> unat a" .
    have "unat (u + of_nat n) \<le> unat u + n" for u :: uint32 and n
      by (simp add: unat_word_ariths unat_of_nat mod_add_right_eq)
    from this [of "?y - old" "3 - unat ?y"] have "unat (FirstNormalTransactionId - old) \<le> unat (?y - old) + (3 - unat ?y)"
      using small by (simp add: FirstNormalTransactionId_def of_nat_diff)
    also have "\<dots> \<le> (unat (r - old) - unat a) + unat a" using room y unfolding dist_def by (intro add_mono) simp_all
    finally show ?thesis using le(1) by (simp add: dist_def)
  qed
  show "in_window old (if \<not> TransactionIdIsNormal (r - vacuum_defer_cleanup_age b) then FirstNormalTransactionId else r - vacuum_defer_cleanup_age b)"
    "dist old (if \<not> TransactionIdIsNormal (r - vacuum_defer_cleanup_age b) then FirstNormalTransactionId else r - vacuum_defer_cleanup_age b) \<le> dist old r"
    using three y le by (auto simp: a in_window_def xid_defs dist_def [of old r])
qed

lemma slot_window:
  assumes "in_window old y" and "TransactionIdIsValid x \<Longrightarrow> in_window old x"
  shows "in_window old (if c \<and> TransactionIdIsValid x \<and> NormalTransactionIdPrecedes x y then x else y)
    \<and> dist old (if c \<and> TransactionIdIsValid x \<and> NormalTransactionIdPrecedes x y then x else y) \<le> dist old y"
  using assms by (auto simp: in_window_precedes [of old])

lemma GetOldestXmin_horizon:
  assumes ok: "horizon_ok old b"
  shows "in_window old (GetOldestXmin b rel flags)"
    "counted b rel flags i \<Longrightarrow> TransactionIdIsNormal (pgxact_xmin (allPgXact b i)) \<Longrightarrow> dist old (GetOldestXmin b rel flags) \<le> dist old (pgxact_xmin (allPgXact b i))"
proof -
  let ?allDbs = "case rel of None \<Rightarrow> True | Some (relisshared, _) \<Rightarrow> relisshared"
  define step where "step = (\<lambda>i result. let pgxact = allPgXact b i in if vacuumFlags pgxact AND (flags AND PROCARRAY_PROC_FLAGS_MASK) \<noteq> 0 then result
      else if ?allDbs \<or> proc_databaseId b i = MyDatabaseId b \<or> proc_databaseId b i = 0
      then older (pgxact_xmin pgxact) (older (pgxact_xid pgxact) result) else result)"
  have step: "reserve old b (step i r) \<and> dist old (step i r) \<le> dist old r
      \<and> (counted b rel flags i \<and> TransactionIdIsNormal (pgxact_xmin (allPgXact b i)) \<longrightarrow> dist old (step i r) \<le> dist old (pgxact_xmin (allPgXact b i)))"
    if r: "reserve old b r" and i: "i \<in> set (pgprocnos b)" for i r
  proof -
    have ids: "TransactionIdIsNormal (pgxact_xmin (allPgXact b i)) \<Longrightarrow> reserve old b (pgxact_xmin (allPgXact b i))"
      "TransactionIdIsNormal (pgxact_xid (allPgXact b i)) \<Longrightarrow> reserve old b (pgxact_xid (allPgXact b i))" using ok i by (auto simp: horizon_ok_def)
    note a = older_window [OF r ids(2)]
    from a(2) older_window [OF a(1) ids(1)] a(1) r show ?thesis by (auto simp: step_def counted_def Let_def)
  qed
  have scan: "reserve old b (fold step is r) \<and> dist old (fold step is r) \<le> dist old r
      \<and> (\<forall>i \<in> set is. counted b rel flags i \<and> TransactionIdIsNormal (pgxact_xmin (allPgXact b i)) \<longrightarrow> dist old (fold step is r) \<le> dist old (pgxact_xmin (allPgXact b i)))"
    if "set is \<subseteq> set (pgprocnos b)" "reserve old b r" for "is" r
    using that
  proof (induction "is" arbitrary: r)
    case (Cons i "is")
    note s = step [OF Cons.prems(2), of i]
    have "i \<in> set (pgprocnos b)" "set is \<subseteq> set (pgprocnos b)" using Cons.prems(1) by auto
    with s Cons.IH [of "step i r"] show ?case by fastforce
  qed simp
  define r where "r = fold step (pgprocnos b) (TransactionIdAdvance (latestCompletedXid b))"
  have r: "reserve old b r" "counted b rel flags i \<Longrightarrow> TransactionIdIsNormal (pgxact_xmin (allPgXact b i)) \<Longrightarrow> dist old r \<le> dist old (pgxact_xmin (allPgXact b i))"
    using scan [OF subset_refl, of "TransactionIdAdvance (latestCompletedXid b)"] ok by (auto simp: r_def horizon_ok_def counted_def)
  define q where "q = (if \<not> TransactionIdIsNormal (r - vacuum_defer_cleanup_age b) then FirstNormalTransactionId else r - vacuum_defer_cleanup_age b)"
  note q = deferred_window [OF r(1), folded q_def]
  define p where "p = (if flags AND PROCARRAY_SLOTS_XMIN = 0 \<and> TransactionIdIsValid (replication_slot_xmin b)
                       \<and> NormalTransactionIdPrecedes (replication_slot_xmin b) q then replication_slot_xmin b else q)"
  have p: "in_window old p" "dist old p \<le> dist old q" using slot_window [OF q(1), of "replication_slot_xmin b"] ok by (auto simp: p_def horizon_ok_def)
  have "in_window old (GetOldestXmin b rel flags) \<and> dist old (GetOldestXmin b rel flags) \<le> dist old p"
    using slot_window [OF p(1), of "replication_slot_catalog_xmin b" "flags AND PROCARRAY_SLOTS_XMIN = 0 \<and> (case rel of None \<Rightarrow> True | Some (_, decodable) \<Rightarrow> decodable)"] ok
    unfolding GetOldestXmin_def Let_def step_def [symmetric, unfolded Let_def] r_def [symmetric] q_def [symmetric] p_def [symmetric]
    by (auto simp: horizon_ok_def)
  with p q r show "in_window old (GetOldestXmin b rel flags)"
    "counted b rel flags i \<Longrightarrow> TransactionIdIsNormal (pgxact_xmin (allPgXact b i)) \<Longrightarrow> dist old (GetOldestXmin b rel flags) \<le> dist old (pgxact_xmin (allPgXact b i))" by auto
qed

section \<open>Onlookers\<close>

text \<open>
  A process, the own or another, that looks at the tuple at the same time or later, with a snapshot whose xmin is
  covered by what it advertised when the horizon was taken from the array \<open>b\<close>: hint bits may have been set
  meanwhile, transactions that were running may have committed, and its own transactions were
  running, or did not exist.
\<close>

definition onlooker :: "TransactionId \<Rightarrow> Backend \<Rightarrow> (bool \<times> bool) option \<Rightarrow> uint8 \<Rightarrow> TransactionId set \<Rightarrow> (nat \<Rightarrow> TransactionId set) \<Rightarrow> Vis \<Rightarrow> SnapshotData \<Rightarrow> Vis \<Rightarrow> bool" where
  "onlooker old b rel flags X subs s snap s' \<longleftrightarrow>
     (\<exists>t. view subs s t \<and> t_data s' = t_data t) \<and> GetMultiXactIdMembers s' = GetMultiXactIdMembers s
     \<and> (\<forall>x \<in> X. (did_commit (logs s) x \<longrightarrow> did_commit (logs s') x)
          \<and> (did_commit (logs s') x \<or> mine s' x \<longrightarrow> did_commit (logs s) x \<or> mine s x \<or> running subs (vis_backend s) x))
     \<and> (\<exists>i. counted b rel flags i \<and> TransactionIdIsNormal (pgxact_xmin (allPgXact b i))
          \<and> in_window old (snap_xmin snap) \<and> dist old (pgxact_xmin (allPgXact b i)) \<le> dist old (snap_xmin snap))"

lemma deleter_view:
  assumes "view subs s t" and "t_data s' = t_data t" and "GetMultiXactIdMembers s' = GetMultiXactIdMembers s"
  shows "deleter s' = deleter s"
  using assms view_fields(2) [OF assms(1)] view_same(3,6) [OF assms(1)] by (simp add: deleter_def update_xid_def)

lemma dead_invisible:
  assumes dead: "dead (GetOldestXmin b rel flags) subs s" and ok: "tuple_ok X subs s" and s': "onlooker old b rel flags X subs s snap s'"
    and window: "\<forall>x \<in> X. in_window old x" "horizon_ok old b" and own: "\<And>x. mine s' x \<Longrightarrow> \<not> did_commit (logs s') x"
  shows "\<not> mvcc_visible s' snap"
proof -
  from s' obtain t where t: "view subs s t" "t_data s' = t_data t" "GetMultiXactIdMembers s' = GetMultiXactIdMembers s" by (auto simp: onlooker_def)
  note same = deleter_view [OF t] view_fields(1) [OF t(1)] view_same(4) [OF t(1)]
  from dead show ?thesis unfolding dead_def
  proof (elim disjE exE conjE)
    assume g: "\<not> frozen (infomask s)" "gone subs s (xmin s)"
    then have "xmin s \<in> X" using ok by (simp add: tuple_ok_def)
    then have "\<not> did_commit (logs s') (xmin s)" "\<not> mine s' (xmin s)" using s' g(2) by (auto simp: onlooker_def gone_def)
    then show ?thesis using g(1) same by (auto simp: mvcc_visible_def seen_def t(2))
  next
    fix d
    assume d: "deleter s = Some d" "did_commit (logs s) d" "TransactionIdPrecedes d (GetOldestXmin b rel flags)"
    then have X: "d \<in> X" using ok by (auto simp: tuple_ok_def hints_true_def gone_def)
    then have c: "did_commit (logs s') d" "\<not> mine s' d" using s' d(2) own [of d] by (auto simp: onlooker_def)
    have "TransactionIdPrecedes d (snap_xmin snap)"
      using s' d(3) window X GetOldestXmin_horizon [OF window(2)]
      by (fastforce simp: onlooker_def in_window_precedes [of old])
    with c have "mvcc_deleted s' snap" using d(1) same(1) by (simp add: mvcc_deleted_def seen_def in_snapshot_def)
    then show ?thesis by (simp add: mvcc_visible_def)
  qed
qed

section \<open>Properties\<close>

text \<open>C2. VACUUM removes no tuple that anybody can see.  HeapTupleSatisfiesVacuum ends without an error, and
  if it calls a tuple dead below the horizon that GetOldestXmin computed, then HeapTupleSatisfiesMVCC
  says that the tuple is invisible to every process that looks at it now or later with
  a snapshot whose xmin it had advertised when the horizon was computed.\<close>

theorem HeapTupleSatisfiesVacuum_dead_invisible:
  assumes ok: "tuple_ok X subs s" and asking: "asking_ok old X subs s" and window: "\<forall>x \<in> X. in_window old x" "horizon_ok old b"
  shows "\<exists>t r. HeapTupleSatisfiesVacuum (GetOldestXmin b rel flags) s = Some (t, Inr r) \<and> view subs s t
    \<and> (r = HEAPTUPLE_DEAD \<longrightarrow> (\<forall>X' subs' snap s'.
         onlooker old b rel flags X subs s snap s' \<and> tuple_ok X' subs' s' \<and> snapshot_ok subs' s' snap \<longrightarrow>
           (\<exists>u. HeapTupleSatisfiesMVCC snap s' = Some (u, Inr False))))"
proof -
  from HeapTupleSatisfiesVacuum_runs [OF ok asking, of "GetOldestXmin b rel flags"] obtain t r where
    r: "HeapTupleSatisfiesVacuum (GetOldestXmin b rel flags) s = Some (t, Inr r)" "view subs s t"
      "r = HEAPTUPLE_DEAD \<longrightarrow> dead (GetOldestXmin b rel flags) subs s" unfolding runs_def by blast
  have "\<exists>u. HeapTupleSatisfiesMVCC snap s' = Some (u, Inr False)"
    if "r = HEAPTUPLE_DEAD" "onlooker old b rel flags X subs s snap s'" "tuple_ok X' subs' s'" "snapshot_ok subs' s' snap" for X' subs' snap s'
  proof -
    have "\<not> mvcc_visible s' snap"
      by (rule dead_invisible [OF _ ok that(2) window]) (use r(3) that in \<open>auto simp: tuple_ok_def\<close>)
    with HeapTupleSatisfiesMVCC_runs [OF that(3,4)] show ?thesis unfolding runs_def by auto
  qed
  with r(1,2) show ?thesis by blast
qed

text \<open>The tuple that 7 has deleted, with its hint bits set, and a process that looks with a snapshot from after that.\<close>

theorem HeapTupleSatisfiesVacuum_dead_invisible_witness:
  "\<exists>b snap t u. snap_xmin snap = 9
    \<and> HeapTupleSatisfiesVacuum (GetOldestXmin b None 0) (small_vis lone_backend (HEAP_XMIN_COMMITTED OR HEAP_XMAX_COMMITTED)) = Some (t, Inr HEAPTUPLE_DEAD)
    \<and> HeapTupleSatisfiesMVCC snap (small_vis lone_backend (HEAP_XMIN_COMMITTED OR HEAP_XMAX_COMMITTED)) = Some (u, Inr False)"
proof -
  let ?m = "HEAP_XMIN_COMMITTED OR HEAP_XMAX_COMMITTED" and ?subs = "\<lambda>_::nat. {}::TransactionId set"
  let ?s = "small_vis lone_backend ?m"
  let ?b = "lone_backend\<lparr>allPgXact := (\<lambda>i. (allPgXact lone_backend i)\<lparr>pgxact_xmin := 9\<rparr>)\<rparr>"
  let ?snap = "\<lparr>snapshot_type = SNAPSHOT_MVCC, snap_xmin = 9, snap_xmax = 9, xip = [], subxip = [], suboverflowed = False,
    takenDuringRecovery = False, snap_curcid = 0, speculativeToken = 0\<rparr>"
  have ok: "tuple_ok {5, 7} ?subs ?s" by (rule lone_tuple(2)) simp
  have fields: "vis_backend ?s = lone_backend" "infomask ?s = ?m" "t_xmax (t_data ?s) = 7" by (simp_all add: small_vis_def)
  have "proc_ok 3 (trans_log lone_backend) (allPgXact lone_backend 0) {}" by (simp add: proc_ok_def lone_backend_def small_backend_def xid_defs)
  then have asking: "asking_ok 3 {5, 7} ?subs ?s"
    by (auto simp: asking_ok_def fields lone_process recent_ok_def bit_or_iff)
      (simp_all add: lone_backend_def small_backend_def in_window_def dist_def xid_defs small_log_pages)
  have window: "\<forall>x \<in> {5, 7}. in_window 3 x" "horizon_ok 3 ?b"
    by (simp_all add: in_window_def dist_def xid_defs horizon_ok_def reserve_def lone_backend_def small_backend_def TransactionIdAdvance_def)
  have nine: "GetOldestXmin ?b None 0 = 9"
    by (simp add: GetOldestXmin_def lone_backend_def small_backend_def older_def xid_defs TransactionIdAdvance_def TransactionIdPrecedes_def)
  have dead: "HeapTupleSatisfiesVacuum 9 ?s = Some (?s, Inr HEAPTUPLE_DEAD)"
    by (simp add: HeapTupleSatisfiesVacuum_def vacuum_deleter_def vif_def vbind_def flag_def tup_def vget_def ret_def locked_only_def locked_only_bits
        HeapTupleHeaderXminCommitted_def HeapTupleHeaderGetRawXmax_def fields bit_or_iff TransactionIdPrecedes_def xid_defs Let_def)
  have "onlooker 3 ?b None 0 {5, 7} ?subs ?s ?snap ?s"
    unfolding onlooker_def using view_refl [OF ok]
    by (auto simp: counted_def lone_backend_def small_backend_def xid_defs in_window_def dist_def intro!: exI [of _ 0])
  moreover have "snapshot_ok ?subs ?s ?snap" by (simp add: snapshot_ok_def fields lone_process)
  ultimately obtain u where "HeapTupleSatisfiesMVCC ?snap ?s = Some (u, Inr False)"
    using HeapTupleSatisfiesVacuum_dead_invisible [OF ok asking window, of None 0] dead ok unfolding nine by (metis Pair_inject option.inject sum.inject(2))
  with dead nine show ?thesis by (intro exI [of _ ?b] exI [of _ ?snap] exI [of _ ?s] exI [of _ u]) simp
qed

end
