(* ===== verification/Spec2Isabelle.thy ===== *)
theory Spec2Isabelle
  imports BinaryHeap ProcArrayOps Vacuum
begin

text \<open>
  \<^bold>\<open>A verification development for PostgreSQL 12.5.\<close>

  The repository holds the sources of PostgreSQL 12.5 under \<open>src/postgresql-12.5/\<close>; below, paths are relative to that
  directory.  The development models the machinery by which a backend decides which rows it sees, from
  the bits on the pages of the transaction logs up to the visibility rules for heap tuples, and three
  data structures that stand beside it: bitmap sets, the binary heap and the free space map.

  \<^bold>\<open>The parts and how they interact.\<close>

  A transaction gets its id from the counter in shared memory (\<open>varsup.c\<close>), which extends the logs that have an
  entry for each id: the commit log (\<open>clog.c\<close>), the parents of subtransactions (\<open>subtrans.c\<close>) and the commit
  timestamps (\<open>commit_ts.c\<close>).  All logs keep their pages in buffer pools of one kind (\<open>slru.c\<close>).  While it runs, the id
  stands in the array of processes (\<open>procarray.c\<close>), from which snapshots are taken.  At its end the outcome
  of the whole tree of subtransactions is written to the commit log, and \<open>transam.c\<close> answers from the logs whether a
  transaction has committed.  A tuple carries the ids of its inserter and deleter, hint bits that cache their fate, and command ids
  (\<open>htup_details.h\<close>, \<open>combocid.c\<close>); \<open>heapam_visibility.c\<close> combines all this into the answer
  whether a tuple is visible, may be updated, or is dead.

  \<^bold>\<open>Theories.\<close>

  \<^item> \<open>Prelude\<close>: names for the C integers, errors as values, the collections of facts, and
    the interface \<open>window_order\<close> for comparisons that are an order on a window of a circle of ids.
  \<^item> \<open>Transam\<close>: transaction ids, \<open>src/include/access/transam.h\<close> and the comparisons of
    \<open>src/backend/access/transam/transam.c\<close>, on 32 and 64 bit words; the interface is interpreted for them.
  \<^item> \<open>Slru\<close>, \<open>SlruStore\<close>, \<open>SlruTable\<close>: \<open>src/backend/access/transam/slru.c\<close>.  The record \<open>Slru\<close> is the shared control
    structure with the segment files on the disk and the outcomes of the coming physical operations; \<open>stored\<close> is the abstract content, a map from page
    numbers to pages.  \<open>SlruStore\<close> proves that the operations implement this store (interface \<open>page_store\<close>), \<open>SlruTable\<close> what logs with one fixed-size
    entry for each id have in common (interface \<open>slru_table\<close>).
  \<^item> \<open>Clog\<close>, \<open>ClogStore\<close>: \<open>clog.c\<close>; \<open>Subtrans\<close>: \<open>subtrans.c\<close>; \<open>CommitTs\<close>: \<open>commit_ts.c\<close>; each interprets \<open>slru_table\<close>.
  \<^item> \<open>TransLog\<close>: the status queries and updates of \<open>transam.c\<close>, with the one-entry cache; the interface \<open>log_query\<close> is
    interpreted for TransactionIdDidCommit and TransactionIdDidAbort.
  \<^item> \<open>Varsup\<close>: \<open>varsup.c\<close>, with the interleaving of the backends that assign ids as an inductive relation.
  \<^item> \<open>ProcArray\<close>, \<open>ProcArrayOps\<close>: \<open>src/backend/storage/ipc/procarray.c\<close>, XidInMVCCSnapshot of \<open>src/backend/utils/time/snapmgr.c\<close> and
    TransactionIdIsCurrentTransactionId of \<open>xact.c\<close>.  The record \<open>Backend\<close> is what one process sees: the shared array, its own transaction state and the logs.
  \<^item> \<open>HeapTuple\<close>, \<open>ComboCid\<close>, \<open>Visibility\<close>: the flags and macros of \<open>htup_details.h\<close>, \<open>src/backend/utils/time/combocid.c\<close>, and
    \<open>src/backend/access/heap/heapam_visibility.c\<close>.  The record \<open>Vis\<close> is all that the visibility routines touch; they are written with
    the combinators of a state and error monad in the order of the C code.
  \<^item> \<open>Mvcc\<close>, \<open>Vacuum\<close>: what the visibility routines decide, by rules for a total-correctness predicate \<open>runs\<close>.
  \<^item> \<open>Bitutils\<close>, \<open>Bitmapset\<close>, \<open>BitmapsetScan\<close>: \<open>src/include/port/pg_bitutils.h\<close>, \<open>src/port/pg_bitutils.c\<close> and
    \<open>src/backend/nodes/bitmapset.c\<close>; the interfaces \<open>nat_set\<close> and \<open>cursor\<close> are interpreted for the sets and the loops over their members.
  \<^item> \<open>BinaryHeap\<close>: \<open>src/backend/lib/binaryheap.c\<close>, for any comparator that is a total preorder (interface \<open>comparator\<close>, interpreted for
    bms_compare; it gives the interface \<open>max_queue\<close>).
  \<^item> \<open>FsmPage\<close>, \<open>Freespace\<close>: \<open>src/backend/storage/freespace/\<close>; the interface \<open>slot_page\<close> is interpreted for the page operations.

  \<^bold>\<open>How the code is translated.\<close>

  Structs are records, enums datatypes, integers words of their width where they can wrap and natural numbers or integers where the
  code keeps them in range.  An operation that changes state takes the record and returns it; one that can
  raise an error returns a sum with the error on the left, together with the state at that point, since
  shared memory survives the error.  Pages are functions from byte positions to bytes.  Physical operations take their
  outcome from a stream in the state, so that a theorem about all states covers every pattern of failures.  Locks are not part of the state: an operation
  that runs under one lock is one step, and where the code releases a lock in between, the steps are separate and interleave
  (the id counter in \<open>Varsup\<close>), or the state may change there (the lock upgrade in fsm_search_avail).  Assertions are preconditions.

  \<^bold>\<open>What is shown.\<close>

  \<^item> Visibility: HeapTupleSatisfiesMVCC computes the declarative \<open>mvcc_visible\<close>, whatever hint bits
    are set; a tuple that HeapTupleSatisfiesVacuum calls dead is invisible to all; no hint bit claims a commit that
    a crash can undo; combo command ids lose nothing.
  \<^item> Running transactions: a snapshot separates what was running from what was finished, subtransactions and overflowed caches
    included, and the operations of the array keep the invariant that this needs.
  \<^item> Logs: a tree of transactions commits atomically for every observer, wherever an error stops the commit; lookups
    return what was set; the walk to the topmost transaction ends on any contents; truncation keeps the window of
    valid ids; ids are assigned before the wraparound limit under any interleaving; which commit timestamps are recorded.
  \<^item> Buffer pools: reading through the pool is transparent, a flush is durable, the choice of a victim ends.
  \<^item> Ids, sets, heap and free space map: comparisons follow the 64-bit order; the set operations, iteration and comparison agree with sets of numbers;
    the heap drains in order; a search in the free space map ends on any page and returns a page with enough space.

  \<^bold>\<open>Bounds and termination.\<close>

  No definition takes fuel.  Loops that end on every input are functions with a measure; those that end only under an invariant
  (choosing an SLRU slot, the walk through pg_subtrans, the descent in the free space map) are partial functions in the
  option type, and the theorems prove that they return.  Ids are compared within a window of fewer than \<open>2 ^ 31\<close> ids, as the code assumes;
  theories \<open>ProcArray\<close> and \<open>Vacuum\<close> measure it from an oldest id with \<open>dist\<close>.  The running subtransactions of a process, which the shared
  array knows only as far as they fit in its cache, are ghost state \<open>subs\<close>.

  \<^bold>\<open>Parameters.\<close>

  What pg_multixact returns for a multixact id (GetMultiXactIdMembers) and the command ids that logical decoding has collected
  (ResolveCminCmaxDuringDecoding) are fields of the record \<open>Vis\<close>; the theorems hold for all their values that satisfy
  the stated hypotheses, and the witnesses use concrete ones.  The outcomes of physical operations and what a failed write leaves behind are arbitrary.

  \<^bold>\<open>Not modelled.\<close>

  \<^item> The storage of multixacts and the rest of \<open>multixact.c\<close>; the running transactions of a standby, virtual ids and the
    signalling of backends in \<open>procarray.c\<close>; the state machine of \<open>xact.c\<close>; registered and exported snapshots in \<open>snapmgr.c\<close>.
  \<^item> Group updates in \<open>clog.c\<close> and group clearing in \<open>procarray.c\<close>: they only batch, under contention, what the modelled path does for one process.
  \<^item> Write-ahead logging, recovery and replication: the records that the modelled code writes appear as data, their insertion, flushing and
    replay by \<open>xlog.c\<close> and the resource managers do not, except for the redo routines of the modelled logs.
  \<^item> The buffer manager, locks, shared memory and the other parts of \<open>src/backend/storage\<close>: device and operating system interfaces, and concurrency below the level of
    the modelled steps.
  \<^item> The access methods other than the visibility rules of the heap, the catalogs, commands, the executor, the planner, the parser and
    rewriter, types and functions in \<open>src/backend/utils/adt\<close>, text search and regular expressions, the procedural languages, \<open>contrib\<close>, the
    client interfaces and programs: each is a system of its own, and none is needed by the modelled parts.
\<close>

end
